(* ===== verification/Fscc_Prelude.thy ===== *)
theory Fscc_Prelude
  imports Main "HOL-Library.Word" "HOL-Library.Monad_Syntax"
begin

text \<open>
  What the theories of the development share: the names of the machine types, the
  collections the component proofs draw on, facts on single bits of 32-bit words (the
  driver tests and sets them everywhere) and facts on lists read as rings, because both
  descriptor arrays of the driver are rings walked by wrapping indices.
\<close>

unbundle bit_operations_syntax

section \<open>Machine types\<close>

type_synonym u8 = "8 word"
type_synonym u32 = "32 word"
type_synonym u64 = "64 word"

text \<open>C's \<open>int\<close> is a 32-bit word that is read with \<open>sint\<close> where its sign
  matters; \<open>BOOLEAN\<close> of the Windows headers is an unsigned byte.\<close>

type_synonym i32 = "32 word"
type_synonym i64 = "64 word"
type_synonym BOOLEAN = "8 word"

abbreviation (input) TRUE :: BOOLEAN where "TRUE \<equiv> 1"
abbreviation (input) FALSE :: BOOLEAN where "FALSE \<equiv> 0"

text \<open>\<open>(value) ? 1 : 0\<close>.\<close>

definition c_bool :: "BOOLEAN \<Rightarrow> BOOLEAN" where
  "c_bool v = (if v \<noteq> 0 then 1 else 0)"

lemma c_bool_simps [simp]:
  "c_bool 0 = 0" "c_bool 1 = 1" "c_bool (c_bool v) = c_bool v"
  "(c_bool v = 0) = (v = 0)" "(c_bool v = 1) = (v \<noteq> 0)"
  by (auto simp: c_bool_def)

section \<open>Collections\<close>

named_theorems ring_simps \<open>walking a descriptor ring\<close>
named_theorems bit_tests \<open>single-bit tests of control and status words\<close>

section \<open>Bits of words\<close>

lemma word_and_bit_eq_0:
  "((w :: 'a::len word) AND push_bit n 1 = 0) = (\<not> bit w n)" if "n < LENGTH('a)"
proof -
  have "push_bit n (1 :: 'a word) = 2 ^ n" by (simp add: push_bit_eq_mult)
  then show ?thesis by (simp add: and_exp_eq_0_iff_not_bit)
qed

lemma word_and_bit_eq_self:
  "((w :: 'a::len word) AND push_bit n 1 = push_bit n 1) = bit w n" if "n < LENGTH('a)"
proof
  assume eq: "w AND push_bit n 1 = push_bit n 1"
  have "bit (push_bit n (1 :: 'a word)) n" using that by (simp add: push_bit_of_1 bit_exp_iff)
  then have "bit (w AND push_bit n 1) n" by (simp only: eq)
  then show "bit w n" by (simp add: bit_and_iff)
next
  assume b: "bit w n"
  show "w AND push_bit n 1 = push_bit n 1"
  proof (rule bit_word_eqI)
    fix m assume "m < LENGTH('a)"
    show "bit (w AND push_bit n 1) m = bit (push_bit n (1 :: 'a word)) m"
      using b by (cases "m = n") (auto simp: bit_and_iff push_bit_of_1 bit_exp_iff)
  qed
qed

text \<open>The single-bit masks of the driver, as its tests spell them.\<close>

lemma and_mask_eq_0 [bit_tests]:
  fixes w :: u32
  shows "(w AND 0x00040000 = 0) = (\<not> bit w 18)"
    and "(w AND 0x20000000 = 0) = (\<not> bit w 29)"
    and "(w AND 0x40000000 = 0) = (\<not> bit w 30)"
    and "(w AND 0x80000000 = 0) = (\<not> bit w 31)"
  using word_and_bit_eq_0 [of 18 w] word_and_bit_eq_0 [of 29 w]
    word_and_bit_eq_0 [of 30 w] word_and_bit_eq_0 [of 31 w]
  by simp_all

lemma and_mask_eq_self [bit_tests]:
  fixes w :: u32
  shows "(w AND 0x40000000 = 0x40000000) = bit w 30"
    and "(w AND 0x80000000 = 0x80000000) = bit w 31"
  using word_and_bit_eq_self [of 30 w] word_and_bit_eq_self [of 31 w]
  by simp_all

lemma bit_mask_u32 [bit_tests]:
  "bit (0x20000000 :: u32) n = (n = 29)" "bit (0x40000000 :: u32) n = (n = 30)"
  "bit (0x80000000 :: u32) n = (n = 31)"
proof -
  have "bit (push_bit m (1 :: u32)) n = (n = m)" if "m < 32" for m
    using that by (auto simp: push_bit_of_1 bit_exp_iff)
  from this [of 29] this [of 30] this [of 31]
  show "bit (0x20000000 :: u32) n = (n = 29)" "bit (0x40000000 :: u32) n = (n = 30)"
    "bit (0x80000000 :: u32) n = (n = 31)" by simp_all
qed

lemma unat_less_exp:
  "unat (w :: 'a::len word) < n \<Longrightarrow> n \<le> 2 ^ k \<Longrightarrow> k \<le> LENGTH('a) \<Longrightarrow> take_bit k w = w"
  by (simp add: word_unat_eq_iff unsigned_take_bit_eq take_bit_nat_eq_self)

lemma take_bit_29_and: "(c :: u32) AND 0x1fffffff = take_bit 29 c"
  by (simp add: take_bit_eq_mask mask_eq_exp_minus_1)

section \<open>Lists read as rings\<close>

text \<open>\<open>d++; if (d == n) d = 0;\<close> on a ring of \<open>n\<close> slots.\<close>

definition next_slot :: "nat \<Rightarrow> nat \<Rightarrow> nat" where
  "next_slot n d = (if d + 1 = n then 0 else d + 1)"

lemma next_slot_less [simp]: "d < n \<Longrightarrow> next_slot n d < n"
  by (auto simp: next_slot_def)

lemma next_slot_mod: "d < n \<Longrightarrow> next_slot n d = (d + 1) mod n"
  by (auto simp: next_slot_def)

text \<open>The slots of a ring in the order a walk from slot \<open>d\<close> visits them.\<close>

definition ring_view :: "nat \<Rightarrow> 'a list \<Rightarrow> 'a list" where
  "ring_view d xs = drop d xs @ take d xs"

lemma length_ring_view [simp]: "length (ring_view d xs) = length xs"
  by (simp add: ring_view_def)

lemma set_ring_view [simp]: "set (ring_view d xs) = set xs"
  by (metis append_take_drop_id inf_sup_aci(5) ring_view_def set_append)

lemma ring_view_0 [simp]: "ring_view 0 xs = xs"
  by (simp add: ring_view_def)

lemma ring_view_Cons [ring_simps]:
  "d < length xs \<Longrightarrow>
   ring_view d xs = xs ! d # tl (ring_view d xs)"
  by (simp add: ring_view_def Cons_nth_drop_Suc [symmetric])

lemma ring_view_next [ring_simps]:
  assumes "d < length xs"
  shows "ring_view (next_slot (length xs) d) xs = tl (ring_view d xs) @ [xs ! d]"
proof (cases "d + 1 = length xs")
  case True
  then show ?thesis
    using assms by (simp add: next_slot_def ring_view_def Cons_nth_drop_Suc [symmetric])
      (metis Suc_eq_plus1 assms take_Suc_conv_app_nth take_all_iff order_refl)
next
  case False
  with assms show ?thesis
    by (simp add: next_slot_def ring_view_def Cons_nth_drop_Suc [symmetric] take_Suc_conv_app_nth)
qed

lemma ring_view_update [ring_simps]:
  "d < length xs \<Longrightarrow> ring_view d (xs[d := x]) = x # tl (ring_view d xs)"
  by (simp add: ring_view_def Cons_nth_drop_Suc [symmetric] drop_update_swap)

lemma hd_ring_view [ring_simps]: "d < length xs \<Longrightarrow> hd (ring_view d xs) = xs ! d"
  by (simp add: ring_view_def hd_append hd_drop_conv_nth)

lemma ring_view_same [simp]: "(ring_view d xs = ring_view d ys) = (xs = ys)" if "length xs = length ys"
  using that by (auto simp: ring_view_def append_eq_append_conv)
    (metis append_take_drop_id)

end
