(* ===== verification/Fscc_Defs.thy ===== *)
theory Fscc_Defs
  imports Fscc_Prelude
begin

text \<open>
  The data of the driver (\<open>defines.h\<close>, \<open>port.h\<close>, \<open>card.h\<close>, \<open>io.h\<close>,
  \<open>fscc.h\<close>, \<open>config.h\<close>): the status codes, register offsets and bit masks, the
  structs as records, and the driver state, which is \<open>struct fscc_port\<close> extended with
  the history of its calls into hardware and kernel.

  What is not part of the repository (the card, the Windows kernel and the driver
  framework) is the parameter \<open>env\<close>: each of its fields answers one kind of call, and
  may answer differently each time, because it is given the history of everything the
  driver did and was told before. No field of \<open>env\<close> has a definition here; what a
  property needs of one is a hypothesis of the property.
\<close>

section \<open>Status codes\<close>

text \<open>The \<open>NTSTATUS\<close> values the driver names; \<open>STATUS_FAILED n\<close> is any other failure
  a call outside the repository reports.\<close>

datatype NTSTATUS =
    STATUS_SUCCESS
  | STATUS_UNSUCCESSFUL
  | STATUS_IO_TIMEOUT
  | STATUS_BUFFER_TOO_SMALL
  | STATUS_NOT_SUPPORTED
  | STATUS_INVALID_PARAMETER
  | STATUS_NO_MORE_ENTRIES
  | STATUS_NOT_FOUND
  | STATUS_OBJECT_NAME_NOT_FOUND
  | STATUS_DEVICE_CONFIGURATION_ERROR
  | STATUS_INTERNAL_ERROR
  | STATUS_FAILED nat

abbreviation (input) NT_SUCCESS :: "NTSTATUS \<Rightarrow> bool" where
  "NT_SUCCESS st \<equiv> st = STATUS_SUCCESS"

section \<open>Registers\<close>

text \<open>Offsets in the first BAR (\<open>port.h\<close>).\<close>

abbreviation (input) FIFO_OFFSET :: u32 where "FIFO_OFFSET \<equiv> 0x00"
abbreviation (input) BC_FIFO_L_OFFSET :: u32 where "BC_FIFO_L_OFFSET \<equiv> 0x04"
abbreviation (input) FIFOT_OFFSET :: u32 where "FIFOT_OFFSET \<equiv> 0x08"
abbreviation (input) FIFO_BC_OFFSET :: u32 where "FIFO_BC_OFFSET \<equiv> 0x0C"
abbreviation (input) FIFO_FC_OFFSET :: u32 where "FIFO_FC_OFFSET \<equiv> 0x10"
abbreviation (input) CMDR_OFFSET :: u32 where "CMDR_OFFSET \<equiv> 0x14"
abbreviation (input) STAR_OFFSET :: u32 where "STAR_OFFSET \<equiv> 0x18"
abbreviation (input) CCR0_OFFSET :: u32 where "CCR0_OFFSET \<equiv> 0x1C"
abbreviation (input) VSTR_OFFSET :: u32 where "VSTR_OFFSET \<equiv> 0x4C"
abbreviation (input) ISR_OFFSET :: u32 where "ISR_OFFSET \<equiv> 0x50"
abbreviation (input) MAX_OFFSET :: u32 where "MAX_OFFSET \<equiv> 0x58"

text \<open>Offsets in the third BAR (\<open>port.h\<close>, \<open>card.h\<close>).\<close>

abbreviation (input) FCR_OFFSET :: u32 where "FCR_OFFSET \<equiv> 0x00"
abbreviation (input) DMACCR_OFFSET :: u32 where "DMACCR_OFFSET \<equiv> 0x04"
abbreviation (input) DMA_RX_BASE_OFFSET :: u32 where "DMA_RX_BASE_OFFSET \<equiv> 0x0c"
abbreviation (input) DMA_TX_BASE_OFFSET :: u32 where "DMA_TX_BASE_OFFSET \<equiv> 0x10"
abbreviation (input) DMA_CURRENT_RX_BASE_OFFSET :: u32 where "DMA_CURRENT_RX_BASE_OFFSET \<equiv> 0x20"
abbreviation (input) DMA_CURRENT_TX_BASE_OFFSET :: u32 where "DMA_CURRENT_TX_BASE_OFFSET \<equiv> 0x24"
abbreviation (input) DSTAR_OFFSET :: u32 where "DSTAR_OFFSET \<equiv> 0x30"

text \<open>Interrupt bits of \<open>ISR\<close> (\<open>port.h\<close>) and the \<open>CE\<close> bit of \<open>STAR\<close>.\<close>

abbreviation (input) RFS :: u32 where "RFS \<equiv> 0x00000001"
abbreviation (input) RFT :: u32 where "RFT \<equiv> 0x00000002"
abbreviation (input) RFE :: u32 where "RFE \<equiv> 0x00000004"
abbreviation (input) RFO :: u32 where "RFO \<equiv> 0x00000008"
abbreviation (input) RDO :: u32 where "RDO \<equiv> 0x00000010"
abbreviation (input) DR_HI :: u32 where "DR_HI \<equiv> 0x00000400"
abbreviation (input) DR_FE :: u32 where "DR_FE \<equiv> 0x00001000"
abbreviation (input) TFT :: u32 where "TFT \<equiv> 0x00010000"
abbreviation (input) ALLS :: u32 where "ALLS \<equiv> 0x00020000"
abbreviation (input) TDU :: u32 where "TDU \<equiv> 0x00040000"
abbreviation (input) CE_BIT :: u32 where "CE_BIT \<equiv> 0x00040000"

text \<open>\<open>struct fscc_registers\<close> is used through a cast to an array of 30 \<open>INT64\<close>; the
  model is that array, and the field names are its indices.\<close>

abbreviation (input) NUM_REGS :: nat where "NUM_REGS \<equiv> 30"
abbreviation (input) reg_FIFOT :: nat where "reg_FIFOT \<equiv> 2"
abbreviation (input) reg_CMDR :: nat where "reg_CMDR \<equiv> 5"
abbreviation (input) reg_CCR0 :: nat where "reg_CCR0 \<equiv> 7"
abbreviation (input) reg_CCR2 :: nat where "reg_CCR2 \<equiv> 9"
abbreviation (input) reg_FCR :: nat where "reg_FCR \<equiv> 23"
abbreviation (input) reg_DMACCR :: nat where "reg_DMACCR \<equiv> 24"
abbreviation (input) reg_DSTAR :: nat where "reg_DSTAR \<equiv> 29"

text \<open>\<open>FSCC_REGISTERS_INIT\<close> fills the structure with -1; -2 asks for a value.\<close>

abbreviation (input) FSCC_UPDATE_VALUE :: i64 where "FSCC_UPDATE_VALUE \<equiv> - 2"

definition FSCC_REGISTERS_INIT :: "i64 list" where
  "FSCC_REGISTERS_INIT = replicate NUM_REGS (- 1)"

section \<open>Descriptors\<close>

abbreviation (input) DESC_FE_BIT :: u32 where "DESC_FE_BIT \<equiv> 0x80000000"
abbreviation (input) DESC_CSTOP_BIT :: u32 where "DESC_CSTOP_BIT \<equiv> 0x40000000"
abbreviation (input) DESC_HI_BIT :: u32 where "DESC_HI_BIT \<equiv> 0x20000000"
abbreviation (input) DMA_MAX_LENGTH :: u32 where "DMA_MAX_LENGTH \<equiv> 0x1fffffff"

abbreviation (input) TX_FIFO_SIZE :: u32 where "TX_FIFO_SIZE \<equiv> 4096"
abbreviation (input) DEFAULT_TIMEOUT_VALUE :: nat where "DEFAULT_TIMEOUT_VALUE \<equiv> 20"

text \<open>Transmit modifiers (\<open>fscc.h\<close>).\<close>

abbreviation (input) XF :: i32 where "XF \<equiv> 0"
abbreviation (input) XREP :: i32 where "XREP \<equiv> 1"
abbreviation (input) TXT :: i32 where "TXT \<equiv> 2"
abbreviation (input) TXEXT :: i32 where "TXEXT \<equiv> 4"

record LARGE_INTEGER =
  LowPart :: u32
  HighPart :: u32

type_synonym fscc_timestamp = LARGE_INTEGER

record fscc_descriptor =
  control :: u32
  data_address :: u32
  data_count :: u32
  next_descriptor :: u32

text \<open>\<open>struct dma_frame\<close>: the descriptor and the data buffer it points to are part of
  the frame here, each frame of the driver owning its own; the common-buffer handles are
  the framework's.\<close>

record dma_frame =
  desc :: fscc_descriptor
  desc_physical_address :: u32
  buffer :: "u8 list"
  timestamp :: fscc_timestamp
  data_size :: u32
  desc_size :: u32

abbreviation (input) set_control :: "u32 \<Rightarrow> dma_frame \<Rightarrow> dma_frame" where
  "set_control v f \<equiv> f\<lparr>desc := (desc f)\<lparr>control := v\<rparr>\<rparr>"
abbreviation (input) set_data_count :: "u32 \<Rightarrow> dma_frame \<Rightarrow> dma_frame" where
  "set_data_count v f \<equiv> f\<lparr>desc := (desc f)\<lparr>data_count := v\<rparr>\<rparr>"
abbreviation (input) frame_control :: "dma_frame \<Rightarrow> u32" where
  "frame_control f \<equiv> control (desc f)"
abbreviation (input) frame_count :: "dma_frame \<Rightarrow> u32" where
  "frame_count f \<equiv> data_count (desc f)"

section \<open>Card and port\<close>

record BAR =
  address :: u64
  memory_mapped :: BOOLEAN

record fscc_card =
  device_id :: u32
  bar :: "BAR list"

record fscc_memory =
  tx_size :: u32
  tx_num :: u32
  rx_size :: u32
  rx_num :: u32

record clock_data_fscc =
  frequency :: u32
  clock_bits :: "u8 list"

text \<open>\<open>struct fscc_port\<close> without the framework's handles, which are names here (the
  datatypes \<open>queue\<close> and \<open>dpc\<close> below). A descriptor array is \<open>None\<close> for a null
  pointer, otherwise the frames behind its non-null entries.\<close>

record fscc_port =
  port_card :: fscc_card
  channel :: u32
  register_storage :: "i64 list"
  append_status :: BOOLEAN
  append_timestamp :: BOOLEAN
  ignore_timeout :: BOOLEAN
  rx_multiple :: BOOLEAN
  wait_on_write :: BOOLEAN
  blocking_write :: BOOLEAN
  force_fifo :: BOOLEAN
  tx_modifiers :: i32
  last_isr_value :: u32
  open_counter :: u32
  memory :: fscc_memory
  has_dma :: BOOLEAN
  rx_descriptors :: "dma_frame list option"
  user_rx_desc :: u32
  fifo_rx_desc :: u32
  rx_bytes_in_frame :: i32
  rx_frame_size :: i32
  tx_descriptors :: "dma_frame list option"
  user_tx_desc :: u32
  fifo_tx_desc :: u32
  tx_bytes_in_frame :: i32
  tx_frame_size :: i32

section \<open>Environment and history\<close>

datatype io_space = REGISTER_SPACE | PORT_SPACE

datatype queue =
    write_queue | write_queue2 | read_queue | read_queue2
  | ioctl_queue | isr_queue | blocking_request_queue

datatype dpc =
    oframe_dpc | iframe_dpc | isr_alert_dpc | request_dpc
  | process_read_dpc | alls_dpc | timestamp_dpc

type_synonym request = nat

text \<open>The calls that set up and tear down a device, and those that access the registry. A
  device's key and the driver's parameter key are the registry keys in use.\<close>

type_synonym device = nat

datatype registry_key = Device_key device | Driver_key

datatype spinlock = board_settings_spinlock | board_rx_spinlock | board_tx_spinlock

datatype framework_call =
    Driver_create
  | Open_registry_key registry_key
  | Query_ulong registry_key string
  | Assign_ulong registry_key string u32
  | Registry_close registry_key
  | Init_assign_name string
  | Init_assign_sddl
  | Init_free
  | Device_create device
  | Device_delete device
  | Interrupt_create
  | Queue_create queue
  | Configure_dispatching queue
  | Create_interface
  | Assign_friendly_name string
  | Create_symbolic_link string
  | Spinlock_create spinlock
  | Dpc_create dpc
  | Timer_create
  | Map_io_space u64 u32
  | Unmap_io_space u64 u32
  | Read_config u32

text \<open>One constructor per kind of call that leaves the driver, with what was passed and
  what came back.\<close>

datatype event =
    Io_read io_space u64 u32
  | Io_write io_space u64 u32
  | Query_time fscc_timestamp
  | Dpc_enqueue dpc
  | Request_complete request NTSTATUS nat
  | Request_output request "u8 list"
  | Request_forward request queue NTSTATUS
  | Queue_retrieve queue NTSTATUS request
  | Queue_find queue "request option" NTSTATUS request
  | Queue_retrieve_found queue request NTSTATUS
  | Queue_purge queue
  | Queue_start queue
  | Pool_allocate nat bool
  | Pool_free
  | Common_buffer_create u32 NTSTATUS
  | Object_delete
  | Dma_enabler_create NTSTATUS
  | Timer_start
  | Framework framework_call NTSTATUS

type_synonym history = "event list"

record common_buffer =
  logical_address :: u32
  buffer_length :: u32

record env =
  hw_read :: "history \<Rightarrow> io_space \<Rightarrow> u64 \<Rightarrow> u32"
  system_time :: "history \<Rightarrow> fscc_timestamp"
  request_length :: "request \<Rightarrow> nat"
  input_buffer :: "request \<Rightarrow> nat \<Rightarrow> NTSTATUS \<times> u8 list"
  output_buffer :: "request \<Rightarrow> nat \<Rightarrow> NTSTATUS"
  forward_to_queue :: "history \<Rightarrow> request \<Rightarrow> queue \<Rightarrow> NTSTATUS"
  retrieve_next :: "history \<Rightarrow> queue \<Rightarrow> NTSTATUS \<times> request"
  find_request :: "history \<Rightarrow> queue \<Rightarrow> request option \<Rightarrow> NTSTATUS \<times> request"
  retrieve_found :: "history \<Rightarrow> queue \<Rightarrow> request \<Rightarrow> NTSTATUS"
  pool_allocate :: "history \<Rightarrow> nat \<Rightarrow> bool"
  common_buffer_create :: "history \<Rightarrow> u32 \<Rightarrow> NTSTATUS \<times> common_buffer"
  dma_enabler_create :: "history \<Rightarrow> NTSTATUS"

text \<open>The driver state: the port and the history, newest event first.\<close>

record driver = fscc_port +
  events :: history

definition emit :: "event \<Rightarrow> driver \<Rightarrow> driver" where
  "emit e s = s\<lparr>events := e # events s\<rparr>"

lemma emit_sel [simp]:
  "port_card (emit e s) = port_card s" "channel (emit e s) = channel s"
  "register_storage (emit e s) = register_storage s"
  "append_status (emit e s) = append_status s" "append_timestamp (emit e s) = append_timestamp s"
  "ignore_timeout (emit e s) = ignore_timeout s" "rx_multiple (emit e s) = rx_multiple s"
  "wait_on_write (emit e s) = wait_on_write s" "blocking_write (emit e s) = blocking_write s"
  "force_fifo (emit e s) = force_fifo s" "tx_modifiers (emit e s) = tx_modifiers s"
  "last_isr_value (emit e s) = last_isr_value s" "open_counter (emit e s) = open_counter s"
  "memory (emit e s) = memory s" "has_dma (emit e s) = has_dma s"
  "events (emit e s) = e # events s"
  by (simp_all add: emit_def)

lemma emit_sel_rings [simp]:
  "rx_descriptors (emit e s) = rx_descriptors s" "user_rx_desc (emit e s) = user_rx_desc s"
  "fifo_rx_desc (emit e s) = fifo_rx_desc s" "rx_bytes_in_frame (emit e s) = rx_bytes_in_frame s"
  "rx_frame_size (emit e s) = rx_frame_size s"
  "tx_descriptors (emit e s) = tx_descriptors s" "user_tx_desc (emit e s) = user_tx_desc s"
  "fifo_tx_desc (emit e s) = fifo_tx_desc s" "tx_bytes_in_frame (emit e s) = tx_bytes_in_frame s"
  "tx_frame_size (emit e s) = tx_frame_size s"
  by (simp_all add: emit_def)

text \<open>A sequence of events, in the order they happen.\<close>

definition emits :: "event list \<Rightarrow> driver \<Rightarrow> driver" where
  "emits es s = s\<lparr>events := rev es @ events s\<rparr>"

lemma emits_Nil [simp]: "emits [] s = s"
  by (simp add: emits_def)

lemma emits_emits: "emits es' (emits es s) = emits (es @ es') s"
  by (simp add: emits_def)

lemma emit_emits: "emit e s = emits [e] s"
  by (simp add: emits_def emit_def)

lemma emits_sel [simp]:
  "port_card (emits es s) = port_card s" "channel (emits es s) = channel s"
  "register_storage (emits es s) = register_storage s"
  "append_status (emits es s) = append_status s" "append_timestamp (emits es s) = append_timestamp s"
  "ignore_timeout (emits es s) = ignore_timeout s" "rx_multiple (emits es s) = rx_multiple s"
  "wait_on_write (emits es s) = wait_on_write s" "blocking_write (emits es s) = blocking_write s"
  "force_fifo (emits es s) = force_fifo s" "tx_modifiers (emits es s) = tx_modifiers s"
  "last_isr_value (emits es s) = last_isr_value s" "open_counter (emits es s) = open_counter s"
  "memory (emits es s) = memory s" "has_dma (emits es s) = has_dma s"
  "events (emits es s) = rev es @ events s"
  by (simp_all add: emits_def)

lemma emits_sel_rings [simp]:
  "rx_descriptors (emits es s) = rx_descriptors s" "user_rx_desc (emits es s) = user_rx_desc s"
  "fifo_rx_desc (emits es s) = fifo_rx_desc s" "rx_bytes_in_frame (emits es s) = rx_bytes_in_frame s"
  "rx_frame_size (emits es s) = rx_frame_size s"
  "tx_descriptors (emits es s) = tx_descriptors s" "user_tx_desc (emits es s) = user_tx_desc s"
  "fifo_tx_desc (emits es s) = fifo_tx_desc s" "tx_bytes_in_frame (emits es s) = tx_bytes_in_frame s"
  "tx_frame_size (emits es s) = tx_frame_size s"
  by (simp_all add: emits_def)

text \<open>The events an operation added, in the order they happened, and those among them
  that write a hardware register.\<close>

definition new_events :: "driver \<Rightarrow> driver \<Rightarrow> event list" where
  "new_events s s' = rev (take (length (events s') - length (events s)) (events s'))"

fun is_write :: "event \<Rightarrow> bool" where
  "is_write (Io_write sp a v) = True"
| "is_write _ = False"

abbreviation writes :: "event list \<Rightarrow> event list" where
  "writes es \<equiv> filter is_write es"

lemma new_events_emits [simp]: "events t = events s \<Longrightarrow> new_events s (emits es t) = es"
  by (simp add: new_events_def)

lemma new_events_eq: "events s' = rev es @ events s \<Longrightarrow> new_events s s' = es"
  by (simp add: new_events_def)

text \<open>The pool blocks and the common buffers a history leaves allocated.\<close>

definition pool_change :: "event \<Rightarrow> int" where
  "pool_change e = (case e of Pool_allocate n ok \<Rightarrow> if ok then 1 else 0 | Pool_free \<Rightarrow> -1 | _ \<Rightarrow> 0)"

definition buffer_change :: "event \<Rightarrow> int" where
  "buffer_change e = (case e of Common_buffer_create n st \<Rightarrow> if NT_SUCCESS st then 1 else 0
     | Object_delete \<Rightarrow> -1 | _ \<Rightarrow> 0)"

definition pool_live :: "event list \<Rightarrow> int" where
  "pool_live es = sum_list (map pool_change es)"

definition buffers_live :: "event list \<Rightarrow> int" where
  "buffers_live es = sum_list (map buffer_change es)"

lemma live_simps [simp]:
  "pool_live [] = 0" "pool_live (e # es) = pool_change e + pool_live es"
  "pool_live (es @ es') = pool_live es + pool_live es'" "pool_live (rev es) = pool_live es"
  "buffers_live [] = 0" "buffers_live (e # es) = buffer_change e + buffers_live es"
  "buffers_live (es @ es') = buffers_live es + buffers_live es'" "buffers_live (rev es) = buffers_live es"
  by (simp_all add: pool_live_def buffers_live_def rev_map [symmetric])

text \<open>Events that leave the requests, the allocated memory, the registry and the device alone.\<close>

fun of_memory :: "event \<Rightarrow> bool" where
  "of_memory (Pool_allocate n ok) = True"
| "of_memory Pool_free = True"
| "of_memory (Common_buffer_create n st) = True"
| "of_memory Object_delete = True"
| "of_memory _ = False"

fun quiet :: "event \<Rightarrow> bool" where
  "quiet (Request_complete r st n) = False"
| "quiet (Request_output r bs) = False"
| "quiet (Request_forward r q st) = False"
| "quiet (Queue_retrieve q st r) = False"
| "quiet (Queue_find q t st r) = False"
| "quiet (Queue_retrieve_found q r st) = False"
| "quiet (Framework c st) = False"
| "quiet (Pool_allocate n ok) = False"
| "quiet Pool_free = False"
| "quiet (Common_buffer_create n st) = False"
| "quiet Object_delete = False"
| "quiet _ = True"

lemma quiet_change [simp]: "quiet e \<Longrightarrow> pool_change e = 0 \<and> buffer_change e = 0"
  by (cases e) (simp_all add: pool_change_def buffer_change_def)

lemma change_simps [simp]:
  "pool_change (Pool_allocate n ok) = (if ok then 1 else 0)" "pool_change Pool_free = -1"
  "pool_change (Common_buffer_create m st) = 0" "pool_change Object_delete = 0"
  "buffer_change (Pool_allocate n ok) = 0" "buffer_change Pool_free = 0"
  "buffer_change (Common_buffer_create m st) = (if NT_SUCCESS st then 1 else 0)"
  "buffer_change Object_delete = -1"
  by (simp_all add: pool_change_def buffer_change_def)

lemma request_change [simp]:
  "pool_change (Request_complete r st k) = 0" "buffer_change (Request_complete r st k) = 0"
  "pool_change (Request_output r bs) = 0" "buffer_change (Request_output r bs) = 0"
  "pool_change (Request_forward r q st) = 0" "buffer_change (Request_forward r q st) = 0"
  "pool_change (Queue_retrieve q st r) = 0" "buffer_change (Queue_retrieve q st r) = 0"
  "pool_change (Queue_find q t st r) = 0" "buffer_change (Queue_find q t st r) = 0"
  "pool_change (Queue_retrieve_found q r st) = 0" "buffer_change (Queue_retrieve_found q r st) = 0"
  "pool_change (Framework c st) = 0" "buffer_change (Framework c st) = 0"
  by (simp_all add: pool_change_def buffer_change_def)

lemma live_quiet: "list_all quiet es \<Longrightarrow> pool_live es = 0 \<and> buffers_live es = 0"
  by (induction es) auto

text \<open>Events that may allocate memory, but give it back.\<close>

definition calm :: "event list \<Rightarrow> bool" where
  "calm es \<longleftrightarrow> list_all (\<lambda>e. quiet e \<or> of_memory e) es \<and> pool_live es = 0 \<and> buffers_live es = 0"

lemma calm_quiet: "list_all quiet es \<Longrightarrow> calm es"
  using live_quiet [of es] by (auto simp: calm_def list_all_iff)

text \<open>What every operation on registers keeps: the whole port but the stored register
  values, whose number does not change, and the history, which only grows and by quiet
  events.\<close>

definition io_step :: "driver \<Rightarrow> driver \<Rightarrow> bool" where
  "io_step s s' \<longleftrightarrow> (\<exists>es st. length st = length (register_storage s) \<and> list_all quiet es \<and>
     s' = emits es (s\<lparr>register_storage := st\<rparr>))"

lemma emits_storage [simp]:
  "(emits es s)\<lparr>register_storage := st\<rparr> = emits es (s\<lparr>register_storage := st\<rparr>)"
  by (simp add: emits_def)

lemma io_stepI: "length st = length (register_storage s) \<Longrightarrow> list_all quiet es \<Longrightarrow>
    io_step s (emits es (s\<lparr>register_storage := st\<rparr>))"
  by (auto simp: io_step_def)

lemma io_step_refl [simp]: "io_step s s"
  unfolding io_step_def
  by (intro exI [of _ "[]"] exI [of _ "register_storage s"]) simp

lemma io_step_emits [simp]: "list_all quiet es \<Longrightarrow> io_step s (emits es s)"
  unfolding io_step_def
  by (intro exI [of _ es] exI [of _ "register_storage s"]) simp

lemma io_step_trans [trans]: "io_step s t \<Longrightarrow> io_step t u \<Longrightarrow> io_step s u"
proof -
  assume "io_step s t" "io_step t u"
  then obtain es st es' st' where
    "length st = length (register_storage s)" "list_all quiet es" "t = emits es (s\<lparr>register_storage := st\<rparr>)"
    "length st' = length (register_storage t)" "list_all quiet es'" "u = emits es' (t\<lparr>register_storage := st'\<rparr>)"
    unfolding io_step_def by blast
  then show "io_step s u" unfolding io_step_def
    by (intro exI [of _ "es @ es'"] exI [of _ st']) (simp add: emits_emits)
qed

lemma io_stepD:
  assumes "io_step s s'"
  shows "port_card s' = port_card s" "channel s' = channel s"
    "append_status s' = append_status s" "append_timestamp s' = append_timestamp s"
    "ignore_timeout s' = ignore_timeout s" "rx_multiple s' = rx_multiple s"
    "wait_on_write s' = wait_on_write s" "blocking_write s' = blocking_write s"
    "force_fifo s' = force_fifo s" "tx_modifiers s' = tx_modifiers s"
    "last_isr_value s' = last_isr_value s" "open_counter s' = open_counter s"
    "memory s' = memory s" "has_dma s' = has_dma s"
    "rx_descriptors s' = rx_descriptors s" "user_rx_desc s' = user_rx_desc s"
    "fifo_rx_desc s' = fifo_rx_desc s" "rx_bytes_in_frame s' = rx_bytes_in_frame s"
    "rx_frame_size s' = rx_frame_size s"
    "tx_descriptors s' = tx_descriptors s" "user_tx_desc s' = user_tx_desc s"
    "fifo_tx_desc s' = fifo_tx_desc s" "tx_bytes_in_frame s' = tx_bytes_in_frame s"
    "tx_frame_size s' = tx_frame_size s"
    "length (register_storage s') = length (register_storage s)"
  using assms by (auto simp: io_step_def)

lemma io_step_events: "io_step s s' \<Longrightarrow> \<exists>es. events s' = rev es @ events s \<and> list_all quiet es"
  by (auto simp: io_step_def)

end
