(* ===== verification/Fscc_Card.thy ===== *)
theory Fscc_Card
  imports Fscc_Defs
begin

text \<open>
  \<open>utils.c\<close> and \<open>card.c\<close>: byte access to words, timestamps, the per-channel register
  offsets, and the card's registers behind its base addresses, one word at a time and
  repeated (the FIFO and the clock are fed through repeated writes of one register).
  The branches for big-endian machines are compiled out on Windows and left out here.
\<close>

section \<open>utils.c\<close>

text \<open>\<open>*((UINT32 *)data)\<close> on a little-endian machine. The argument is the memory that
  can be read from \<open>data\<close> on; a read past its end is \<open>None\<close>.\<close>

fun chars_to_u32 :: "u8 list \<Rightarrow> u32 option" where
  "chars_to_u32 (a # b # c # d # _) =
     Some (ucast a OR push_bit 8 (ucast b) OR push_bit 16 (ucast c) OR push_bit 24 (ucast d))"
| "chars_to_u32 _ = None"

text \<open>The bytes of a word in memory, which \<open>RtlCopyMemory(.., &value, sizeof(value))\<close>
  copies.\<close>

definition u32_bytes :: "u32 \<Rightarrow> u8 list" where
  "u32_bytes w = [ucast w, ucast (drop_bit 8 w), ucast (drop_bit 16 w), ucast (drop_bit 24 w)]"

lemma length_u32_bytes [simp]: "length (u32_bytes w) = 4"
  by (simp add: u32_bytes_def)

lemma chars_to_u32_bytes [simp]: "chars_to_u32 (u32_bytes w @ bs) = Some w"
proof -
  have "(ucast (ucast w :: u8) :: u32) OR push_bit 8 (ucast (ucast (drop_bit 8 w) :: u8))
        OR push_bit 16 (ucast (ucast (drop_bit 16 w) :: u8))
        OR push_bit 24 (ucast (ucast (drop_bit 24 w) :: u8)) = w"
  proof (rule bit_word_eqI)
    fix n assume "n < LENGTH(32)"
    then have "n < 8 \<or> 8 \<le> n \<and> n < 16 \<or> 16 \<le> n \<and> n < 24 \<or> 24 \<le> n \<and> n < 32" by auto
    then show "bit ((ucast (ucast w :: u8) :: u32) OR push_bit 8 (ucast (ucast (drop_bit 8 w) :: u8))
        OR push_bit 16 (ucast (ucast (drop_bit 16 w) :: u8))
        OR push_bit 24 (ucast (ucast (drop_bit 24 w) :: u8))) n = bit w n"
      by (elim disjE) (auto simp: bit_simps)
  qed
  then show ?thesis by (simp add: u32_bytes_def)
qed

lemma chars_to_u32_Some: "4 \<le> length bs \<Longrightarrow> \<exists>w. chars_to_u32 bs = Some w"
  by (cases bs rule: chars_to_u32.cases) auto

definition clear_timestamp :: fscc_timestamp where
  "clear_timestamp = \<lparr>LowPart = 0, HighPart = 0\<rparr>"

definition timestamp_is_empty :: "fscc_timestamp \<Rightarrow> bool" where
  "timestamp_is_empty t \<longleftrightarrow> LowPart t = 0 \<and> HighPart t = 0"

lemma timestamp_is_empty_clear [simp]: "timestamp_is_empty clear_timestamp"
  by (simp add: timestamp_is_empty_def clear_timestamp_def)

text \<open>\<open>set_timestamp\<close> is \<open>KeQuerySystemTime\<close>; \<open>sizeof(fscc_timestamp)\<close> is 8.\<close>

definition query_time :: "env \<Rightarrow> driver \<Rightarrow> fscc_timestamp \<times> driver" where
  "query_time E s = (let t = system_time E (events s) in (t, emit (Query_time t) s))"

definition timestamp_bytes :: "fscc_timestamp \<Rightarrow> u8 list" where
  "timestamp_bytes t = u32_bytes (LowPart t) @ u32_bytes (HighPart t)"

lemma length_timestamp_bytes [simp]: "length (timestamp_bytes t) = 8"
  by (simp add: timestamp_bytes_def)

definition port_offset :: "'a fscc_port_scheme \<Rightarrow> nat \<Rightarrow> u32 \<Rightarrow> u32" where
  "port_offset s b off =
     (if b = 0 then off
      else if b = 2 then
        (if off = DMACCR_OFFSET then (if channel s = 0 then off else off + 0x04)
         else if off = DMA_RX_BASE_OFFSET \<or> off = DMA_TX_BASE_OFFSET
              \<or> off = DMA_CURRENT_RX_BASE_OFFSET \<or> off = DMA_CURRENT_TX_BASE_OFFSET
           then (if channel s = 0 then off else off + 0x08)
         else off)
      else off)"

definition is_read_only_register :: "u32 \<Rightarrow> bool" where
  "is_read_only_register off \<longleftrightarrow> off = STAR_OFFSET \<or> off = VSTR_OFFSET"

section \<open>card.c: single registers\<close>

definition fscc_card_get_BAR :: "fscc_card \<Rightarrow> nat \<Rightarrow> u64" where
  "fscc_card_get_BAR c n = (if n > 2 then 0 else address (bar c ! n))"

text \<open>Which of \<open>READ_REGISTER_ULONG\<close> and \<open>READ_PORT_ULONG\<close> is called.\<close>

definition card_space :: "fscc_card \<Rightarrow> nat \<Rightarrow> io_space" where
  "card_space c b = (if memory_mapped (bar c ! b) \<noteq> 0 then REGISTER_SPACE else PORT_SPACE)"

definition io_read :: "env \<Rightarrow> nat \<Rightarrow> u64 \<Rightarrow> driver \<Rightarrow> u32 \<times> driver" where
  "io_read E b addr s =
     (let sp = card_space (port_card s) b; v = hw_read E (events s) sp addr
      in (v, emit (Io_read sp addr v) s))"

definition io_write :: "nat \<Rightarrow> u64 \<Rightarrow> u32 \<Rightarrow> driver \<Rightarrow> driver" where
  "io_write b addr v s = emit (Io_write (card_space (port_card s) b) addr v) s"

definition fscc_card_get_register :: "env \<Rightarrow> nat \<Rightarrow> u32 \<Rightarrow> driver \<Rightarrow> u32 \<times> driver" where
  "fscc_card_get_register E b off s = io_read E b (fscc_card_get_BAR (port_card s) b + ucast off) s"

definition fscc_card_set_register :: "nat \<Rightarrow> u32 \<Rightarrow> u32 \<Rightarrow> driver \<Rightarrow> driver" where
  "fscc_card_set_register b off v s = io_write b (fscc_card_get_BAR (port_card s) b + ucast off) v s"

text \<open>The events of an access to a card register, used to state what a component does to
  the hardware.\<close>

definition wr :: "fscc_card \<Rightarrow> nat \<Rightarrow> u32 \<Rightarrow> u32 \<Rightarrow> event" where
  "wr c b off v = Io_write (card_space c b) (fscc_card_get_BAR c b + ucast off) v"

definition rd :: "fscc_card \<Rightarrow> nat \<Rightarrow> u32 \<Rightarrow> u32 \<Rightarrow> event" where
  "rd c b off v = Io_read (card_space c b) (fscc_card_get_BAR c b + ucast off) v"

text \<open>What the card answers when a register is read after a history.\<close>

definition hw_reg :: "env \<Rightarrow> fscc_card \<Rightarrow> history \<Rightarrow> nat \<Rightarrow> u32 \<Rightarrow> u32" where
  "hw_reg E c h b off = hw_read E h (card_space c b) (fscc_card_get_BAR c b + ucast off)"

lemma fscc_card_get_register_eq:
  "fscc_card_get_register E b off s =
     (let v = hw_reg E (port_card s) (events s) b off in (v, emit (rd (port_card s) b off v) s))"
  by (simp add: fscc_card_get_register_def io_read_def hw_reg_def rd_def Let_def)

lemma fscc_card_set_register_eq:
  "fscc_card_set_register b off v s = emit (wr (port_card s) b off v) s"
  by (simp add: fscc_card_set_register_def io_write_def wr_def)

lemma wr_value [simp]: "(wr c b off v = wr c b off v') = (v = v')"
  by (simp add: wr_def)

lemma is_write_access [simp]: "is_write (wr c b off v)" "\<not> is_write (rd c b off v)"
  by (simp_all add: wr_def rd_def)

lemma quiet_access [simp]:
  "quiet (wr c b off v)" "quiet (rd c b off v)"
  "list_all quiet (map (wr c b off) vs)" "list_all quiet (map (rd c b off) vs)"
  by (simp_all add: wr_def rd_def list_all_iff)

lemma live_access [simp]:
  "pool_live (map (rd c b off) vs) = 0" "buffers_live (map (rd c b off) vs) = 0"
  "pool_live (map (wr c b off) vs) = 0" "buffers_live (map (wr c b off) vs) = 0"
  by (simp_all add: live_quiet)

lemma writes_map [simp]:
  "writes (map (rd c b off) vs) = []" "writes (map (wr c b off) vs) = map (wr c b off) vs"
  by (induction vs) auto

lemma rd_not_wr [simp]: "rd c b off v \<noteq> wr c' b' off' v'" "wr c' b' off' v' \<noteq> rd c b off v"
  by (simp_all add: wr_def rd_def)

section \<open>card.c: repeated access\<close>

fun get_register_chunks :: "env \<Rightarrow> nat \<Rightarrow> u32 \<Rightarrow> nat \<Rightarrow> driver \<Rightarrow> u8 list \<times> driver" where
  "get_register_chunks E b off 0 s = ([], s)"
| "get_register_chunks E b off (Suc n) s =
     (let (v, s1) = fscc_card_get_register E b off s;
          (bs, s2) = get_register_chunks E b off n s1
      in (u32_bytes v @ bs, s2))"

text \<open>The bytes stored at \<open>buf\<close>. A rest of one to three bytes is the start of one more
  word.\<close>

definition fscc_card_get_register_rep ::
  "env \<Rightarrow> nat \<Rightarrow> u32 \<Rightarrow> nat \<Rightarrow> driver \<Rightarrow> u8 list \<times> driver" where
  "fscc_card_get_register_rep E b off byte_count s =
     (if \<not> b \<le> 2 then ([], s)
      else if \<not> byte_count > 0 then ([], s)
      else
        (let leftover_count = byte_count mod 4;
             chunks = (byte_count - leftover_count) div 4;
             (bs, s1) = get_register_chunks E b off chunks s
         in if leftover_count \<noteq> 0 then
              (let (incoming_data, s2) = fscc_card_get_register E b off s1
               in (bs @ take leftover_count (u32_bytes incoming_data), s2))
            else (bs, s1)))"

fun set_register_chunks :: "nat \<Rightarrow> u32 \<Rightarrow> u8 list \<Rightarrow> nat \<Rightarrow> driver \<Rightarrow> driver option" where
  "set_register_chunks b off outgoing 0 s = Some s"
| "set_register_chunks b off outgoing (Suc n) s =
     do { v \<leftarrow> chars_to_u32 outgoing;
          set_register_chunks b off (drop 4 outgoing) n (fscc_card_set_register b off v s) }"

text \<open>\<open>outgoing\<close> is the memory readable from \<open>data\<close>: the rest of a count that is not a
  multiple of four is read as a whole word, up to three bytes past the count.\<close>

definition fscc_card_set_register_rep ::
  "nat \<Rightarrow> u32 \<Rightarrow> u8 list \<Rightarrow> nat \<Rightarrow> driver \<Rightarrow> driver option" where
  "fscc_card_set_register_rep b off outgoing byte_count s =
     (if \<not> b \<le> 2 then Some s
      else if \<not> byte_count > 0 then Some s
      else
        (let leftover_count = byte_count mod 4;
             chunks = (byte_count - leftover_count) div 4
         in do {
              s1 \<leftarrow> set_register_chunks b off outgoing chunks s;
              if leftover_count \<noteq> 0 then
                do { v \<leftarrow> chars_to_u32 (drop (byte_count - leftover_count) outgoing);
                     Some (fscc_card_set_register b off v s1) }
              else Some s1 }))"

section \<open>What repeated access does\<close>

fun le_words :: "nat \<Rightarrow> u8 list \<Rightarrow> u32 list" where
  "le_words 0 bs = []"
| "le_words (Suc n) bs = the (chars_to_u32 bs) # le_words n (drop 4 bs)"

lemma length_le_words [simp]: "length (le_words n bs) = n"
  by (induction n arbitrary: bs) auto

lemma le_words_of_words [simp]:
  "le_words (length ws) (concat (map u32_bytes ws) @ bs) = ws"
  by (induction ws) auto

lemma le_words_add: "le_words (m + n) bs = le_words m bs @ le_words n (drop (4 * m) bs)"
  by (induction m arbitrary: bs) (auto simp: add.commute)

lemma le_words_snoc:
  "le_words (Suc n) bs = le_words n bs @ [the (chars_to_u32 (drop (4 * n) bs))]"
  using le_words_add [of n 1 bs] by simp

text \<open>Bytes in whole words: how many words a count of bytes takes.\<close>

definition words_for :: "nat \<Rightarrow> nat" where
  "words_for n = (n + 3) div 4"

lemma words_for_split:
  "words_for n = (if n mod 4 = 0 then n div 4 else Suc (n div 4))"
  unfolding words_for_def by (auto; presburger)

lemma chunks_eq: "(n - n mod 4) div 4 = n div (4::nat)"
  by (simp add: minus_mod_eq_mult_div)

lemma set_register_chunks_eq:
  "4 * n \<le> length out \<Longrightarrow>
   set_register_chunks b off out n s =
     Some (emits (map (wr (port_card s) b off) (le_words n out)) s)"
proof (induction n arbitrary: out s)
  case 0
  then show ?case by simp
next
  case (Suc n)
  then obtain w where "chars_to_u32 out = Some w"
    using chars_to_u32_Some [of out] by auto
  with Suc show ?case
    by (simp add: fscc_card_set_register_eq emit_emits emits_emits)
qed

lemma fscc_card_set_register_rep_eq:
  assumes "b \<le> 2" and n: "0 < n" and len: "4 * words_for n \<le> length out"
  shows "fscc_card_set_register_rep b off out n s =
     Some (emits (map (wr (port_card s) b off) (le_words (words_for n) out)) s)"
proof (cases "n mod 4 = 0")
  case True
  with assms show ?thesis
    by (simp add: fscc_card_set_register_rep_def set_register_chunks_eq words_for_split)
next
  case False
  have drop: "n - n mod 4 = 4 * (n div 4)" by (simp add: minus_mod_eq_mult_div)
  from False len have len': "4 * Suc (n div 4) \<le> length out"
    by (simp add: words_for_split)
  then have "4 \<le> length (drop (4 * (n div 4)) out)" by simp
  then obtain w where w: "chars_to_u32 (drop (4 * (n div 4)) out) = Some w"
    using chars_to_u32_Some by blast
  have words: "le_words (words_for n) out = le_words (n div 4) out @ [w]"
    using w False by (simp only: words_for_split if_False le_words_snoc option.sel)
  from False assms len' w show ?thesis unfolding words
    by (simp add: fscc_card_set_register_rep_def drop set_register_chunks_eq
        fscc_card_set_register_eq emit_emits emits_emits Let_def)
qed

lemma get_register_chunks_eq:
  "\<exists>ws. length ws = n \<and> get_register_chunks E b off n s =
     (concat (map u32_bytes ws), emits (map (rd (port_card s) b off) ws) s)"
proof (induction n arbitrary: s)
  case 0
  then show ?case by simp
next
  case (Suc n)
  let ?v = "hw_reg E (port_card s) (events s) b off"
  let ?s = "emits [rd (port_card s) b off ?v] s"
  from Suc.IH [of ?s] obtain ws where "length ws = n"
    and "get_register_chunks E b off n ?s =
      (concat (map u32_bytes ws), emits (map (rd (port_card s) b off) ws) ?s)" by auto
  then show ?case
    by (intro exI [of _ "?v # ws"])
      (simp add: fscc_card_get_register_eq Let_def emit_emits emits_emits)
qed

lemma fscc_card_get_register_rep_eq:
  assumes "b \<le> 2" and n: "0 < n"
  shows "\<exists>ws. length ws = words_for n \<and> fscc_card_get_register_rep E b off n s =
     (take n (concat (map u32_bytes ws)), emits (map (rd (port_card s) b off) ws) s)"
proof -
  obtain ws where ws: "length ws = n div 4" "get_register_chunks E b off (n div 4) s =
      (concat (map u32_bytes ws), emits (map (rd (port_card s) b off) ws) s)"
    using get_register_chunks_eq by blast
  let ?s = "emits (map (rd (port_card s) b off) ws) s"
  let ?v = "hw_reg E (port_card s) (events ?s) b off"
  have len: "length (concat (map u32_bytes ws)) = 4 * (n div 4)"
    using ws(1) by (simp add: length_concat o_def sum_list_triv)
  have n4: "n - 4 * (n div 4) = n mod 4" by (simp add: minus_mult_div_eq_mod)
  show ?thesis
  proof (cases "n mod 4 = 0")
    case True
    then have "take n (concat (map u32_bytes ws)) = concat (map u32_bytes ws)"
      using len by simp
    with True assms ws show ?thesis
      by (intro exI [of _ ws]) (simp add: fscc_card_get_register_rep_def words_for_split)
  next
    case False
    with assms ws len n4 show ?thesis
      by (intro exI [of _ "ws @ [?v]"])
        (simp add: fscc_card_get_register_rep_def words_for_split chunks_eq
          fscc_card_get_register_eq Let_def emit_emits emits_emits)
  qed
qed

lemma length_fscc_card_get_register_rep:
  "b \<le> 2 \<Longrightarrow> 0 < n \<Longrightarrow> length (fst (fscc_card_get_register_rep E b off n s)) = n"
proof -
  assume "b \<le> 2" "0 < n"
  then obtain ws where ws: "length ws = words_for n" "fscc_card_get_register_rep E b off n s =
     (take n (concat (map u32_bytes ws)), emits (map (rd (port_card s) b off) ws) s)"
    using fscc_card_get_register_rep_eq by blast
  have "n \<le> 4 * words_for n" by (simp add: words_for_def)
  with ws show ?thesis by (simp add: length_concat o_def sum_list_triv)
qed

end
