(* ===== verification/Fscc_Registers.thy ===== *)
theory Fscc_Registers
  imports Fscc_Card
begin

text \<open>
  Register access of a port (\<open>port.c\<close>): single and repeated access with the port's
  offsets, the check for a missing clock, the register structure that user space reads
  and writes, the version fields, and the predicates on the port's mode that the
  register functions call (\<open>io.c\<close>).
\<close>

section \<open>Mode of the port\<close>

definition fscc_port_uses_dma :: "'a fscc_port_scheme \<Rightarrow> BOOLEAN" where
  "fscc_port_uses_dma s = (if force_fifo s \<noteq> 0 then FALSE else has_dma s)"

definition fscc_io_is_streaming :: "'a fscc_port_scheme \<Rightarrow> u32" where
  "fscc_io_is_streaming s =
     (let ccr0 = register_storage s ! reg_CCR0; ccr2 = register_storage s ! reg_CCR2;
          transparent_mode = (ccr0 AND 0x3 = 0x2);
          xsync_mode = (ccr0 AND 0x3 = 0x1);
          rlc_mode = (ccr2 AND 0xffff0000 \<noteq> 0);
          fsc_mode = (ccr0 AND 0x700 \<noteq> 0);
          ntb = drop_bit 16 (ccr0 AND 0x70000)
      in if (transparent_mode \<or> xsync_mode) \<and> \<not> (rlc_mode \<or> fsc_mode \<or> ntb \<noteq> 0) then 1 else 0)"

section \<open>Single registers\<close>

definition fscc_port_get_register :: "env \<Rightarrow> nat \<Rightarrow> u32 \<Rightarrow> driver \<Rightarrow> u32 \<times> driver" where
  "fscc_port_get_register E b register_offset s =
     fscc_card_get_register E b (port_offset s b register_offset) s"

fun timed_out_loop :: "env \<Rightarrow> nat \<Rightarrow> driver \<Rightarrow> bool \<times> driver" where
  "timed_out_loop E 0 s = (True, s)"
| "timed_out_loop E (Suc n) s =
     (let (star_value, s1) = fscc_port_get_register E 0 STAR_OFFSET s
      in if star_value AND CE_BIT = 0 then (False, s1) else timed_out_loop E n s1)"

definition fscc_port_timed_out :: "env \<Rightarrow> driver \<Rightarrow> bool \<times> driver" where
  "fscc_port_timed_out E s = timed_out_loop E DEFAULT_TIMEOUT_VALUE s"

text \<open>The copy of the written value that the port keeps: every register of the first
  BAR by its offset, and \<open>FCR\<close>.\<close>

definition store_register :: "nat \<Rightarrow> u32 \<Rightarrow> u32 \<Rightarrow> driver \<Rightarrow> driver" where
  "store_register b register_offset v s =
     (if b = 0 then
        s\<lparr>register_storage := (register_storage s)[unat register_offset div 4 := ucast v]\<rparr>
      else if register_offset = FCR_OFFSET then
        s\<lparr>register_storage := (register_storage s)[reg_FCR := ucast v]\<rparr>
      else s)"

definition dmaccr_value :: "'a fscc_port_scheme \<Rightarrow> nat \<Rightarrow> u32 \<Rightarrow> u32 \<Rightarrow> u32" where
  "dmaccr_value s b register_offset v =
     (if register_offset = DMACCR_OFFSET \<and> fscc_port_uses_dma s \<noteq> 0 \<and> b = 2
        then v OR 0x03000000
      else if register_offset = DMACCR_OFFSET \<and> fscc_port_uses_dma s = 0 \<and> b = 2
        then v AND NOT 0x03000000
      else v)"

definition fscc_port_set_register ::
  "env \<Rightarrow> nat \<Rightarrow> u32 \<Rightarrow> u32 \<Rightarrow> driver \<Rightarrow> NTSTATUS \<times> driver" where
  "fscc_port_set_register E b register_offset value s =
     (let offset = port_offset s b register_offset;
          (late, s1) = (if register_offset = CMDR_OFFSET \<and> ignore_timeout s = FALSE
                        then fscc_port_timed_out E s else (False, s))
      in if late then (STATUS_IO_TIMEOUT, s1)
         else (let value = dmaccr_value s b register_offset value;
                   s2 = fscc_card_set_register b offset value s1
               in (STATUS_SUCCESS, store_register b register_offset value s2)))"

definition fscc_port_get_register_rep ::
  "env \<Rightarrow> nat \<Rightarrow> u32 \<Rightarrow> nat \<Rightarrow> driver \<Rightarrow> u8 list \<times> driver" where
  "fscc_port_get_register_rep E b register_offset byte_count s =
     (if \<not> b \<le> 2 then ([], s)
      else if \<not> byte_count > 0 then ([], s)
      else fscc_card_get_register_rep E b (port_offset s b register_offset) byte_count s)"

definition fscc_port_set_register_rep ::
  "nat \<Rightarrow> u32 \<Rightarrow> u8 list \<Rightarrow> nat \<Rightarrow> driver \<Rightarrow> driver option" where
  "fscc_port_set_register_rep b register_offset data byte_count s =
     (if \<not> b \<le> 2 then Some s
      else if \<not> byte_count > 0 then Some s
      else fscc_card_set_register_rep b (port_offset s b register_offset) data byte_count s)"

section \<open>The register structure\<close>

fun set_registers_loop ::
  "env \<Rightarrow> i64 list \<Rightarrow> nat list \<Rightarrow> bool \<Rightarrow> driver \<Rightarrow> bool \<times> driver" where
  "set_registers_loop E regs [] stalled s = (stalled, s)"
| "set_registers_loop E regs (i # is) stalled s =
     (let register_offset = of_nat (i * 4) in
      if is_read_only_register register_offset \<or> sint (regs ! i) < 0
        then set_registers_loop E regs is stalled s
      else if register_offset > MAX_OFFSET then (stalled, s)
      else (let (st, s1) = fscc_port_set_register E 0 register_offset (ucast (regs ! i)) s
            in set_registers_loop E regs is (if st = STATUS_IO_TIMEOUT then True else stalled) s1))"

definition fscc_port_set_registers :: "env \<Rightarrow> i64 list \<Rightarrow> driver \<Rightarrow> NTSTATUS \<times> driver" where
  "fscc_port_set_registers E regs s =
     (let (stalled, s1) = set_registers_loop E regs [0..<NUM_REGS] False s;
          s2 = (if sint (regs ! reg_FCR) > 0
                then snd (fscc_port_set_register E 2 FCR_OFFSET
                            (ucast (regs ! reg_FCR AND 0x3fffffff)) s1)
                else s1);
          s3 = (if regs ! reg_DMACCR AND 0x10000 \<noteq> 0
                then fscc_card_set_register 2 DMACCR_OFFSET 0x10000 s2
                else s2);
          s4 = (if sint (regs ! reg_DMACCR) > 0
                then snd (fscc_port_set_register E 2 DMACCR_OFFSET
                            (ucast (regs ! reg_DMACCR) AND 0xfffeffff) s3)
                else s3)
      in (if stalled then STATUS_IO_TIMEOUT else STATUS_SUCCESS, s4))"

fun get_registers_loop ::
  "env \<Rightarrow> nat list \<Rightarrow> i64 list \<Rightarrow> driver \<Rightarrow> i64 list \<times> driver" where
  "get_registers_loop E [] regs s = (regs, s)"
| "get_registers_loop E (i # is) regs s =
     (if regs ! i \<noteq> FSCC_UPDATE_VALUE then get_registers_loop E is regs s
      else if of_nat (i * 4) > MAX_OFFSET then (regs, s)
      else (let (v, s1) = fscc_port_get_register E 0 (of_nat (i * 4)) s
            in get_registers_loop E is (regs[i := ucast v]) s1))"

text \<open>One of the three registers of the other BAR, read when it was asked for.\<close>

definition get_bar2_register ::
  "env \<Rightarrow> nat \<Rightarrow> u32 \<Rightarrow> i64 list \<times> driver \<Rightarrow> i64 list \<times> driver" where
  "get_bar2_register E i register_offset = (\<lambda>(regs, s).
     if regs ! i = FSCC_UPDATE_VALUE
     then (let (v, s1) = fscc_port_get_register E 2 register_offset s in (regs[i := ucast v], s1))
     else (regs, s))"

definition fscc_port_get_registers :: "env \<Rightarrow> i64 list \<Rightarrow> driver \<Rightarrow> i64 list \<times> driver" where
  "fscc_port_get_registers E regs s =
     get_bar2_register E reg_DSTAR DSTAR_OFFSET
       (get_bar2_register E reg_DMACCR DMACCR_OFFSET
         (get_bar2_register E reg_FCR FCR_OFFSET
           (get_registers_loop E [0..<NUM_REGS] regs s)))"

section \<open>Version fields\<close>

definition fscc_port_get_FREV :: "env \<Rightarrow> driver \<Rightarrow> u8 \<times> driver" where
  "fscc_port_get_FREV E s =
     (let (v, s1) = fscc_port_get_register E 0 VSTR_OFFSET s in (ucast (v AND 0x000000FF), s1))"

definition fscc_port_get_PREV :: "env \<Rightarrow> driver \<Rightarrow> u8 \<times> driver" where
  "fscc_port_get_PREV E s =
     (let (v, s1) = fscc_port_get_register E 0 VSTR_OFFSET s
      in (ucast (drop_bit 8 (v AND 0x0000FF00)), s1))"

definition fscc_port_get_PDEV :: "env \<Rightarrow> driver \<Rightarrow> 16 word \<times> driver" where
  "fscc_port_get_PDEV E s =
     (let (v, s1) = fscc_port_get_register E 0 VSTR_OFFSET s
      in (ucast (drop_bit 16 (v AND 0xFFFF0000)), s1))"

text \<open>Whether the asynchronous driver has the port. \<open>FCR\<close> is shared with it, so the
  stored copy is refreshed.\<close>

definition fscc_port_using_async :: "env \<Rightarrow> driver \<Rightarrow> u32 \<times> driver" where
  "fscc_port_using_async E s =
     (let (v, s1) = fscc_port_get_register E 2 FCR_OFFSET s;
          s2 = s1\<lparr>register_storage := (register_storage s1)[reg_FCR := ucast v]\<rparr>;
          fcr = register_storage s2 ! reg_FCR
      in (if channel s2 = 0 then ucast (fcr AND 0x01000000)
          else if channel s2 = 1 then ucast (fcr AND 0x02000000)
          else 0, s2))"

section \<open>What single accesses do\<close>

lemma port_offset_simps [simp]:
  "port_offset s 0 off = off"
  "port_offset s b FCR_OFFSET = FCR_OFFSET"
  "port_offset s b DSTAR_OFFSET = DSTAR_OFFSET"
  by (auto simp: port_offset_def)

lemma port_offset_cong:
  "channel s' = channel s \<Longrightarrow> port_offset s' b off = port_offset s b off"
  by (simp add: port_offset_def)

lemma port_offset_emits [simp]: "port_offset (emits es s) b off = port_offset s b off"
  by (rule port_offset_cong) simp

lemma port_offset_storage [simp]:
  "port_offset (s\<lparr>register_storage := st\<rparr>) b off = port_offset s b off"
  by (simp add: port_offset_def)

lemma uses_dma_cong:
  "force_fifo s' = force_fifo s \<Longrightarrow> has_dma s' = has_dma s \<Longrightarrow>
   fscc_port_uses_dma s' = fscc_port_uses_dma s"
  by (simp add: fscc_port_uses_dma_def)

lemma uses_dma_io_step:
  assumes "io_step s s'"
  shows "fscc_port_uses_dma s' = fscc_port_uses_dma s"
  by (intro uses_dma_cong io_stepD [OF assms])

text \<open>A read of a register is one event, with the value the card answers.\<close>

lemma get_register_eq:
  "fscc_port_get_register E b off s =
     (let v = hw_reg E (port_card s) (events s) b (port_offset s b off)
      in (v, emits [rd (port_card s) b (port_offset s b off) v] s))"
  by (simp add: fscc_port_get_register_def fscc_card_get_register_eq emit_emits)

lemma get_register_io_step: "fscc_port_get_register E b off s = (v, s') \<Longrightarrow> io_step s s'"
  by (auto simp: get_register_eq Let_def)

text \<open>The clock check: it reads \<open>STAR\<close> until \<open>CE\<close> is clear, \<open>n\<close> times at most, and
  the clock is missing when all of them have \<open>CE\<close> set.\<close>

definition clock_check :: "bool \<Rightarrow> nat \<Rightarrow> u32 list \<Rightarrow> bool" where
  "clock_check late n vs \<longleftrightarrow>
     (if late then length vs = n \<and> (\<forall>v \<in> set vs. bit v 18)
      else vs \<noteq> [] \<and> length vs \<le> n \<and> (\<forall>v \<in> set (butlast vs). bit v 18) \<and> \<not> bit (last vs) 18)"

lemma clock_check_Cons:
  "bit v 18 \<Longrightarrow> clock_check late n vs \<Longrightarrow> clock_check late (Suc n) (v # vs)"
  by (auto simp: clock_check_def split: if_splits)

lemma timed_out_loop_reads:
  "timed_out_loop E n s = (late, s') \<Longrightarrow>
   \<exists>vs. clock_check late n vs \<and> s' = emits (map (rd (port_card s) 0 STAR_OFFSET) vs) s"
proof (induction n arbitrary: s)
  case 0
  then show ?case by (intro exI [of _ "[]"]) (auto simp: clock_check_def)
next
  case (Suc n)
  let ?v = "hw_reg E (port_card s) (events s) 0 STAR_OFFSET"
  let ?s = "emits [rd (port_card s) 0 STAR_OFFSET ?v] s"
  show ?case
  proof (cases "bit ?v 18")
    case False
    with Suc.prems show ?thesis
      by (intro exI [of _ "[?v]"]) (auto simp: get_register_eq Let_def bit_tests clock_check_def)
  next
    case True
    with Suc.prems have "timed_out_loop E n ?s = (late, s')"
      by (simp add: get_register_eq Let_def bit_tests)
    from Suc.IH [OF this] obtain vs where "clock_check late n vs"
      "s' = emits (map (rd (port_card s) 0 STAR_OFFSET) vs) ?s" by auto
    with True show ?thesis
      by (intro exI [of _ "?v # vs"]) (simp add: emits_emits clock_check_Cons)
  qed
qed

lemma store_register_io_step: "list_all quiet es \<Longrightarrow> io_step s (store_register b off v (emits es s))"
  by (auto simp: store_register_def intro!: io_stepI)

text \<open>A register that is not the command register is written once, always.\<close>

lemma set_register_plain:
  "off \<noteq> CMDR_OFFSET \<Longrightarrow>
   fscc_port_set_register E b off v s =
     (STATUS_SUCCESS, store_register b off (dmaccr_value s b off v)
        (emits [wr (port_card s) b (port_offset s b off) (dmaccr_value s b off v)] s))"
  by (simp add: fscc_port_set_register_def Let_def fscc_card_set_register_eq emit_emits)

lemma dmaccr_value_bar0 [simp]: "dmaccr_value s 0 off v = v"
  by (simp add: dmaccr_value_def)

lemma dmaccr_value_other [simp]: "off \<noteq> DMACCR_OFFSET \<Longrightarrow> dmaccr_value s b off v = v"
  by (simp add: dmaccr_value_def)

lemma dmaccr_value_cong:
  "fscc_port_uses_dma s' = fscc_port_uses_dma s \<Longrightarrow> dmaccr_value s' b off v = dmaccr_value s b off v"
  by (simp add: dmaccr_value_def)

text \<open>The command register is written only after the clock check, unless the port
  ignores timeouts.\<close>

lemma set_register_command:
  "fscc_port_set_register E b CMDR_OFFSET v s = (st, s') \<Longrightarrow>
   \<exists>vs. (if ignore_timeout s = 0 then clock_check (st = STATUS_IO_TIMEOUT) 20 vs
         else vs = [] \<and> st \<noteq> STATUS_IO_TIMEOUT) \<and>
     (st \<noteq> STATUS_IO_TIMEOUT \<longrightarrow> st = STATUS_SUCCESS) \<and>
     s' = (if st = STATUS_IO_TIMEOUT then emits (map (rd (port_card s) 0 STAR_OFFSET) vs) s
           else store_register b CMDR_OFFSET v (emits (map (rd (port_card s) 0 STAR_OFFSET) vs
             @ [wr (port_card s) b (port_offset s b CMDR_OFFSET) v]) s))"
proof (cases "ignore_timeout s = 0")
  case False
  moreover assume "fscc_port_set_register E b CMDR_OFFSET v s = (st, s')"
  ultimately show ?thesis
    by (intro exI [of _ "[]"])
      (auto simp: fscc_port_set_register_def Let_def fscc_card_set_register_eq emit_emits)
next
  case True
  assume set: "fscc_port_set_register E b CMDR_OFFSET v s = (st, s')"
  obtain late s1 where t: "timed_out_loop E 20 s = (late, s1)" by fastforce
  from timed_out_loop_reads [OF this] obtain vs where "clock_check late 20 vs"
    "s1 = emits (map (rd (port_card s) 0 STAR_OFFSET) vs) s" by auto
  with True set t show ?thesis
    by (intro exI [of _ vs])
      (auto simp: fscc_port_set_register_def fscc_port_timed_out_def Let_def
        fscc_card_set_register_eq emit_emits emits_emits split: if_splits)
qed

lemma set_register_io_step:
  assumes "fscc_port_set_register E b off v s = (st, s')"
  shows "io_step s s'"
proof (cases "off = CMDR_OFFSET")
  case True
  with assms set_register_command [of E b v s st s'] show ?thesis
    by (auto simp: store_register_io_step split: if_splits)
next
  case False
  with assms show ?thesis
    by (auto simp: set_register_plain store_register_io_step)
qed

section \<open>What the register structure does\<close>

text \<open>The entries of the structure that reach the first BAR: offsets up to \<open>MAX_OFFSET\<close>,
  not read-only, not negative.\<close>

definition settable :: "i64 list \<Rightarrow> nat \<Rightarrow> bool" where
  "settable regs i \<longleftrightarrow>
     i \<le> 22 \<and> \<not> is_read_only_register (of_nat (i * 4)) \<and> 0 \<le> sint (regs ! i)"

definition set_now :: "i64 list \<Rightarrow> bool \<Rightarrow> nat \<Rightarrow> bool" where
  "set_now regs late i \<longleftrightarrow> settable regs i \<and> \<not> (late \<and> i = reg_CMDR)"

definition bar0_writes :: "fscc_card \<Rightarrow> i64 list \<Rightarrow> bool \<Rightarrow> nat list \<Rightarrow> event list" where
  "bar0_writes c regs late is =
     map (\<lambda>i. wr c 0 (of_nat (i * 4)) (ucast (regs ! i))) (filter (set_now regs late) is)"

definition stored :: "i64 list \<Rightarrow> bool \<Rightarrow> nat list \<Rightarrow> i64 list \<Rightarrow> i64 list" where
  "stored regs late is st = fold (\<lambda>i. \<lambda>st. st[i := ucast (ucast (regs ! i) :: u32)])
     (filter (set_now regs late) is) st"

lemma reg_offset:
  assumes "i < NUM_REGS"
  shows "unat (of_nat (i * 4) :: u32) = i * 4"
    and "(of_nat (i * 4) = (0x14 :: u32)) = (i = 5)"
    and "((0x58 :: u32) < of_nat (i * 4)) = (22 < i)"
proof -
  show u: "unat (of_nat (i * 4) :: u32) = i * 4"
    using assms by (simp add: unsigned_of_nat take_bit_nat_eq_self del: of_nat_mult)
  then show "(of_nat (i * 4) = (0x14 :: u32)) = (i = 5)"
    by (simp only: word_unat_eq_iff) simp
  from u show "((0x58 :: u32) < of_nat (i * 4)) = (22 < i)"
    by (simp only: word_less_nat_alt) simp
qed

lemma set_now_other: "i \<noteq> reg_CMDR \<Longrightarrow> set_now regs late i = settable regs i"
  by (simp add: set_now_def)

lemma set_now_cong: "reg_CMDR \<notin> set is \<Longrightarrow> filter (set_now regs late) is = filter (settable regs) is"
  by (rule filter_cong) (auto simp: set_now_def)

lemma writes_bar0 [simp]: "writes (bar0_writes c regs late js) = bar0_writes c regs late js"
  by (induction js) (auto simp: bar0_writes_def)

lemma quiet_bar0 [simp]: "list_all quiet (bar0_writes c regs late js)"
  by (auto simp: bar0_writes_def list_all_iff)

lemma not_set_now:
  assumes "\<not> settable regs i"
  shows "stored regs late (i # js) = stored regs late js"
    and "bar0_writes c regs late (i # js) = bar0_writes c regs late js"
  using assms by (auto simp: stored_def bar0_writes_def set_now_def)

text \<open>One entry that is written.\<close>

lemma set_one_register:
  assumes "settable regs i" "i < NUM_REGS"
    and set: "fscc_port_set_register E 0 (of_nat (i * 4)) (ucast (regs ! i)) s = (st, s')"
  shows "\<exists>es late. (late = (st = STATUS_IO_TIMEOUT)) \<and> (late \<longrightarrow> i = reg_CMDR) \<and>
     s' = emits es (s\<lparr>register_storage := stored regs late [i] (register_storage s)\<rparr>) \<and>
     writes es = bar0_writes (port_card s) regs late [i] \<and> list_all quiet es"
proof (cases "i = reg_CMDR")
  case True
  with set have "fscc_port_set_register E 0 CMDR_OFFSET (ucast (regs ! reg_CMDR)) s = (st, s')"
    by simp
  from set_register_command [OF this] obtain vs where
    "s' = (if st = STATUS_IO_TIMEOUT then emits (map (rd (port_card s) 0 STAR_OFFSET) vs) s
           else store_register 0 CMDR_OFFSET (ucast (regs ! reg_CMDR))
             (emits (map (rd (port_card s) 0 STAR_OFFSET) vs
             @ [wr (port_card s) 0 CMDR_OFFSET (ucast (regs ! reg_CMDR))]) s))"
    by (simp only: port_offset_simps) blast
  with True assms(1) show ?thesis
    by (intro exI [of _ "map (rd (port_card s) 0 STAR_OFFSET) vs
        @ (if st = STATUS_IO_TIMEOUT then [] else [wr (port_card s) 0 CMDR_OFFSET (ucast (regs ! reg_CMDR))])"]
        exI [of _ "st = STATUS_IO_TIMEOUT"])
      (auto simp: bar0_writes_def stored_def set_now_def store_register_def)
next
  case False
  with assms(2) have off: "of_nat (i * 4) \<noteq> CMDR_OFFSET" by (simp only: reg_offset(2) not_False_eq_True)
  from set set_register_plain [OF off, of E 0 "ucast (regs ! i)" s]
  have st: "st = STATUS_SUCCESS" and s': "s' = store_register 0 (of_nat (i * 4)) (ucast (regs ! i))
      (emits [wr (port_card s) 0 (of_nat (i * 4)) (ucast (regs ! i))] s)"
    by (simp_all only: prod.inject port_offset_simps dmaccr_value_bar0)
  have now: "set_now regs False i" using assms(1) by (simp add: set_now_def)
  have "s' = emits [wr (port_card s) 0 (of_nat (i * 4)) (ucast (regs ! i))]
      (s\<lparr>register_storage := stored regs False [i] (register_storage s)\<rparr>)"
    unfolding s' store_register_def reg_offset(1) [OF assms(2)] stored_def
    using now by simp
  moreover have "writes [wr (port_card s) 0 (of_nat (i * 4)) (ucast (regs ! i))] =
      bar0_writes (port_card s) regs False [i]"
    unfolding bar0_writes_def using now by simp
  ultimately show ?thesis using st
    by (intro exI [of _ "bar0_writes (port_card s) regs False [i]"] exI [of _ False]) simp
qed

lemma set_registers_loop_spec:
  assumes "set_registers_loop E regs js stalled s = (stalled', s')"
    and "sorted js" "distinct js" "\<forall>i \<in> set js. i < NUM_REGS"
  shows "\<exists>es late. stalled' = (stalled \<or> late) \<and> (late \<longrightarrow> reg_CMDR \<in> set js \<and> settable regs reg_CMDR) \<and>
     s' = emits es (s\<lparr>register_storage := stored regs late js (register_storage s)\<rparr>) \<and>
     writes es = bar0_writes (port_card s) regs late js \<and> list_all quiet es"
  using assms
proof (induction js arbitrary: stalled s)
  case Nil
  then show ?case
    by (intro exI [of _ "[]"] exI [of _ False]) (simp add: stored_def bar0_writes_def)
next
  case (Cons i js)
  then have i: "i < NUM_REGS" by simp
  let ?off = "of_nat (i * 4) :: u32"
  consider (skip) "is_read_only_register ?off \<or> sint (regs ! i) < 0"
    | (stop) "\<not> (is_read_only_register ?off \<or> sint (regs ! i) < 0)" "22 < i"
    | (do_set) "settable regs i"
    unfolding settable_def by linarith
  then show ?case
  proof cases
    case skip
    then have no: "\<not> settable regs i" by (auto simp: settable_def)
    from skip Cons.prems(1) have "set_registers_loop E regs js stalled s = (stalled', s')"
      by (simp add: Let_def del: of_nat_mult)
    from Cons.IH [OF this] Cons.prems obtain es late where "stalled' = (stalled \<or> late)"
      "late \<longrightarrow> reg_CMDR \<in> set js \<and> settable regs reg_CMDR"
      "s' = emits es (s\<lparr>register_storage := stored regs late js (register_storage s)\<rparr>)"
      "writes es = bar0_writes (port_card s) regs late js" "list_all quiet es" by auto
    then show ?thesis unfolding not_set_now [OF no]
      by (intro exI [of _ es] exI [of _ late]) simp
  next
    case stop
    with Cons.prems(2) have none: "filter (set_now regs False) (i # js) = []"
      by (auto simp: filter_empty_conv set_now_def settable_def)
    from stop Cons.prems(1) reg_offset(3) [OF i] have "stalled' = stalled" "s' = s"
      by (auto simp: Let_def)
    with none show ?thesis
      by (intro exI [of _ "[]"] exI [of _ False]) (simp add: stored_def bar0_writes_def del: filter.simps)
  next
    case do_set
    obtain st s1 where one: "fscc_port_set_register E 0 ?off (ucast (regs ! i)) s = (st, s1)"
      by fastforce
    from set_one_register [OF do_set i one] obtain es1 late1 where 1:
      "late1 = (st = STATUS_IO_TIMEOUT)" "late1 \<longrightarrow> i = reg_CMDR"
      "s1 = emits es1 (s\<lparr>register_storage := stored regs late1 [i] (register_storage s)\<rparr>)"
      "writes es1 = bar0_writes (port_card s) regs late1 [i]" "list_all quiet es1" by auto
    from do_set one Cons.prems(1) reg_offset(3) [OF i] 1(1)
    have rest: "set_registers_loop E regs js (stalled \<or> late1) s1 = (stalled', s')"
      by (auto simp: Let_def settable_def simp del: of_nat_mult split: if_splits)
    from Cons.IH [OF this] Cons.prems obtain es2 late2 where 2:
      "stalled' = ((stalled \<or> late1) \<or> late2)" "late2 \<longrightarrow> reg_CMDR \<in> set js \<and> settable regs reg_CMDR"
      "s' = emits es2 (s1\<lparr>register_storage := stored regs late2 js (register_storage s1)\<rparr>)"
      "writes es2 = bar0_writes (port_card s1) regs late2 js" "list_all quiet es2" by auto
    have split: "filter (set_now regs (late1 \<or> late2)) (i # js) =
        filter (set_now regs late1) [i] @ filter (set_now regs late2) js"
    proof (cases "i = reg_CMDR")
      case True
      with Cons.prems(3) 2(2) have "\<not> late2" "reg_CMDR \<notin> set js" by auto
      then show ?thesis by (simp add: set_now_cong)
    next
      case False
      with 1(2) show ?thesis by (simp add: set_now_other)
    qed
    show ?thesis
      by (rule exI [of _ "es1 @ es2"], rule exI [of _ "late1 \<or> late2"])
        (use 1 2 split do_set in \<open>auto simp: stored_def bar0_writes_def emits_emits simp del: filter.simps\<close>)
  qed
qed

text \<open>What \<open>FCR\<close> and \<open>DMACCR\<close> add, on the third BAR.\<close>

definition bar2_writes :: "driver \<Rightarrow> i64 list \<Rightarrow> event list" where
  "bar2_writes s regs =
     (if 0 < sint (regs ! reg_FCR)
      then [wr (port_card s) 2 FCR_OFFSET (ucast (regs ! reg_FCR AND 0x3fffffff))] else []) @
     (if regs ! reg_DMACCR AND 0x10000 \<noteq> 0 then [wr (port_card s) 2 DMACCR_OFFSET 0x10000] else []) @
     (if 0 < sint (regs ! reg_DMACCR)
      then [wr (port_card s) 2 (port_offset s 2 DMACCR_OFFSET)
             (dmaccr_value s 2 DMACCR_OFFSET (ucast (regs ! reg_DMACCR) AND 0xfffeffff))] else [])"

definition stored_fcr :: "i64 list \<Rightarrow> i64 list \<Rightarrow> i64 list" where
  "stored_fcr regs st =
     (if 0 < sint (regs ! reg_FCR)
      then st[reg_FCR := ucast (ucast (regs ! reg_FCR AND 0x3fffffff) :: u32)] else st)"

lemma uses_dma_emits [simp]:
  "fscc_port_uses_dma (emits es (s\<lparr>register_storage := st\<rparr>)) = fscc_port_uses_dma s"
  by (simp add: fscc_port_uses_dma_def)

lemma dmaccr_value_emits [simp]:
  "dmaccr_value (emits es (s\<lparr>register_storage := st\<rparr>)) b off v = dmaccr_value s b off v"
  by (simp add: dmaccr_value_def)

lemma dmaccr_value_storage [simp]:
  "dmaccr_value (s\<lparr>register_storage := st\<rparr>) b off v = dmaccr_value s b off v"
  by (simp add: dmaccr_value_def fscc_port_uses_dma_def)

lemma store_bar2 [simp]:
  "store_register 2 FCR_OFFSET v s = s\<lparr>register_storage := (register_storage s)[reg_FCR := ucast v]\<rparr>"
  "store_register 2 DMACCR_OFFSET v s = s"
  by (simp_all add: store_register_def)

lemma set_registers_spec:
  assumes "fscc_port_set_registers E regs s = (st, s')"
  shows "\<exists>es late. st = (if late then STATUS_IO_TIMEOUT else STATUS_SUCCESS) \<and>
     (late \<longrightarrow> settable regs reg_CMDR) \<and>
     s' = emits es (s\<lparr>register_storage :=
            stored_fcr regs (stored regs late [0..<NUM_REGS] (register_storage s))\<rparr>) \<and>
     writes es = bar0_writes (port_card s) regs late [0..<NUM_REGS] @ bar2_writes s regs \<and>
     list_all quiet es"
proof -
  obtain late s1 where loop: "set_registers_loop E regs [0..<NUM_REGS] False s = (late, s1)"
    by fastforce
  from set_registers_loop_spec [OF this] obtain es where
    s1: "s1 = emits es (s\<lparr>register_storage := stored regs late [0..<NUM_REGS] (register_storage s)\<rparr>)"
    and es: "writes es = bar0_writes (port_card s) regs late [0..<NUM_REGS]"
    and quiet: "list_all quiet es" and late: "late \<longrightarrow> settable regs reg_CMDR"
    by auto
  have bar2: "writes (bar2_writes s regs) = bar2_writes s regs"
    by (simp add: bar2_writes_def)
  from assms loop show ?thesis
    by (intro exI [of _ "es @ bar2_writes s regs"] exI [of _ late])
      (simp add: fscc_port_set_registers_def Let_def s1 es quiet late set_register_plain
        fscc_card_set_register_eq emit_emits emits_emits bar2_writes_def stored_fcr_def
        del: upt_conv_Cons split: if_splits)
qed

text \<open>The stored copy, entry by entry.\<close>

lemma stored_nth:
  "length (stored regs late js st) = length st"
  "i < length st \<Longrightarrow> stored regs late js st ! i =
     (if i \<in> set js \<and> set_now regs late i then ucast (ucast (regs ! i) :: u32) else st ! i)"
proof -
  have "length (stored regs late js st) = length st \<and> (i < length st \<longrightarrow> stored regs late js st ! i =
     (if i \<in> set js \<and> set_now regs late i then ucast (ucast (regs ! i) :: u32) else st ! i))"
    unfolding stored_def
  proof (induction js arbitrary: st)
    case (Cons a js)
    then show ?case by (cases "a = i") auto
  qed simp
  then show "length (stored regs late js st) = length st"
    "i < length st \<Longrightarrow> stored regs late js st ! i =
     (if i \<in> set js \<and> set_now regs late i then ucast (ucast (regs ! i) :: u32) else st ! i)"
    by auto
qed

section \<open>What reading the structure does\<close>

definition asked :: "i64 list \<Rightarrow> nat list \<Rightarrow> nat list" where
  "asked regs js = filter (\<lambda>i. regs ! i = FSCC_UPDATE_VALUE) js"

text \<open>Where an entry of the structure is in hardware.\<close>

definition entry_read :: "driver \<Rightarrow> nat \<Rightarrow> u32 \<Rightarrow> event" where
  "entry_read s i v =
     (if i = reg_FCR then rd (port_card s) 2 FCR_OFFSET v
      else if i = reg_DMACCR then rd (port_card s) 2 (port_offset s 2 DMACCR_OFFSET) v
      else if i = reg_DSTAR then rd (port_card s) 2 DSTAR_OFFSET v
      else rd (port_card s) 0 (of_nat (i * 4)) v)"

definition fill :: "nat list \<Rightarrow> u32 list \<Rightarrow> i64 list \<Rightarrow> i64 list" where
  "fill js vs regs = fold (\<lambda>(i, v) regs. regs[i := ucast v]) (zip js vs) regs"

lemma entry_read_emits [simp]: "entry_read (emits es s) i v = entry_read s i v"
  by (simp add: entry_read_def)

lemma fill_simps [simp]: "fill [] vs regs = regs" "fill (i # js) (v # vs) regs = fill js vs (regs[i := ucast v])"
  by (simp_all add: fill_def)

lemma fill_append:
  "length js = length vs \<Longrightarrow> fill (js @ js') (vs @ vs') regs = fill js' vs' (fill js vs regs)"
  by (simp add: fill_def)

lemma length_fill [simp]: "length (fill js vs regs) = length regs"
  by (induction js arbitrary: vs regs) (auto simp: fill_def zip_Cons1 split: list.splits)

lemma fill_other: "i \<notin> set js \<Longrightarrow> fill js vs regs ! i = regs ! i"
proof (induction js arbitrary: vs regs)
  case (Cons j js)
  then show ?case by (cases vs) (auto simp: fill_def)
qed simp

lemma fill_nth:
  "length js = length vs \<Longrightarrow> distinct js \<Longrightarrow> k < length js \<Longrightarrow> js ! k < length regs \<Longrightarrow>
   fill js vs regs ! (js ! k) = ucast (vs ! k)"
proof (induction js arbitrary: vs regs k)
  case (Cons j js)
  then obtain v vs' where vs: "vs = v # vs'" by (cases vs) auto
  with Cons show ?case by (cases k) (auto simp: fill_other)
qed simp

lemma asked_update: "i \<notin> set js \<Longrightarrow> asked (regs[i := v]) js = asked regs js"
  by (auto simp: asked_def intro!: filter_cong) (metis nth_list_update_neq)+

lemma get_registers_loop_spec:
  assumes "get_registers_loop E js regs s = (regs', s')"
    and "sorted js" "distinct js" "\<forall>i \<in> set js. i < NUM_REGS"
  shows "\<exists>vs. length vs = length (asked regs (filter (\<lambda>i. i \<le> 22) js)) \<and>
     regs' = fill (asked regs (filter (\<lambda>i. i \<le> 22) js)) vs regs \<and>
     s' = emits (map2 (entry_read s) (asked regs (filter (\<lambda>i. i \<le> 22) js)) vs) s"
  using assms
proof (induction js arbitrary: regs s)
  case Nil
  then show ?case by (auto simp: asked_def)
next
  case (Cons i js)
  then have i: "i < NUM_REGS" by simp
  note pass = Cons.prems(2-4)
  show ?case
  proof (cases "regs ! i = FSCC_UPDATE_VALUE")
    case False
    with Cons.IH [of regs s] Cons.prems show ?thesis
      by (auto simp: asked_def)
  next
    case True
    show ?thesis
    proof (cases "22 < i")
      case stop: True
      with pass have "filter (\<lambda>i. i \<le> 22) (i # js) = []"
        by (auto simp: filter_empty_conv)
      with stop True Cons.prems(1) reg_offset(3) [OF i] show ?thesis
        by (auto simp: asked_def)
    next
      case False
      let ?v = "hw_reg E (port_card s) (events s) 0 (of_nat (i * 4))"
      let ?regs = "regs[i := ucast ?v]"
      let ?s = "emits [entry_read s i ?v] s"
      have ev: "rd (port_card s) 0 (of_nat (i * 4)) ?v = entry_read s i ?v"
        using False by (simp add: entry_read_def)
      from True False Cons.prems(1) reg_offset(3) [OF i]
      have "get_registers_loop E js ?regs ?s = (regs', s')"
        by (simp add: get_register_eq Let_def ev del: of_nat_mult)
      from Cons.IH [OF this] pass obtain vs where vs:
        "length vs = length (asked ?regs (filter (\<lambda>i. i \<le> 22) js))"
        "regs' = fill (asked ?regs (filter (\<lambda>i. i \<le> 22) js)) vs ?regs"
        "s' = emits (map2 (entry_read ?s) (asked ?regs (filter (\<lambda>i. i \<le> 22) js)) vs) ?s"
        by auto
      have same: "asked ?regs (filter (\<lambda>i. i \<le> 22) js) = asked regs (filter (\<lambda>i. i \<le> 22) js)"
        using pass by (intro asked_update) auto
      have asks: "asked regs (filter (\<lambda>i. i \<le> 22) (i # js)) =
          i # asked regs (filter (\<lambda>i. i \<le> 22) js)"
        using True False by (simp add: asked_def)
      have er: "entry_read ?s = entry_read s" by (rule ext)+ simp
      show ?thesis unfolding asks
        using vs unfolding same er
        by (intro exI [of _ "?v # vs"]) (simp add: emits_emits)
    qed
  qed
qed

lemma get_bar2_register_eq:
  assumes "off = FCR_OFFSET \<and> i = reg_FCR \<or> off = DMACCR_OFFSET \<and> i = reg_DMACCR \<or>
    off = DSTAR_OFFSET \<and> i = reg_DSTAR"
  shows "\<exists>vs. length vs = length (asked regs [i]) \<and>
     get_bar2_register E i off (regs, s) =
       (fill (asked regs [i]) vs regs, emits (map2 (entry_read s) (asked regs [i]) vs) s)"
proof (cases "regs ! i = FSCC_UPDATE_VALUE")
  case True
  let ?v = "hw_reg E (port_card s) (events s) 2 (port_offset s 2 off)"
  have "rd (port_card s) 2 (port_offset s 2 off) v = entry_read s i v" for v
    using assms unfolding entry_read_def by (elim disjE conjE) simp_all
  with True show ?thesis
    by (intro exI [of _ "[?v]"])
      (simp add: get_bar2_register_def get_register_eq Let_def asked_def)
next
  case False
  then show ?thesis
    by (intro exI [of _ "[]"]) (simp add: get_bar2_register_def asked_def)
qed

text \<open>What was asked of the entries \<open>js\<close> has been read.\<close>

definition reads_asked :: "i64 list \<Rightarrow> driver \<Rightarrow> nat list \<Rightarrow> i64 list \<times> driver \<Rightarrow> bool" where
  "reads_asked regs s js res \<longleftrightarrow> (\<exists>vs. length vs = length (asked regs js) \<and>
     fst res = fill (asked regs js) vs regs \<and>
     snd res = emits (map2 (entry_read s) (asked regs js) vs) s)"

lemma asked_fill:
  assumes "set js \<inter> set ks = {}"
  shows "asked (fill (asked regs js) vs r) ks = asked r ks"
proof -
  have "fill (asked regs js) vs r ! i = r ! i" if "i \<in> set ks" for i
    using assms that by (intro fill_other) (auto simp: asked_def)
  then show ?thesis unfolding asked_def [of _ ks] by (intro filter_cong) simp_all
qed

lemma reads_asked_bar2:
  assumes reads: "reads_asked regs s js res" and "i \<notin> set js"
    and off: "off = FCR_OFFSET \<and> i = reg_FCR \<or> off = DMACCR_OFFSET \<and> i = reg_DMACCR \<or>
      off = DSTAR_OFFSET \<and> i = reg_DSTAR"
  shows "reads_asked regs s (js @ [i]) (get_bar2_register E i off res)"
proof -
  obtain r t where res: "res = (r, t)" by fastforce
  from reads obtain vs where vs: "length vs = length (asked regs js)"
    "r = fill (asked regs js) vs regs" "t = emits (map2 (entry_read s) (asked regs js) vs) s"
    by (auto simp: reads_asked_def res)
  from get_bar2_register_eq [OF off] obtain ws where ws: "length ws = length (asked r [i])"
    "get_bar2_register E i off (r, t) =
       (fill (asked r [i]) ws r, emits (map2 (entry_read t) (asked r [i]) ws) t)"
    by blast
  have "asked r [i] = asked regs [i]" unfolding vs(2) using assms(2) by (intro asked_fill) simp
  moreover have "entry_read t = entry_read s" unfolding vs(3) by (rule ext)+ simp
  moreover have "asked regs (js @ [i]) = asked regs js @ asked regs [i]" by (simp add: asked_def)
  ultimately show ?thesis using vs ws
    by (auto simp: reads_asked_def res fill_append emits_emits intro!: exI [of _ "vs @ ws"])
qed

section \<open>Properties\<close>

text \<open>Property C22. Writing a register structure makes exactly these register writes, in
  this order: each entry up to \<open>MAX_OFFSET\<close> that is neither read-only nor negative, in
  increasing order, to its own register with its value; the command register among them
  is left out when (and only when) the clock check fails, which the status reports; then
  \<open>FCR\<close> without its two top bits if positive, the master reset if its bit is set in
  \<open>DMACCR\<close>, and \<open>DMACCR\<close> without that bit and with the mode's DMA bits if positive.
  Nothing else of the port changes but the stored register values.\<close>

theorem set_registers_writes:
  "case fscc_port_set_registers E regs s of (st, s') \<Rightarrow>
     st \<in> {STATUS_SUCCESS, STATUS_IO_TIMEOUT} \<and> io_step s s' \<and>
     writes (new_events s s') =
       bar0_writes (port_card s) regs (st = STATUS_IO_TIMEOUT) [0..<NUM_REGS] @ bar2_writes s regs"
proof -
  obtain st s' where res: "fscc_port_set_registers E regs s = (st, s')" by fastforce
  from set_registers_spec [OF this] obtain es late where
    st: "st = (if late then STATUS_IO_TIMEOUT else STATUS_SUCCESS)" and
    s': "s' = emits es (s\<lparr>register_storage :=
            stored_fcr regs (stored regs late [0..<NUM_REGS] (register_storage s))\<rparr>)" and
    es: "writes es = bar0_writes (port_card s) regs late [0..<NUM_REGS] @ bar2_writes s regs" and
    quiet: "list_all quiet es"
    by auto
  have "io_step s s'" unfolding s' by (rule io_stepI) (simp_all add: stored_nth(1) stored_fcr_def quiet)
  with st es show ?thesis unfolding res
    by (cases late) (simp_all add: s' del: upt_conv_Cons)
qed

text \<open>The copy the port keeps of its registers, entry by entry: a written
  entry is the 32-bit value that went to the register, every other entry is what it was;
  the copy of the command register keeps its old value when the clock was missing.\<close>

lemma set_registers_stored:
  "case fscc_port_set_registers E regs s of (st, s') \<Rightarrow>
     register_storage s' =
       map (\<lambda>i. if i = reg_FCR \<and> 0 < sint (regs ! reg_FCR)
                then ucast (ucast (regs ! reg_FCR AND 0x3fffffff) :: u32)
                else if set_now regs (st = STATUS_IO_TIMEOUT) i then ucast (ucast (regs ! i) :: u32)
                else register_storage s ! i)
           [0..<length (register_storage s)]"
proof -
  obtain st s' where res: "fscc_port_set_registers E regs s = (st, s')" by fastforce
  from set_registers_spec [OF this] obtain late es where
    st: "st = (if late then STATUS_IO_TIMEOUT else STATUS_SUCCESS)" and
    s': "s' = emits es (s\<lparr>register_storage :=
            stored_fcr regs (stored regs late [0..<NUM_REGS] (register_storage s))\<rparr>)"
    by auto
  have late: "(st = STATUS_IO_TIMEOUT) = late" using st by simp
  have in30: "set_now regs late i \<Longrightarrow> i < NUM_REGS" for i
    by (simp add: set_now_def settable_def)
  show ?thesis unfolding res split_conv s' late
    by (rule nth_equalityI)
      (auto simp: stored_fcr_def stored_nth nth_list_update dest: in30 simp del: upt_conv_Cons)
qed

lemma get_registers_result:
  "case fscc_port_get_registers E regs s of (regs', s') \<Rightarrow>
     let js = asked regs ([0..<23] @ [reg_FCR, reg_DMACCR, reg_DSTAR]) in
     \<exists>vs. length vs = length js \<and> regs' = fill js vs regs \<and>
          s' = emits (map2 (entry_read s) js vs) s"
proof -
  obtain r s0 where loop: "get_registers_loop E [0..<NUM_REGS] regs s = (r, s0)" by fastforce
  have f: "filter (\<lambda>i. i \<le> 22) [0..<NUM_REGS] = [0..<23]" by (simp add: upt_rec)
  have "reads_asked regs s [0..<23] (r, s0)"
    using get_registers_loop_spec [OF loop] unfolding f reads_asked_def
    by (auto simp del: upt_conv_Cons)
  then have "reads_asked regs s ((([0..<23] @ [reg_FCR]) @ [reg_DMACCR]) @ [reg_DSTAR])
      (fscc_port_get_registers E regs s)"
    unfolding fscc_port_get_registers_def loop
    by (intro reads_asked_bar2) (auto simp del: upt_conv_Cons)
  then show ?thesis
    by (auto simp: reads_asked_def Let_def split: prod.splits simp del: upt_conv_Cons)
qed

text \<open>Property C35. Reading into a register structure reads exactly the entries that ask
  for an update (those up to \<open>MAX_OFFSET\<close>, \<open>FCR\<close>, \<open>DMACCR\<close> and \<open>DSTAR\<close>), each once and
  from its own register, stores what the card answered there, and leaves every other
  entry alone.\<close>

theorem get_registers_reads:
  "case fscc_port_get_registers E regs s of (regs', s') \<Rightarrow>
     let js = asked regs ([0..<23] @ [reg_FCR, reg_DMACCR, reg_DSTAR]) in
     \<exists>vs. length vs = length js \<and> regs' = fill js vs regs \<and>
          s' = emits (map2 (entry_read s) js vs) s"
  by (rule get_registers_result)

text \<open>A command is written only with a clock: unless the port ignores
  timeouts, \<open>STAR\<close> is read first, at most 20 times, until its \<open>CE\<close> bit is clear, and
  when it never is nothing is written and the answer is a timeout.\<close>

lemma command_needs_clock:
  "case fscc_port_set_register E 0 CMDR_OFFSET v s of (st, s') \<Rightarrow>
     \<exists>vs. (if ignore_timeout s \<noteq> 0 then vs = [] \<and> st = STATUS_SUCCESS
           else clock_check (st = STATUS_IO_TIMEOUT) 20 vs \<and> st \<in> {STATUS_SUCCESS, STATUS_IO_TIMEOUT}) \<and>
       new_events s s' = map (rd (port_card s) 0 STAR_OFFSET) vs @
         (if st = STATUS_IO_TIMEOUT then [] else [wr (port_card s) 0 CMDR_OFFSET v])"
proof -
  obtain st s' where res: "fscc_port_set_register E 0 CMDR_OFFSET v s = (st, s')" by fastforce
  from set_register_command [OF this] obtain vs where vs:
    "if ignore_timeout s = 0 then clock_check (st = STATUS_IO_TIMEOUT) 20 vs
     else vs = [] \<and> st \<noteq> STATUS_IO_TIMEOUT" "st \<noteq> STATUS_IO_TIMEOUT \<Longrightarrow> st = STATUS_SUCCESS"
    "s' = (if st = STATUS_IO_TIMEOUT then emits (map (rd (port_card s) 0 STAR_OFFSET) vs) s
           else store_register 0 CMDR_OFFSET v (emits (map (rd (port_card s) 0 STAR_OFFSET) vs
             @ [wr (port_card s) 0 CMDR_OFFSET v]) s))"
    unfolding port_offset_simps by blast
  show ?thesis unfolding res split_conv
    using vs by (intro exI [of _ vs])
      (cases "st = STATUS_IO_TIMEOUT"; simp add: store_register_def split: if_splits)
qed

end
