(* ===== verification/Fscc_Rings.thy ===== *)
theory Fscc_Rings
  imports Fscc_Defs
begin

text \<open>
  The descriptor arrays as rings. Four cursors walk them (\<open>user_rx_desc\<close>,
  \<open>fifo_rx_desc\<close>, \<open>user_tx_desc\<close>, \<open>fifo_tx_desc\<close>), each in the same way: look at the
  frame at the cursor, store it back changed, step, wrap. The locale \<open>ring_cursor\<close>
  states that contract and what follows from it for the ring read from the cursor on;
  it is interpreted for the four cursors.
\<close>

section \<open>Access to frames\<close>

text \<open>A null array, or an entry past the created ones, is an invalid access.\<close>

definition frames_in :: "dma_frame list option \<Rightarrow> nat \<Rightarrow> dma_frame list option" where
  "frames_in descs n =
     (if n = 0 then Some []
      else case descs of None \<Rightarrow> None | Some fs \<Rightarrow> if n \<le> length fs then Some (take n fs) else None)"

definition frame_at :: "dma_frame list option \<Rightarrow> u32 \<Rightarrow> dma_frame option" where
  "frame_at descs i =
     (case descs of None \<Rightarrow> None
      | Some fs \<Rightarrow> if unat i < length fs then Some (fs ! unat i) else None)"

definition put_frame :: "dma_frame list option \<Rightarrow> u32 \<Rightarrow> dma_frame \<Rightarrow> dma_frame list option" where
  "put_frame descs i f = map_option (\<lambda>fs. fs[unat i := f]) descs"

definition map_frames :: "(dma_frame \<Rightarrow> dma_frame) \<Rightarrow> nat \<Rightarrow> dma_frame list option \<Rightarrow>
    dma_frame list option option" where
  "map_frames f n descs =
     (case frames_in descs n of None \<Rightarrow> None
      | Some fs \<Rightarrow> Some (map_option (\<lambda>all. map f fs @ drop n all) descs))"

text \<open>\<open>cur++; if (cur == num) cur = 0;\<close>\<close>

definition next_desc :: "u32 \<Rightarrow> u32 \<Rightarrow> u32" where
  "next_desc num cur = (if cur + 1 = num then 0 else cur + 1)"

text \<open>\<open>RtlCopyMemory(dst + off, src, n)\<close>, within both buffers.\<close>

definition rtl_copy :: "u8 list \<Rightarrow> nat \<Rightarrow> u8 list \<Rightarrow> nat \<Rightarrow> u8 list option" where
  "rtl_copy dst off src n =
     (if off + n \<le> length dst \<and> n \<le> length src
      then Some (take off dst @ take n src @ drop (off + n) dst) else None)"

lemma rtl_copy_Some:
  "off + n \<le> length dst \<Longrightarrow> n \<le> length src \<Longrightarrow>
   rtl_copy dst off src n = Some (take off dst @ take n src @ drop (off + n) dst)"
  by (simp add: rtl_copy_def)

lemma length_rtl_copy: "rtl_copy dst off src n = Some dst' \<Longrightarrow> length dst' = length dst"
  by (auto simp: rtl_copy_def split: if_splits)

text \<open>A frame whose buffer is what its \<open>data_size\<close> says, in whole words, with a size
  the count field of a descriptor can hold.\<close>

definition frame_ok :: "dma_frame \<Rightarrow> bool" where
  "frame_ok f \<longleftrightarrow> length (buffer f) = unat (data_size f) \<and> unat (data_size f) mod 4 = 0 \<and>
     0 < unat (data_size f) \<and> unat (data_size f) < 2 ^ 29"

section \<open>The cursors\<close>

definition step_user_rx :: "dma_frame \<Rightarrow> driver \<Rightarrow> driver" where
  "step_user_rx f s = s\<lparr>rx_descriptors := put_frame (rx_descriptors s) (user_rx_desc s) f,
     user_rx_desc := next_desc (rx_num (memory s)) (user_rx_desc s)\<rparr>"

definition step_fifo_rx :: "dma_frame \<Rightarrow> driver \<Rightarrow> driver" where
  "step_fifo_rx f s = s\<lparr>rx_descriptors := put_frame (rx_descriptors s) (fifo_rx_desc s) f,
     fifo_rx_desc := next_desc (rx_num (memory s)) (fifo_rx_desc s)\<rparr>"

definition step_user_tx :: "dma_frame \<Rightarrow> driver \<Rightarrow> driver" where
  "step_user_tx f s = s\<lparr>tx_descriptors := put_frame (tx_descriptors s) (user_tx_desc s) f,
     user_tx_desc := next_desc (tx_num (memory s)) (user_tx_desc s)\<rparr>"

definition step_fifo_tx :: "dma_frame \<Rightarrow> driver \<Rightarrow> driver" where
  "step_fifo_tx f s = s\<lparr>tx_descriptors := put_frame (tx_descriptors s) (fifo_tx_desc s) f,
     fifo_tx_desc := next_desc (tx_num (memory s)) (fifo_tx_desc s)\<rparr>"

section \<open>The ring from a cursor on\<close>

definition ring_at :: "dma_frame list option \<Rightarrow> u32 \<Rightarrow> u32 \<Rightarrow> bool" where
  "ring_at descs num cur =
     (case descs of None \<Rightarrow> False | Some fs \<Rightarrow> unat num = length fs \<and> unat cur < length fs)"

definition view_from :: "dma_frame list option \<Rightarrow> u32 \<Rightarrow> dma_frame list" where
  "view_from descs cur = (case descs of None \<Rightarrow> [] | Some fs \<Rightarrow> ring_view (unat cur) fs)"

lemma ring_atE:
  assumes "ring_at descs num cur"
  obtains fs where "descs = Some fs" "unat num = length fs" "unat cur < length fs"
  using assms by (auto simp: ring_at_def split: option.splits)

lemma ring_at_less: "ring_at descs num cur \<Longrightarrow> unat cur < unat num"
  by (auto elim: ring_atE)

lemma mod_in_ring: "(d :: nat) < n \<Longrightarrow> m mod n < n"
  by (intro mod_less_divisor) linarith

lemma unat_next_desc:
  assumes "unat cur < unat num"
  shows "unat (next_desc num cur) = next_slot (unat num) (unat cur)"
proof -
  have "unat num < 2 ^ LENGTH(32)" by (rule unsigned_less)
  with assms have "unat (cur + 1) = unat cur + 1"
    by (simp add: unat_word_ariths)
  then show ?thesis by (auto simp: next_desc_def next_slot_def word_unat_eq_iff)
qed

text \<open>A ring read from a cursor is the array rotated; reading it from the slot \<open>k\<close> later
  rotates it further, and a store at that slot is a store at place \<open>k\<close>.\<close>

lemma ring_view_rotate: "d \<le> length xs \<Longrightarrow> ring_view d xs = rotate d xs"
  by (cases "d = length xs") (simp_all add: ring_view_def rotate_drop_take)

lemma ring_view_shift:
  assumes "d < length xs"
  shows "ring_view ((d + k) mod length xs) xs = rotate k (ring_view d xs)"
proof -
  have "(d + k) mod length xs \<le> length xs"
    using assms by (intro less_imp_le mod_less_divisor) linarith
  with assms show ?thesis
    by (simp add: ring_view_rotate rotate_rotate add.commute) (metis rotate_conv_mod)
qed

lemma wrapped: "(d :: nat) < n \<Longrightarrow> k < n \<Longrightarrow> (d + k) mod n = (if d + k < n then d + k else d + k - n)"
  by (simp add: le_mod_geq)

lemma ring_view_nth:
  "d < length xs \<Longrightarrow> k < length xs \<Longrightarrow> ring_view d xs ! k = xs ! ((d + k) mod length xs)"
  by (simp add: ring_view_rotate nth_rotate add.commute)

lemma ring_view_store:
  assumes d: "d < length xs" and k: "k < length xs"
  shows "ring_view d (xs[(d + k) mod length xs := x]) = (ring_view d xs)[k := x]"
proof (rule nth_equalityI)
  fix i assume "i < length (ring_view d (xs[(d + k) mod length xs := x]))"
  then have i: "i < length xs" by simp
  have "((d + k) mod length xs = (d + i) mod length xs) = (k = i)"
    using d k i by (auto simp: wrapped)
  moreover have "(d + i) mod length xs < length xs" using d by (intro mod_less_divisor) linarith
  ultimately show "ring_view d (xs[(d + k) mod length xs := x]) ! i = (ring_view d xs)[k := x] ! i"
    using d k i by (simp add: ring_view_nth nth_list_update)
qed simp

text \<open>A scan that only looks: the frame at the cursor, and the ring from the next slot.\<close>

lemma scan_ring:
  assumes "ring_at descs num cur" "view_from descs cur = f # fs"
  shows "frame_at descs cur = Some f" "ring_at descs num (next_desc num cur)"
    "view_from descs (next_desc num cur) = fs @ [f]"
proof -
  from assms(1) obtain xs where xs: "descs = Some xs" "unat num = length xs" "unat cur < length xs"
    by (rule ring_atE)
  with assms(2) have view: "ring_view (unat cur) xs = f # fs" by (simp add: view_from_def)
  with xs hd_ring_view [of "unat cur" xs] have f: "xs ! unat cur = f" by simp
  with xs show "frame_at descs cur = Some f" by (simp add: frame_at_def)
  from xs show "ring_at descs num (next_desc num cur)" by (simp add: ring_at_def unat_next_desc)
  from xs view f ring_view_next [of "unat cur" xs] show "view_from descs (next_desc num cur) = fs @ [f]"
    by (simp add: view_from_def unat_next_desc)
qed

lemma length_view_from: "ring_at descs num cur \<Longrightarrow> length (view_from descs cur) = unat num"
  by (erule ring_atE) (simp add: view_from_def)

lemma view_from_shift:
  assumes "ring_at descs num cur" "unat cur' = (unat cur + length P) mod unat num"
    "view_from descs cur = P @ F"
  shows "ring_at descs num cur'" "view_from descs cur' = F @ P"
proof -
  from assms(1) obtain xs where xs: "descs = Some xs" "unat num = length xs" "unat cur < length xs"
    by (rule ring_atE)
  with assms(2) show "ring_at descs num cur'" by (simp add: ring_at_def mod_in_ring)
  from xs assms ring_view_shift [of "unat cur" xs "length P"] show "view_from descs cur' = F @ P"
    by (simp add: view_from_def rotate_append)
qed

text \<open>A store at the slot \<open>k\<close> places after a cursor.\<close>

lemma view_from_put:
  assumes "ring_at descs num cur" "unat at = (unat cur + k) mod unat num" "k < unat num"
  shows "ring_at (put_frame descs at f) num cur"
    "view_from (put_frame descs at f) cur = (view_from descs cur)[k := f]"
    "frame_at descs at = Some (view_from descs cur ! k)"
proof -
  from assms(1) obtain xs where xs: "descs = Some xs" "unat num = length xs" "unat cur < length xs"
    by (rule ring_atE)
  with assms(2,3) show "ring_at (put_frame descs at f) num cur"
    "view_from (put_frame descs at f) cur = (view_from descs cur)[k := f]"
    "frame_at descs at = Some (view_from descs cur ! k)"
    by (simp_all add: ring_at_def put_frame_def view_from_def ring_view_store frame_at_def
        ring_view_nth mod_in_ring)
qed

section \<open>The contract of a cursor\<close>

locale ring_cursor =
  fixes frames :: "'s \<Rightarrow> dma_frame list option"
    and num :: "'s \<Rightarrow> u32"
    and cur :: "'s \<Rightarrow> u32"
    and step :: "dma_frame \<Rightarrow> 's \<Rightarrow> 's"
  assumes step_frames: "frames (step f s) = put_frame (frames s) (cur s) f"
    and step_cur: "cur (step f s) = next_desc (num s) (cur s)"
    and step_num: "num (step f s) = num s"
begin

abbreviation (input) "ring s \<equiv> ring_at (frames s) (num s) (cur s)"
abbreviation (input) "view s \<equiv> view_from (frames s) (cur s)"

lemma length_view: "ring s \<Longrightarrow> length (view s) = unat (num s)"
  by (auto simp: view_from_def elim: ring_atE)

lemma frame_at_cursor: "ring s \<Longrightarrow> frame_at (frames s) (cur s) = Some (hd (view s))"
  by (erule ring_atE) (simp add: frame_at_def view_from_def hd_ring_view)

lemma view_nonempty: "ring s \<Longrightarrow> view s \<noteq> []"
  by (erule ring_atE) (auto simp: view_from_def ring_view_def)

lemma ring_step: "ring s \<Longrightarrow> ring (step f s)"
  by (erule ring_atE)
    (simp add: ring_at_def step_frames step_num step_cur put_frame_def unat_next_desc)

lemma view_step: "ring s \<Longrightarrow> view (step f s) = tl (view s) @ [f]"
proof (erule ring_atE)
  fix fs assume fs: "frames s = Some fs" "unat (num s) = length fs" "unat (cur s) < length fs"
  then have "view (step f s) = ring_view (next_slot (length (fs[unat (cur s) := f])) (unat (cur s)))
      (fs[unat (cur s) := f])"
    by (simp add: view_from_def step_frames step_cur put_frame_def unat_next_desc)
  also have "\<dots> = tl (ring_view (unat (cur s)) (fs[unat (cur s) := f])) @ [f]"
    using fs(3) by (subst ring_view_next) simp_all
  finally show ?thesis using fs by (simp add: ring_view_update view_from_def)
qed

end

interpretation user_rx: ring_cursor rx_descriptors "\<lambda>s. rx_num (memory s)" user_rx_desc step_user_rx
  by unfold_locales (simp_all add: step_user_rx_def)

interpretation fifo_rx: ring_cursor rx_descriptors "\<lambda>s. rx_num (memory s)" fifo_rx_desc step_fifo_rx
  by unfold_locales (simp_all add: step_fifo_rx_def)

interpretation user_tx: ring_cursor tx_descriptors "\<lambda>s. tx_num (memory s)" user_tx_desc step_user_tx
  by unfold_locales (simp_all add: step_user_tx_def)

interpretation fifo_tx: ring_cursor tx_descriptors "\<lambda>s. tx_num (memory s)" fifo_tx_desc step_fifo_tx
  by unfold_locales (simp_all add: step_fifo_tx_def)

section \<open>Two cursors on one ring\<close>

text \<open>One cursor (\<open>rear\<close>) fills slots, the other (\<open>front\<close>) empties them; the slots between
  them are a queue. The facts are over the ring read from the front, with the rear cursor
  \<open>k\<close> slots further.\<close>

locale ring_queue =
  front: ring_cursor frames num front take_step + rear: ring_cursor frames num rear put_step
  for frames :: "'s \<Rightarrow> dma_frame list option" and num :: "'s \<Rightarrow> u32"
    and front :: "'s \<Rightarrow> u32" and take_step :: "dma_frame \<Rightarrow> 's \<Rightarrow> 's"
    and rear :: "'s \<Rightarrow> u32" and put_step :: "dma_frame \<Rightarrow> 's \<Rightarrow> 's" +
  assumes put_front: "front (put_step f s) = front s"
    and take_rear: "rear (take_step f s) = rear s"
begin

abbreviation (input) "fview s \<equiv> view_from (frames s) (front s)"
abbreviation (input) "fring s \<equiv> ring_at (frames s) (num s) (front s)"
abbreviation (input) "apart s k \<equiv> unat (rear s) = (unat (front s) + k) mod unat (num s)"

lemma rear_ring: "fring s \<Longrightarrow> apart s k \<Longrightarrow> ring_at (frames s) (num s) (rear s)"
  by (erule ring_atE) (simp add: ring_at_def mod_in_ring)

lemma frame_at_rear:
  "fring s \<Longrightarrow> apart s k \<Longrightarrow> k < unat (num s) \<Longrightarrow> frame_at (frames s) (rear s) = Some (fview s ! k)"
  by (rule view_from_put(3))

lemma put_ring: "fring s \<Longrightarrow> fring (put_step f s)"
  by (erule ring_atE) (simp add: ring_at_def rear.step_frames rear.step_num put_front put_frame_def)

lemma put_view:
  "fring s \<Longrightarrow> apart s k \<Longrightarrow> k < unat (num s) \<Longrightarrow> fview (put_step f s) = (fview s)[k := f]"
  unfolding rear.step_frames put_front by (rule view_from_put(2))

lemma put_apart:
  assumes "fring s" "apart s k"
  shows "apart (put_step f s) (Suc k)"
proof -
  have "unat (rear s) < unat (num s)"
    using assms by (simp add: mod_in_ring [OF ring_at_less])
  then have "unat (rear (put_step f s)) = (unat (rear s) + 1) mod unat (num s)"
    by (simp add: rear.step_cur unat_next_desc next_slot_mod)
  then show ?thesis using assms(2) by (simp add: rear.step_num put_front mod_Suc_eq)
qed

lemma take_apart:
  assumes "fring s" "apart s (Suc k)"
  shows "apart (take_step f s) k"
proof -
  have "unat (front s) < unat (num s)" using assms(1) by (rule ring_at_less)
  then have "unat (front (take_step f s)) = (unat (front s) + 1) mod unat (num s)"
    by (simp add: front.step_cur unat_next_desc next_slot_mod)
  then show ?thesis using assms(2) by (simp add: front.step_num take_rear mod_add_left_eq)
qed

end

interpretation rx: ring_queue rx_descriptors "\<lambda>s. rx_num (memory s)"
    user_rx_desc step_user_rx fifo_rx_desc step_fifo_rx
  by unfold_locales (simp_all add: step_user_rx_def step_fifo_rx_def)

interpretation tx: ring_queue tx_descriptors "\<lambda>s. tx_num (memory s)"
    user_tx_desc step_user_tx fifo_tx_desc step_fifo_tx
  by unfold_locales (simp_all add: step_user_tx_def step_fifo_tx_def)

end
