(* ===== verification/Fscc_Frames.thy ===== *)
theory Fscc_Frames
  imports Fscc_Registers Fscc_Rings
begin

text \<open>
  The descriptor rings and the engines behind them (\<open>io.c\<close>): creating, linking and
  destroying the frames, the DMA and FIFO commands and counters, and the resets and
  purges that bring a ring back to its initial state. What happens when a frame cannot
  be allocated is part of the model: the ring is then shorter, possibly empty.
\<close>

section \<open>Commands and counters\<close>

definition fscc_dma_command :: "env \<Rightarrow> u32 \<Rightarrow> driver \<Rightarrow> NTSTATUS \<times> driver" where
  "fscc_dma_command E value s =
     (if fscc_port_uses_dma s = 0 then (STATUS_SUCCESS, s)
      else fscc_port_set_register E 2 DMACCR_OFFSET value s)"

definition fscc_dma_execute_STOP_R :: "env \<Rightarrow> driver \<Rightarrow> NTSTATUS \<times> driver" where
  "fscc_dma_execute_STOP_R E = fscc_dma_command E 0x100"
definition fscc_dma_execute_STOP_T :: "env \<Rightarrow> driver \<Rightarrow> NTSTATUS \<times> driver" where
  "fscc_dma_execute_STOP_T E = fscc_dma_command E 0x200"
definition fscc_dma_execute_GO_R :: "env \<Rightarrow> driver \<Rightarrow> NTSTATUS \<times> driver" where
  "fscc_dma_execute_GO_R E = fscc_dma_command E 0x1"
definition fscc_dma_execute_GO_T :: "env \<Rightarrow> driver \<Rightarrow> NTSTATUS \<times> driver" where
  "fscc_dma_execute_GO_T E = fscc_dma_command E 0x2"
definition fscc_dma_execute_RST_R :: "env \<Rightarrow> driver \<Rightarrow> NTSTATUS \<times> driver" where
  "fscc_dma_execute_RST_R E = fscc_dma_command E 0x10"
definition fscc_dma_execute_RST_T :: "env \<Rightarrow> driver \<Rightarrow> NTSTATUS \<times> driver" where
  "fscc_dma_execute_RST_T E = fscc_dma_command E 0x20"

definition fscc_dma_port_enable :: "env \<Rightarrow> driver \<Rightarrow> NTSTATUS \<times> driver" where
  "fscc_dma_port_enable E = fscc_port_set_register E 2 DMACCR_OFFSET 0x03000000"
definition fscc_dma_port_disable :: "env \<Rightarrow> driver \<Rightarrow> NTSTATUS \<times> driver" where
  "fscc_dma_port_disable E = fscc_port_set_register E 2 DMACCR_OFFSET 0x00000000"

text \<open>The master reset goes to the first port's register.\<close>

definition fscc_dma_reset_master :: "driver \<Rightarrow> driver" where
  "fscc_dma_reset_master = fscc_card_set_register 2 DMACCR_OFFSET 0x10000"

definition fscc_dma_is_rx_running :: "env \<Rightarrow> driver \<Rightarrow> BOOLEAN \<times> driver" where
  "fscc_dma_is_rx_running E s =
     (let (dstar_value, s1) = fscc_port_get_register E 2 DSTAR_OFFSET s
      in (if channel s = 0 then (if dstar_value AND 0x1 \<noteq> 0 then 0 else 1)
          else (if dstar_value AND 0x4 \<noteq> 0 then 0 else 1), s1))"

definition fscc_dma_is_tx_running :: "env \<Rightarrow> driver \<Rightarrow> BOOLEAN \<times> driver" where
  "fscc_dma_is_tx_running E s =
     (let (dstar_value, s1) = fscc_port_get_register E 2 DSTAR_OFFSET s
      in (if channel s = 0 then (if dstar_value AND 0x2 \<noteq> 0 then 0 else 1)
          else (if dstar_value AND 0x8 \<noteq> 0 then 0 else 1), s1))"

definition fscc_dma_is_master_dead :: "env \<Rightarrow> driver \<Rightarrow> BOOLEAN \<times> driver" where
  "fscc_dma_is_master_dead E s =
     (let (dstar_value, s1) = fscc_port_get_register E 2 DSTAR_OFFSET s
      in (if dstar_value AND 0x10 \<noteq> 0 then 1 else 0, s1))"

definition fscc_io_get_RFCNT :: "env \<Rightarrow> driver \<Rightarrow> u32 \<times> driver" where
  "fscc_io_get_RFCNT E s =
     (let (fifo_fc_value, s1) = fscc_port_get_register E 0 FIFO_FC_OFFSET s
      in (fifo_fc_value AND 0x000003ff, s1))"

definition fscc_io_get_TFCNT :: "env \<Rightarrow> driver \<Rightarrow> u32 \<times> driver" where
  "fscc_io_get_TFCNT E s =
     (let (fifo_fc_value, s1) = fscc_port_get_register E 0 FIFO_FC_OFFSET s
      in (drop_bit 16 (fifo_fc_value AND 0x01ff0000), s1))"

definition fscc_io_get_RXCNT :: "env \<Rightarrow> driver \<Rightarrow> u32 \<times> driver" where
  "fscc_io_get_RXCNT E s =
     (let (fifo_bc_value, s1) = fscc_port_get_register E 0 FIFO_BC_OFFSET s;
          fifo_bc_value = fifo_bc_value AND 0x00003FFF
      in (if fifo_bc_value > 8192 then 0 else fifo_bc_value, s1))"

definition fscc_io_get_TXCNT :: "env \<Rightarrow> driver \<Rightarrow> u32 \<times> driver" where
  "fscc_io_get_TXCNT E s =
     (let (fifo_bc_value, s1) = fscc_port_get_register E 0 FIFO_BC_OFFSET s
      in (drop_bit 16 (fifo_bc_value AND 0x1FFF0000), s1))"

definition fscc_io_execute_TRES :: "env \<Rightarrow> driver \<Rightarrow> NTSTATUS \<times> driver" where
  "fscc_io_execute_TRES E = fscc_port_set_register E 0 CMDR_OFFSET 0x08000000"

definition fscc_io_execute_RRES :: "env \<Rightarrow> driver \<Rightarrow> NTSTATUS \<times> driver" where
  "fscc_io_execute_RRES E = fscc_port_set_register E 0 CMDR_OFFSET 0x00020000"

section \<open>Frames\<close>

text \<open>\<open>sizeof\<close> on the 64-bit targets of the driver.\<close>

abbreviation (input) SIZEOF_DMA_FRAME :: nat where "SIZEOF_DMA_FRAME \<equiv> 48"
abbreviation (input) SIZEOF_DESCRIPTOR :: u32 where "SIZEOF_DESCRIPTOR \<equiv> 16"
abbreviation (input) SIZEOF_POINTER :: nat where "SIZEOF_POINTER \<equiv> 8"

definition wdf_common_buffer_create ::
  "env \<Rightarrow> u32 \<Rightarrow> driver \<Rightarrow> NTSTATUS \<times> common_buffer \<times> driver" where
  "wdf_common_buffer_create E bytes s =
     (let (status, cb) = common_buffer_create E (events s) bytes
      in (status, cb, emit (Common_buffer_create bytes status) s))"

definition pool_alloc :: "env \<Rightarrow> nat \<Rightarrow> driver \<Rightarrow> bool \<times> driver" where
  "pool_alloc E bytes s =
     (let ok = pool_allocate E (events s) bytes in (ok, emit (Pool_allocate bytes ok) s))"

definition fscc_io_create_frame :: "env \<Rightarrow> u32 \<Rightarrow> driver \<Rightarrow> dma_frame option \<times> driver" where
  "fscc_io_create_frame E size_of_buffer s =
     (let (ok, s1) = pool_alloc E SIZEOF_DMA_FRAME s
      in if \<not> ok then (None, s1)
      else (let (status, desc_buffer, s2) = wdf_common_buffer_create E SIZEOF_DESCRIPTOR s1
      in if \<not> NT_SUCCESS status then (None, emit Pool_free s2)
      else (let (status, data_buffer, s3) = wdf_common_buffer_create E size_of_buffer s2
      in if \<not> NT_SUCCESS status then (None, emit Pool_free (emit Object_delete s3))
      else (Some \<lparr>desc = \<lparr>control = 0, data_address = logical_address data_buffer,
                          data_count = 0, next_descriptor = 0\<rparr>,
                  desc_physical_address = logical_address desc_buffer,
                  buffer = replicate (unat (buffer_length data_buffer)) 0,
                  timestamp = clear_timestamp,
                  data_size = buffer_length data_buffer,
                  desc_size = buffer_length desc_buffer\<rparr>, s3))))"

definition fscc_io_destroy_frame :: "driver \<Rightarrow> driver" where
  "fscc_io_destroy_frame s = emit Pool_free (emit Object_delete (emit Object_delete s))"

definition fscc_io_link_desc :: "dma_frame list \<Rightarrow> dma_frame list" where
  "fscc_io_link_desc descs =
     (let n = length descs
      in fold (\<lambda>i descs. descs[i := (descs ! i)\<lparr>desc := (desc (descs ! i))\<lparr>next_descriptor :=
                desc_physical_address (descs ! (if i < n - 1 then i + 1 else 0))\<rparr>\<rparr>])
           [0..<n] descs)"

text \<open>The loop both constructors have: it stops at the first frame that cannot be
  created. \<open>count\<close> is the initial \<open>data_count\<close>.\<close>

fun create_frames ::
  "env \<Rightarrow> (dma_frame \<Rightarrow> u32) \<Rightarrow> u32 \<Rightarrow> nat \<Rightarrow> nat \<Rightarrow> driver \<Rightarrow> dma_frame list \<times> driver" where
  "create_frames E count bytes i 0 s = ([], s)"
| "create_frames E count bytes i (Suc n) s =
     (case fscc_io_create_frame E bytes s of
        (None, s1) \<Rightarrow> ([], s1)
      | (Some f, s1) \<Rightarrow>
          (let f = set_control (if i mod 2 \<noteq> 0 then DESC_HI_BIT else 0) f;
               f = set_data_count (count f) f;
               (fs, s2) = create_frames E count bytes (i + 1) n s1
           in (f # fs, s2)))"

definition round_size :: "u32 \<Rightarrow> u32" where
  "round_size bytes = (if bytes mod 4 \<noteq> 0 then bytes + (4 - bytes mod 4) else bytes)"

definition fscc_io_create_rx :: "env \<Rightarrow> u32 \<Rightarrow> u32 \<Rightarrow> driver \<Rightarrow> NTSTATUS \<times> driver" where
  "fscc_io_create_rx E number_of_buffers size_of_buffers s =
     (let number_of_buffers = (if number_of_buffers < 2 then 2 else number_of_buffers);
          size_of_buffers = round_size size_of_buffers;
          (ok, s1) = pool_alloc E (SIZEOF_POINTER * unat number_of_buffers) s
      in if \<not> ok
         then (STATUS_UNSUCCESSFUL,
               s1\<lparr>rx_descriptors := None, memory := (memory s1)\<lparr>rx_num := 0, rx_size := 0\<rparr>\<rparr>)
         else (let (frames, s2) =
                 create_frames E data_size size_of_buffers 0 (unat number_of_buffers) s1
               in (STATUS_SUCCESS,
                   s2\<lparr>rx_descriptors := Some (fscc_io_link_desc frames),
                      memory := (memory s2)\<lparr>rx_size := size_of_buffers,
                                             rx_num := of_nat (length frames)\<rparr>\<rparr>)))"

definition fscc_io_create_tx :: "env \<Rightarrow> u32 \<Rightarrow> u32 \<Rightarrow> driver \<Rightarrow> NTSTATUS \<times> driver" where
  "fscc_io_create_tx E number_of_buffers size_of_buffers s =
     (let number_of_buffers = (if number_of_buffers < 2 then 2 else number_of_buffers);
          size_of_buffers = round_size size_of_buffers;
          (ok, s1) = pool_alloc E (SIZEOF_POINTER * unat number_of_buffers) s
      in if \<not> ok
         then (STATUS_UNSUCCESSFUL,
               s1\<lparr>tx_descriptors := None, memory := (memory s1)\<lparr>tx_num := 0, tx_size := 0\<rparr>\<rparr>)
         else (let (frames, s2) =
                 create_frames E (\<lambda>_. 0) size_of_buffers 0 (unat number_of_buffers) s1
               in (STATUS_SUCCESS,
                   s2\<lparr>tx_descriptors := Some (fscc_io_link_desc frames),
                      memory := (memory s2)\<lparr>tx_size := size_of_buffers,
                                             tx_num := of_nat (length frames)\<rparr>\<rparr>)))"

definition fscc_io_destroy_rx :: "env \<Rightarrow> driver \<Rightarrow> driver option" where
  "fscc_io_destroy_rx E s =
     (let s1 = snd (fscc_dma_execute_STOP_R E s);
          s2 = snd (fscc_dma_execute_RST_R E s1);
          s3 = (if fscc_port_uses_dma s2 \<noteq> 0
                then snd (fscc_port_set_register E 2 DMA_RX_BASE_OFFSET 0 s2) else s2)
      in if rx_descriptors s3 = None then Some s3
         else do {
           frames \<leftarrow> frames_in (rx_descriptors s3) (unat (rx_num (memory s3)));
           Some ((emit Pool_free (fold (\<lambda>_. fscc_io_destroy_frame) frames s3))
             \<lparr>rx_descriptors := None\<rparr>) })"

definition fscc_io_destroy_tx :: "env \<Rightarrow> driver \<Rightarrow> driver option" where
  "fscc_io_destroy_tx E s =
     (let s1 = snd (fscc_dma_execute_STOP_T E s);
          s2 = snd (fscc_dma_execute_RST_T E s1);
          s3 = (if fscc_port_uses_dma s2 \<noteq> 0
                then snd (fscc_port_set_register E 2 DMA_TX_BASE_OFFSET 0 s2) else s2)
      in if tx_descriptors s3 = None then Some s3
         else do {
           frames \<leftarrow> frames_in (tx_descriptors s3) (unat (tx_num (memory s3)));
           Some ((emit Pool_free (fold (\<lambda>_. fscc_io_destroy_frame) frames s3))
             \<lparr>tx_descriptors := None\<rparr>) })"

definition fscc_io_initialize :: "env \<Rightarrow> driver \<Rightarrow> NTSTATUS \<times> driver" where
  "fscc_io_initialize E s =
     (let status = dma_enabler_create E (events s);
          s1 = emit (Dma_enabler_create status) s
      in if \<not> NT_SUCCESS status then (status, s1\<lparr>has_dma := 0\<rparr>) else (status, s1))"

section \<open>Reset and purge\<close>

definition reset_rx_frame :: "dma_frame \<Rightarrow> dma_frame" where
  "reset_rx_frame f =
     (set_data_count (data_size f) (set_control DESC_HI_BIT f))\<lparr>timestamp := clear_timestamp\<rparr>"

definition fscc_io_reset_rx :: "env \<Rightarrow> driver \<Rightarrow> (NTSTATUS \<times> driver) option" where
  "fscc_io_reset_rx E s =
     (let s1 = snd (fscc_dma_execute_STOP_R E s);
          (status, s2) = fscc_io_execute_RRES E s1;
          s3 = snd (fscc_dma_execute_RST_R E s2)
      in do {
        descs \<leftarrow> map_frames reset_rx_frame (unat (rx_num (memory s3))) (rx_descriptors s3);
        Some (status, s3\<lparr>rx_descriptors := descs, user_rx_desc := 0, fifo_rx_desc := 0,
                         rx_bytes_in_frame := 0, rx_frame_size := 0\<rparr>) })"

definition reset_tx_frame :: "dma_frame \<Rightarrow> dma_frame" where
  "reset_tx_frame f =
     (set_data_count 0 (set_control DESC_CSTOP_BIT f))\<lparr>timestamp := clear_timestamp\<rparr>"

definition fscc_io_reset_tx :: "env \<Rightarrow> driver \<Rightarrow> (NTSTATUS \<times> driver) option" where
  "fscc_io_reset_tx E s =
     (let s1 = snd (fscc_dma_execute_STOP_T E s);
          (status, s2) = fscc_io_execute_TRES E s1;
          s3 = snd (fscc_dma_execute_RST_T E s2)
      in do {
        descs \<leftarrow> map_frames reset_tx_frame (unat (tx_num (memory s3))) (tx_descriptors s3);
        Some (status, s3\<lparr>tx_descriptors := descs, user_tx_desc := 0, fifo_tx_desc := 0,
                         tx_bytes_in_frame := 0, tx_frame_size := 0\<rparr>) })"

definition fscc_io_purge_rx :: "env \<Rightarrow> driver \<Rightarrow> (NTSTATUS \<times> driver) option" where
  "fscc_io_purge_rx E s =
     (let orig_CCR0 = ucast (register_storage s ! reg_CCR0) :: u32;
          s1 = snd (fscc_port_set_register E 0 CCR0_OFFSET (orig_CCR0 OR 0x02000000) s)
      in do {
        (status, s2) \<leftarrow> fscc_io_reset_rx E s1;
        s3 \<leftarrow> (if fscc_port_uses_dma s2 \<noteq> 0 then do {
                 frame \<leftarrow> frame_at (rx_descriptors s2) 0;
                 Some (snd (fscc_dma_execute_GO_R E (snd (fscc_port_set_register E 2
                   DMA_RX_BASE_OFFSET (desc_physical_address frame) s2)))) }
               else Some s2);
        let s4 = emits [Queue_purge read_queue, Queue_purge read_queue2,
                        Queue_start read_queue, Queue_start read_queue2] s3;
        Some (STATUS_SUCCESS, snd (fscc_port_set_register E 0 CCR0_OFFSET orig_CCR0 s4)) })"

definition fscc_io_purge_tx :: "env \<Rightarrow> driver \<Rightarrow> (NTSTATUS \<times> driver) option" where
  "fscc_io_purge_tx E s =
     do {
       (status, s1) \<leftarrow> fscc_io_reset_tx E s;
       s2 \<leftarrow> (if fscc_port_uses_dma s1 \<noteq> 0 then do {
                frame \<leftarrow> frame_at (tx_descriptors s1) 0;
                Some (snd (fscc_port_set_register E 2
                  DMA_TX_BASE_OFFSET (desc_physical_address frame) s1)) }
              else Some s1);
       Some (STATUS_SUCCESS, emits [Queue_purge write_queue, Queue_purge write_queue2,
                                    Queue_start write_queue, Queue_start write_queue2] s2) }"

section \<open>What the constructors build\<close>

text \<open>Each descriptor points to the next one, and the last to the first.\<close>

definition linked :: "dma_frame list \<Rightarrow> bool" where
  "linked fs \<longleftrightarrow> map (\<lambda>f. next_descriptor (desc f)) fs = map desc_physical_address (rotate1 fs)"

abbreviation (input) set_next :: "u32 \<Rightarrow> dma_frame \<Rightarrow> dma_frame" where
  "set_next a f \<equiv> f\<lparr>desc := (desc f)\<lparr>next_descriptor := a\<rparr>\<rparr>"

lemma link_desc_prefix:
  fixes descs :: "dma_frame list"
  defines "n \<equiv> length descs"
  assumes "k \<le> n"
  shows "fold (\<lambda>i ds. ds[i := set_next (desc_physical_address (ds ! (if i < n - 1 then i + 1 else 0))) (ds ! i)])
      [0..<k] descs =
    map (\<lambda>i. if i < k then set_next (desc_physical_address (descs ! (if i < n - 1 then i + 1 else 0))) (descs ! i)
             else descs ! i) [0..<n]"
  using assms(2)
proof (induction k)
  case 0
  then show ?case by (simp add: n_def map_nth)
next
  case (Suc k)
  then have k: "k < n" by simp
  then have wrap: "(if k < n - 1 then k + 1 else 0) < n" by auto
  show ?case
    using Suc k wrap by (intro nth_equalityI) (auto simp: nth_list_update less_Suc_eq)
qed

lemma link_desc_eq:
  "fscc_io_link_desc fs =
     map (\<lambda>i. set_next (desc_physical_address (fs ! (if i < length fs - 1 then i + 1 else 0))) (fs ! i))
       [0..<length fs]"
proof -
  have "fscc_io_link_desc fs = map (\<lambda>i. if i < length fs
      then set_next (desc_physical_address (fs ! (if i < length fs - 1 then i + 1 else 0))) (fs ! i)
      else fs ! i) [0..<length fs]"
    unfolding fscc_io_link_desc_def Let_def by (rule link_desc_prefix) simp
  then show ?thesis by (auto intro: nth_equalityI)
qed

lemma length_link_desc [simp]: "length (fscc_io_link_desc fs) = length fs"
  by (simp add: link_desc_eq)

lemma linked_link_desc: "linked (fscc_io_link_desc fs)"
  unfolding linked_def link_desc_eq
proof (rule nth_equalityI)
  let ?ls = "map (\<lambda>i. set_next (desc_physical_address (fs ! (if i < length fs - 1 then i + 1 else 0)))
    (fs ! i)) [0..<length fs]"
  fix i assume "i < length (map (\<lambda>f. next_descriptor (desc f)) ?ls)"
  then have i: "i < length fs" by simp
  have "(if i < length fs - 1 then i + 1 else 0) = Suc i mod length fs"
    using i by (cases "Suc i = length fs") auto
  moreover have "Suc i mod length fs < length fs" using i by (intro mod_less_divisor) linarith
  ultimately show "map (\<lambda>f. next_descriptor (desc f)) ?ls ! i =
      map desc_physical_address (rotate1 ?ls) ! i"
    using i by (simp add: nth_rotate1)
qed simp

lemma link_desc_all:
  assumes "\<And>a f. P (set_next a f) = P f"
  shows "list_all P (fscc_io_link_desc fs) = list_all P fs"
  using assms by (auto simp: link_desc_eq list_all_length)

text \<open>Environments whose common buffers have the length they were asked for, as
  \<open>WdfCommonBufferGetLength\<close> promises.\<close>

definition buffers_as_asked :: "env \<Rightarrow> bool" where
  "buffers_as_asked E \<longleftrightarrow> (\<forall>h bytes. buffer_length (snd (common_buffer_create E h bytes)) = bytes)"

definition fresh_frame :: "u32 \<Rightarrow> u32 \<Rightarrow> dma_frame \<Rightarrow> bool" where
  "fresh_frame bytes count f \<longleftrightarrow> data_size f = bytes \<and> buffer f = replicate (unat bytes) 0 \<and>
     frame_count f = count \<and> timestamp f = clear_timestamp \<and> frame_control f \<in> {0, DESC_HI_BIT}"

lemma create_frame_fresh:
  assumes "buffers_as_asked E" "fscc_io_create_frame E bytes s = (Some f, s')"
  shows "data_size f = bytes" "buffer f = replicate (unat bytes) 0" "timestamp f = clear_timestamp"
  using assms(2) assms(1) [unfolded buffers_as_asked_def]
  by (auto simp: fscc_io_create_frame_def pool_alloc_def wdf_common_buffer_create_def Let_def
      split: if_splits prod.splits) (metis snd_conv)+

lemma create_frame_emits:
  "fscc_io_create_frame E bytes s = (r, s') \<Longrightarrow> \<exists>es. s' = emits es s"
  by (auto simp: fscc_io_create_frame_def pool_alloc_def wdf_common_buffer_create_def Let_def
      emit_emits emits_emits split: if_splits prod.splits)

lemma create_frames_fresh:
  assumes "buffers_as_asked E" "create_frames E count bytes i n s = (fs, s')"
    and "\<And>f. data_size f = bytes \<Longrightarrow> count f = c"
    and "\<And>f v. count (set_control v f) = count f"
  shows "length fs \<le> n \<and> list_all (fresh_frame bytes c) fs \<and> (\<exists>es. s' = emits es s)"
  using assms(2)
proof (induction n arbitrary: i s fs s')
  case 0
  then show ?case by (auto intro: exI [of _ "[]"])
next
  case (Suc n)
  obtain r s1 where one: "fscc_io_create_frame E bytes s = (r, s1)" by fastforce
  from create_frame_emits [OF this] obtain es1 where es1: "s1 = emits es1 s" by blast
  show ?case
  proof (cases r)
    case None
    with Suc.prems one es1 show ?thesis by auto
  next
    case (Some f)
    let ?f = "set_data_count (count f) (set_control (if i mod 2 \<noteq> 0 then DESC_HI_BIT else 0) f)"
    note made = create_frame_fresh [OF assms(1) one [unfolded Some]]
    obtain fs' s2 where rec: "create_frames E count bytes (i + 1) n s1 = (fs', s2)" by fastforce
    with Suc.prems one Some have fs: "fs = ?f # fs'" "s' = s2"
      by (auto simp: Let_def assms(4))
    from made assms(3) have "fresh_frame bytes c ?f" by (simp add: fresh_frame_def)
    with Suc.IH [OF rec] es1 fs show ?thesis by (auto simp: emits_emits)
  qed
qed

lemma round_size_mult4: "unat bytes + 3 < 2 ^ 32 \<Longrightarrow> unat (round_size bytes) mod 4 = 0 \<and>
    unat bytes \<le> unat (round_size bytes) \<and> unat (round_size bytes) < unat bytes + 4"
proof -
  assume b: "unat bytes + 3 < 2 ^ 32"
  have m: "unat (bytes mod 4) = unat bytes mod 4" by (simp add: unat_mod_distrib)
  show ?thesis
  proof (cases "unat bytes mod 4 = 0")
    case True
    then have "bytes mod 4 = 0" using m by (simp add: word_unat_eq_iff)
    with True show ?thesis by (simp add: round_size_def)
  next
    case False
    then have nz: "bytes mod 4 \<noteq> 0" using m by (metis unat_0)
    have "bytes mod 4 < 4" by (simp add: word_mod_less_divisor)
    then have d: "unat (4 - bytes mod 4) = 4 - unat bytes mod 4"
      using m by (simp add: unat_sub less_imp_le)
    have "unat (bytes + (4 - bytes mod 4)) = unat bytes + (4 - unat bytes mod 4)"
      using b d False by (simp add: unat_word_ariths)
    moreover have "(unat bytes + (4 - unat bytes mod 4)) mod 4 = 0" by presburger
    ultimately show ?thesis using nz False by (simp add: round_size_def)
  qed
qed

lemma fresh_frame_link: "fresh_frame bytes c (set_next a f) = fresh_frame bytes c f"
  by (simp add: fresh_frame_def)

lemma fresh_linked:
  "list_all (fresh_frame bytes c) fs \<Longrightarrow> list_all (fresh_frame bytes c) (fscc_io_link_desc fs)"
  by (simp add: link_desc_all [OF fresh_frame_link])

text \<open>The number of frames fits its 32-bit field.\<close>

lemma frames_counted:
  assumes "n \<le> unat (m :: u32)"
  shows "unat (of_nat n :: u32) = n"
proof -
  have "unat m < 2 ^ LENGTH(32)" by (rule unsigned_less)
  with assms show ?thesis by (simp add: unsigned_of_nat take_bit_nat_eq_self)
qed

lemma pool_alloc_eq:
  "pool_alloc E n s = (ok, s1) \<Longrightarrow> s1 = emits [Pool_allocate n ok] s \<and> ok = pool_allocate E (events s) n"
  by (auto simp: pool_alloc_def emit_emits Let_def)

lemma create_rx_result:
  assumes "buffers_as_asked E" and run: "fscc_io_create_rx E number bytes s = (st, s')"
  shows "(st = STATUS_UNSUCCESSFUL \<and> rx_descriptors s' = None \<and> rx_num (memory s') = 0) \<or>
    (st = STATUS_SUCCESS \<and> (\<exists>fs. rx_descriptors s' = Some fs \<and> unat (rx_num (memory s')) = length fs \<and>
      length fs \<le> max 2 (unat number) \<and> linked fs \<and> rx_size (memory s') = round_size bytes \<and>
      list_all (fresh_frame (round_size bytes) (round_size bytes)) fs))"
proof -
  let ?n = "if number < 2 then 2 else number"
  obtain ok s1 where 1: "pool_alloc E (SIZEOF_POINTER * unat ?n) s = (ok, s1)" by fastforce
  show ?thesis
  proof (cases ok)
    case False
    with run 1 show ?thesis by (auto simp: fscc_io_create_rx_def Let_def)
  next
    case True
    obtain frames s2 where 2:
      "create_frames E data_size (round_size bytes) 0 (unat ?n) s1 = (frames, s2)" by fastforce
    have fr: "length frames \<le> unat ?n \<and>
        list_all (fresh_frame (round_size bytes) (round_size bytes)) frames \<and> (\<exists>es. s2 = emits es s1)"
      by (rule create_frames_fresh [OF assms(1) 2]) simp_all
    moreover have "unat ?n \<le> max 2 (unat number)" by simp
    moreover have "unat (of_nat (length frames) :: u32) = length frames"
      using fr by (intro frames_counted) blast
    ultimately show ?thesis using run 1 2 True linked_link_desc [of frames] fresh_linked
      by (auto simp: fscc_io_create_rx_def Let_def)
  qed
qed

lemma create_tx_result:
  assumes "buffers_as_asked E" and run: "fscc_io_create_tx E number bytes s = (st, s')"
  shows "(st = STATUS_UNSUCCESSFUL \<and> tx_descriptors s' = None \<and> tx_num (memory s') = 0) \<or>
    (st = STATUS_SUCCESS \<and> (\<exists>fs. tx_descriptors s' = Some fs \<and> unat (tx_num (memory s')) = length fs \<and>
      length fs \<le> max 2 (unat number) \<and> linked fs \<and> tx_size (memory s') = round_size bytes \<and>
      list_all (fresh_frame (round_size bytes) 0) fs))"
proof -
  let ?n = "if number < 2 then 2 else number"
  obtain ok s1 where 1: "pool_alloc E (SIZEOF_POINTER * unat ?n) s = (ok, s1)" by fastforce
  show ?thesis
  proof (cases ok)
    case False
    with run 1 show ?thesis by (auto simp: fscc_io_create_tx_def Let_def)
  next
    case True
    obtain frames s2 where 2:
      "create_frames E (\<lambda>_. 0) (round_size bytes) 0 (unat ?n) s1 = (frames, s2)" by fastforce
    have fr: "length frames \<le> unat ?n \<and>
        list_all (fresh_frame (round_size bytes) 0) frames \<and> (\<exists>es. s2 = emits es s1)"
      by (rule create_frames_fresh [OF assms(1) 2]) simp_all
    moreover have "unat ?n \<le> max 2 (unat number)" by simp
    moreover have "unat (of_nat (length frames) :: u32) = length frames"
      using fr by (intro frames_counted) blast
    ultimately show ?thesis using run 1 2 True linked_link_desc [of frames] fresh_linked
      by (auto simp: fscc_io_create_tx_def Let_def)
  qed
qed

lemma fresh_frame_ok:
  "fresh_frame bytes c f \<Longrightarrow> unat bytes mod 4 = 0 \<Longrightarrow> 0 < unat bytes \<Longrightarrow> unat bytes < 2 ^ 29 \<Longrightarrow>
   frame_ok f"
  by (auto simp: fresh_frame_def frame_ok_def)

section \<open>What the commands and resets do\<close>

lemma dma_command_io_step:
  "fscc_dma_command E v s = (st, s') \<Longrightarrow> io_step s s'"
  by (auto simp: fscc_dma_command_def dest: set_register_io_step split: if_splits)

lemma set_register_snd_io_step [simp]: "io_step s (snd (fscc_port_set_register E b off v s))"
  by (cases "fscc_port_set_register E b off v s") (auto dest: set_register_io_step)

lemma dma_execute_io_step [simp]:
  "io_step s (snd (fscc_dma_execute_STOP_R E s))" "io_step s (snd (fscc_dma_execute_STOP_T E s))"
  "io_step s (snd (fscc_dma_execute_GO_R E s))" "io_step s (snd (fscc_dma_execute_GO_T E s))"
  "io_step s (snd (fscc_dma_execute_RST_R E s))" "io_step s (snd (fscc_dma_execute_RST_T E s))"
  "io_step s (snd (fscc_io_execute_RRES E s))" "io_step s (snd (fscc_io_execute_TRES E s))"
  by (auto simp: fscc_dma_execute_STOP_R_def fscc_dma_execute_STOP_T_def fscc_dma_execute_GO_R_def
      fscc_dma_execute_GO_T_def fscc_dma_execute_RST_R_def fscc_dma_execute_RST_T_def
      fscc_dma_command_def fscc_io_execute_RRES_def fscc_io_execute_TRES_def)

lemma map_frames_all:
  "descs = Some fs \<Longrightarrow> n = length fs \<Longrightarrow> map_frames f n descs = Some (Some (map f fs))"
  by (auto simp: map_frames_def frames_in_def)

lemma reset_tx_result:
  assumes "tx_descriptors s = Some fs" "unat (tx_num (memory s)) = length fs"
  shows "\<exists>st s1. io_step s s1 \<and> fscc_io_reset_tx E s = Some (st, s1\<lparr>tx_descriptors :=
      Some (map reset_tx_frame fs), user_tx_desc := 0, fifo_tx_desc := 0,
      tx_bytes_in_frame := 0, tx_frame_size := 0\<rparr>)"
proof -
  let ?s1 = "snd (fscc_dma_execute_STOP_T E s)"
  let ?s2 = "snd (fscc_io_execute_TRES E ?s1)"
  let ?s3 = "snd (fscc_dma_execute_RST_T E ?s2)"
  have step: "io_step s ?s3"
    by (rule io_step_trans [OF io_step_trans [OF dma_execute_io_step(2) dma_execute_io_step(8)]
          dma_execute_io_step(6)])
  with assms have "map_frames reset_tx_frame (unat (tx_num (memory ?s3))) (tx_descriptors ?s3)
      = Some (Some (map reset_tx_frame fs))"
    by (intro map_frames_all) (simp_all add: io_stepD [OF step])
  with step show ?thesis
    by (intro exI [of _ "fst (fscc_io_execute_TRES E ?s1)"] exI [of _ ?s3])
      (simp add: fscc_io_reset_tx_def Let_def split_beta)
qed

lemma reset_rx_result:
  assumes "rx_descriptors s = Some fs" "unat (rx_num (memory s)) = length fs"
  shows "\<exists>st s1. io_step s s1 \<and> fscc_io_reset_rx E s = Some (st, s1\<lparr>rx_descriptors :=
      Some (map reset_rx_frame fs), user_rx_desc := 0, fifo_rx_desc := 0,
      rx_bytes_in_frame := 0, rx_frame_size := 0\<rparr>)"
proof -
  let ?s1 = "snd (fscc_dma_execute_STOP_R E s)"
  let ?s2 = "snd (fscc_io_execute_RRES E ?s1)"
  let ?s3 = "snd (fscc_dma_execute_RST_R E ?s2)"
  have step: "io_step s ?s3"
    by (rule io_step_trans [OF io_step_trans [OF dma_execute_io_step(1) dma_execute_io_step(7)]
          dma_execute_io_step(5)])
  with assms have "map_frames reset_rx_frame (unat (rx_num (memory ?s3))) (rx_descriptors ?s3)
      = Some (Some (map reset_rx_frame fs))"
    by (intro map_frames_all) (simp_all add: io_stepD [OF step])
  with step show ?thesis
    by (intro exI [of _ "fst (fscc_io_execute_RRES E ?s1)"] exI [of _ ?s3])
      (simp add: fscc_io_reset_rx_def Let_def split_beta)
qed

lemma uses_dma_port_step:
  "force_fifo s' = force_fifo s \<Longrightarrow> has_dma s' = has_dma s \<Longrightarrow>
   (fscc_port_uses_dma s' = 0) = (fscc_port_uses_dma s = 0)"
  by (simp add: fscc_port_uses_dma_def)

lemma emits_io_step [simp]: "io_step s t \<Longrightarrow> list_all quiet es \<Longrightarrow> io_step s (emits es t)"
  using io_step_trans io_step_emits by blast

lemma purge_tx_result:
  assumes "tx_descriptors s = Some fs" "unat (tx_num (memory s)) = length fs" "fs \<noteq> []"
  shows "\<exists>s1 s'. io_step s s1 \<and> fscc_io_purge_tx E s = Some (STATUS_SUCCESS, s') \<and>
    io_step (s1\<lparr>tx_descriptors := Some (map reset_tx_frame fs), user_tx_desc := 0,
      fifo_tx_desc := 0, tx_bytes_in_frame := 0, tx_frame_size := 0\<rparr>) s'"
proof -
  from reset_tx_result [OF assms(1,2)] obtain st s1 where s1: "io_step s s1"
    "fscc_io_reset_tx E s = Some (st, s1\<lparr>tx_descriptors :=
      Some (map reset_tx_frame fs), user_tx_desc := 0, fifo_tx_desc := 0,
      tx_bytes_in_frame := 0, tx_frame_size := 0\<rparr>)" by blast
  let ?s2 = "s1\<lparr>tx_descriptors := Some (map reset_tx_frame fs), user_tx_desc := 0,
    fifo_tx_desc := 0, tx_bytes_in_frame := 0, tx_frame_size := 0\<rparr>"
  have at0: "frame_at (tx_descriptors ?s2) 0 = Some (reset_tx_frame (fs ! 0))"
    using assms(3) by (simp add: frame_at_def)
  let ?es = "[Queue_purge write_queue, Queue_purge write_queue2,
    Queue_start write_queue, Queue_start write_queue2]"
  show ?thesis
  proof (cases "fscc_port_uses_dma ?s2 = 0")
    case True
    with s1 show ?thesis
      by (intro exI [of _ s1] exI [of _ "emits ?es ?s2"]) (simp add: fscc_io_purge_tx_def)
  next
    case False
    with s1 at0 show ?thesis
      by (intro exI [of _ s1] exI [of _ "emits ?es (snd (fscc_port_set_register E 2
            DMA_TX_BASE_OFFSET (desc_physical_address (reset_tx_frame (fs ! 0))) ?s2))"])
        (simp add: fscc_io_purge_tx_def)
  qed
qed

lemma purge_rx_result:
  assumes "rx_descriptors s = Some fs" "unat (rx_num (memory s)) = length fs" "fs \<noteq> []"
  shows "\<exists>s1 s'. io_step s s1 \<and> fscc_io_purge_rx E s = Some (STATUS_SUCCESS, s') \<and>
    io_step (s1\<lparr>rx_descriptors := Some (map reset_rx_frame fs), user_rx_desc := 0,
      fifo_rx_desc := 0, rx_bytes_in_frame := 0, rx_frame_size := 0\<rparr>) s'"
proof -
  let ?ccr0 = "ucast (register_storage s ! reg_CCR0) :: u32"
  let ?s0 = "snd (fscc_port_set_register E 0 CCR0_OFFSET (?ccr0 OR 0x02000000) s)"
  have s0: "io_step s ?s0" by simp
  have fs0: "rx_descriptors ?s0 = Some fs" "unat (rx_num (memory ?s0)) = length fs"
    using assms by (simp_all add: io_stepD [OF s0])
  from reset_rx_result [OF this] obtain st s1 where s1: "io_step ?s0 s1"
    "fscc_io_reset_rx E ?s0 = Some (st, s1\<lparr>rx_descriptors :=
      Some (map reset_rx_frame fs), user_rx_desc := 0, fifo_rx_desc := 0,
      rx_bytes_in_frame := 0, rx_frame_size := 0\<rparr>)" by blast
  let ?s2 = "s1\<lparr>rx_descriptors := Some (map reset_rx_frame fs), user_rx_desc := 0,
    fifo_rx_desc := 0, rx_bytes_in_frame := 0, rx_frame_size := 0\<rparr>"
  have step1: "io_step s s1" using io_step_trans [OF s0 s1(1)] .
  have at0: "frame_at (rx_descriptors ?s2) 0 = Some (reset_rx_frame (fs ! 0))"
    using assms(3) by (simp add: frame_at_def)
  let ?es = "[Queue_purge read_queue, Queue_purge read_queue2,
    Queue_start read_queue, Queue_start read_queue2]"
  let ?fin = "\<lambda>t. snd (fscc_port_set_register E 0 CCR0_OFFSET ?ccr0 (emits ?es t))"
  have last: "io_step u (?fin t)" if "io_step u t" for u t
    using io_step_trans [OF emits_io_step [OF that] set_register_snd_io_step] by simp
  show ?thesis
  proof (cases "fscc_port_uses_dma ?s2 = 0")
    case True
    with s1 step1 last [of ?s2 ?s2] show ?thesis
      by (intro exI [of _ s1] exI [of _ "?fin ?s2"]) (simp add: fscc_io_purge_rx_def Let_def)
  next
    case False
    let ?s3 = "snd (fscc_dma_execute_GO_R E (snd (fscc_port_set_register E 2
      DMA_RX_BASE_OFFSET (desc_physical_address (reset_rx_frame (fs ! 0))) ?s2)))"
    have "io_step ?s2 ?s3"
      using io_step_trans [OF set_register_snd_io_step dma_execute_io_step(3)] .
    with False s1 step1 at0 last [of ?s2 ?s3] show ?thesis
      by (intro exI [of _ s1] exI [of _ "?fin ?s3"]) (simp add: fscc_io_purge_rx_def Let_def)
  qed
qed

end
