(* ===== verification/Fscc_Tx.thy ===== *)
theory Fscc_Tx
  imports Fscc_Frames
begin

text \<open>
  Transmission (\<open>io.c\<close>): a frame from user space is spread over free descriptors of the
  transmit ring, the FIFO is fed from the oldest filled descriptors, and the transmit
  command starts the frame. A descriptor with \<open>CSTOP\<close> is free. The abstraction of the
  ring is the queue of filled descriptors, which the user side extends at its end and
  the FIFO side takes from its front.
\<close>

section \<open>Model\<close>

text \<open>\<open>i\<close> counts down: \<open>n\<close> is the number of descriptors not looked at yet.\<close>

fun tx_space_loop :: "nat \<Rightarrow> u32 \<Rightarrow> nat \<Rightarrow> driver \<Rightarrow> nat option" where
  "tx_space_loop 0 cur_desc space s = Some space"
| "tx_space_loop (Suc n) cur_desc space s =
     do { f \<leftarrow> frame_at (tx_descriptors s) cur_desc;
          if frame_control f AND DESC_CSTOP_BIT \<noteq> DESC_CSTOP_BIT then Some space
          else tx_space_loop n (next_desc (tx_num (memory s)) cur_desc)
                 (space + unat (data_size f)) s }"

definition fscc_user_get_tx_space :: "driver \<Rightarrow> nat option" where
  "fscc_user_get_tx_space s = tx_space_loop (unat (tx_num (memory s))) (user_tx_desc s) 0 s"

definition transmit_command :: "u32 \<Rightarrow> u32 \<Rightarrow> i32 \<Rightarrow> u32" where
  "transmit_command start xrep modifiers =
     (let v = start;
          v = (if modifiers AND XREP \<noteq> 0 then v OR xrep else v);
          v = (if modifiers AND TXT \<noteq> 0 then v OR 0x10000000 else v)
      in if modifiers AND TXEXT \<noteq> 0 then v OR 0x20000000 else v)"

definition fscc_io_execute_transmit :: "env \<Rightarrow> bool \<Rightarrow> driver \<Rightarrow> driver" where
  "fscc_io_execute_transmit E dma s =
     (if dma
      then snd (fscc_port_set_register E 2 DMACCR_OFFSET
                  (transmit_command 0x00000002 0x40000000 (tx_modifiers s)) s)
      else snd (fscc_port_set_register E 0 CMDR_OFFSET
                  (transmit_command 0x01000000 0x02000000 (tx_modifiers s)) s))"

text \<open>The loop of \<open>fscc_user_write_frame\<close>: the status, \<open>*out_length\<close>, \<open>start_desc\<close> and
  the port. \<open>buf\<close> is the memory readable from the user's buffer.\<close>

definition fill_frame :: "bool \<Rightarrow> u32 \<Rightarrow> u32 \<Rightarrow> u8 list \<Rightarrow> dma_frame \<Rightarrow> dma_frame" where
  "fill_frame first data_length transmit_length bytes f =
     set_control (if first then (DESC_HI_BIT OR DESC_FE_BIT) OR data_length
                  else DESC_HI_BIT OR transmit_length)
       (set_data_count transmit_length (f\<lparr>buffer := bytes\<rparr>))"

fun write_frame_loop ::
  "u8 list \<Rightarrow> u32 \<Rightarrow> bool \<Rightarrow> nat \<Rightarrow> u32 \<Rightarrow> u32 \<Rightarrow> driver \<Rightarrow> (NTSTATUS \<times> u32 \<times> u32 \<times> driver) option" where
  "write_frame_loop buf data_length first 0 out_length start_desc s =
     Some (STATUS_SUCCESS, out_length, start_desc, s)"
| "write_frame_loop buf data_length first (Suc n) out_length start_desc s =
     do { f \<leftarrow> frame_at (tx_descriptors s) (user_tx_desc s);
          if frame_control f AND DESC_CSTOP_BIT \<noteq> DESC_CSTOP_BIT
          then Some (STATUS_BUFFER_TOO_SMALL, out_length, start_desc, s)
          else do {
            let start_desc = (if start_desc = 0 then desc_physical_address f else start_desc);
            let transmit_length = min (data_length - out_length) (data_size f);
            bytes \<leftarrow> rtl_copy (buffer f) 0 (drop (unat out_length) buf) (unat transmit_length);
            let out_length = out_length + transmit_length;
            let s = step_user_tx (fill_frame first data_length transmit_length bytes f) s;
            if out_length = data_length then Some (STATUS_SUCCESS, out_length, start_desc, s)
            else write_frame_loop buf data_length False n out_length start_desc s } }"

definition fscc_user_write_frame ::
  "env \<Rightarrow> u8 list \<Rightarrow> u32 \<Rightarrow> driver \<Rightarrow> (NTSTATUS \<times> u32 \<times> driver) option" where
  "fscc_user_write_frame E buf data_length s =
     do { (status, out_length, start_desc, s1) \<leftarrow>
            write_frame_loop buf data_length True (unat (tx_num (memory s))) 0 0 s;
          if fscc_port_uses_dma s1 \<noteq> 0
          then (let (running, s2) = fscc_dma_is_tx_running E s1
                in if running = 0
                   then Some (status, out_length, fscc_io_execute_transmit E True
                          (snd (fscc_port_set_register E 2 DMA_TX_BASE_OFFSET start_desc s2)))
                   else Some (status, out_length, s2))
          else Some (status, out_length, s1) }"

text \<open>The loop of \<open>fscc_fifo_write_data\<close>: \<open>frame_size\<close>, \<open>data_written\<close> and the port.\<close>

definition empty_frame :: "dma_frame \<Rightarrow> dma_frame" where
  "empty_frame f = set_control DESC_CSTOP_BIT (set_data_count 0 f)"

definition size_in_fifo :: "u32 \<Rightarrow> u32" where
  "size_in_fifo write_length = write_length + (4 - write_length mod 4)"

fun fifo_write_loop ::
  "env \<Rightarrow> u32 \<Rightarrow> nat \<Rightarrow> u32 \<Rightarrow> u32 \<Rightarrow> bool \<Rightarrow> driver \<Rightarrow> (u32 \<times> bool \<times> driver) option" where
  "fifo_write_loop E tfcnt 0 fifo_space frame_size data_written s = Some (frame_size, data_written, s)"
| "fifo_write_loop E tfcnt (Suc n) fifo_space frame_size data_written s =
     do { f \<leftarrow> frame_at (tx_descriptors s) (fifo_tx_desc s);
          let write_length = frame_count f;
          let stop = Some (frame_size, data_written, s);
          if frame_control f AND DESC_CSTOP_BIT = DESC_CSTOP_BIT then stop
          else if fifo_space < size_in_fifo write_length then stop
          else if frame_control f AND DESC_FE_BIT = DESC_FE_BIT \<and> (tfcnt > 255 \<or> frame_size \<noteq> 0) then stop
          else do {
            let frame_size = (if frame_control f AND DESC_FE_BIT = DESC_FE_BIT
                              then frame_control f AND DMA_MAX_LENGTH else frame_size);
            s1 \<leftarrow> fscc_port_set_register_rep 0 FIFO_OFFSET (buffer f) (unat write_length) s;
            fifo_write_loop E tfcnt n (fifo_space - size_in_fifo write_length) frame_size True
              (step_fifo_tx (empty_frame f) s1) } }"

definition fscc_fifo_write_data :: "env \<Rightarrow> driver \<Rightarrow> (bool \<times> driver) option" where
  "fscc_fifo_write_data E s =
     (let (tfcnt, s1) = fscc_io_get_TFCNT E s
      in if tfcnt > 254 then Some (False, s1)
      else (let (txcnt, s2) = fscc_io_get_TXCNT E s1;
                space = TX_FIFO_SIZE - txcnt - 1;
                fifo_space = space - space mod 4
      in if fifo_space > TX_FIFO_SIZE then Some (False, s2)
      else do {
        (frame_size, data_written, s3) \<leftarrow>
          fifo_write_loop E tfcnt (unat (tx_num (memory s2))) fifo_space 0 False s2;
        let s4 = (if frame_size \<noteq> 0
                  then snd (fscc_port_set_register E 0 BC_FIFO_L_OFFSET frame_size s3) else s3);
        Some (data_written, s4) }))"

definition fscc_io_transmit_frame :: "env \<Rightarrow> driver \<Rightarrow> (bool \<times> driver) option" where
  "fscc_io_transmit_frame E s =
     do { (result, s1) \<leftarrow> fscc_fifo_write_data E s;
          Some (result, if result then fscc_io_execute_transmit E False s1 else s1) }"

section \<open>The write request\<close>

definition complete :: "request \<Rightarrow> NTSTATUS \<Rightarrow> nat \<Rightarrow> driver \<Rightarrow> driver" where
  "complete req status information s = emit (Request_complete req status information) s"

definition forward :: "env \<Rightarrow> request \<Rightarrow> queue \<Rightarrow> driver \<Rightarrow> NTSTATUS \<times> driver" where
  "forward E req q s =
     (let status = forward_to_queue E (events s) req q in (status, emit (Request_forward req q status) s))"

definition FsccEvtIoWrite :: "env \<Rightarrow> request \<Rightarrow> nat \<Rightarrow> driver \<Rightarrow> driver option" where
  "FsccEvtIoWrite E req len s =
     (if len = 0 then Some (complete req STATUS_SUCCESS len s)
      else if len > unat (tx_size (memory s) * tx_num (memory s))
        then Some (complete req STATUS_BUFFER_TOO_SMALL 0 s)
      else if blocking_write s \<noteq> 0 then
        (let (status, s1) = forward E req blocking_request_queue s
         in if \<not> NT_SUCCESS status then Some (complete req status 0 s1)
            else Some (emit (Dpc_enqueue request_dpc) s1))
      else do {
        space \<leftarrow> fscc_user_get_tx_space s;
        if space < len then Some (complete req STATUS_BUFFER_TOO_SMALL 0 s)
        else (let (late, s1) = (if ignore_timeout s = FALSE then fscc_port_timed_out E s else (False, s))
        in if late then Some (complete req STATUS_IO_TIMEOUT 0 s1)
        else (let (status, data_buffer) = input_buffer E req len
        in if \<not> NT_SUCCESS status then Some (complete req status 0 s1)
        else do {
          (status, write_count, s2) \<leftarrow> fscc_user_write_frame E data_buffer (of_nat len) s1;
          if wait_on_write s2 \<noteq> 0 then
            (let (status, s3) = forward E req write_queue2 s2
             in if \<not> NT_SUCCESS status then Some (complete req status 0 s3)
                else Some (if fscc_port_uses_dma s3 = 0 then emit (Dpc_enqueue oframe_dpc) s3 else s3))
          else
            (let s3 = complete req status (unat write_count) s2
             in Some (if fscc_port_uses_dma s3 = 0 then emit (Dpc_enqueue oframe_dpc) s3 else s3)) })) })"

section \<open>The transmit ring as a queue\<close>

definition tx_filled :: "dma_frame \<Rightarrow> bool" where
  "tx_filled f \<longleftrightarrow> frame_control f AND DESC_CSTOP_BIT \<noteq> DESC_CSTOP_BIT"

definition tx_view :: "driver \<Rightarrow> dma_frame list" where
  "tx_view s = view_from (tx_descriptors s) (user_tx_desc s)"

definition tx_queue :: "driver \<Rightarrow> dma_frame list" where
  "tx_queue s = dropWhile (\<lambda>f. \<not> tx_filled f) (tx_view s)"

definition tx_free :: "driver \<Rightarrow> dma_frame list" where
  "tx_free s = takeWhile (\<lambda>f. \<not> tx_filled f) (tx_view s)"

definition tx_count_ok :: "dma_frame \<Rightarrow> bool" where
  "tx_count_ok f \<longleftrightarrow> frame_count f \<le> data_size f \<and>
     (if bit (frame_control f) 31 then frame_control f AND DMA_MAX_LENGTH \<noteq> 0 else True)"

text \<open>The invariant: the ring exists and has as many frames as the port says, the free
  descriptors are the ones from the user cursor up to the first filled one, every frame is
  within its buffer, and the start of a frame carries its length. When \<open>fifo\<close> holds, the
  FIFO cursor is in step: it is at the first filled descriptor. The DMA engine does not
  move this cursor, so that with DMA the other parts are all that can be relied on.\<close>

definition tx_ring_ok :: "bool \<Rightarrow> driver \<Rightarrow> bool" where
  "tx_ring_ok fifo s \<longleftrightarrow>
     ring_at (tx_descriptors s) (tx_num (memory s)) (user_tx_desc s) \<and>
     list_all tx_filled (tx_queue s) \<and>
     list_all frame_ok (tx_view s) \<and> list_all tx_count_ok (tx_queue s) \<and>
     (fifo \<longrightarrow> unat (fifo_tx_desc s) =
       (unat (user_tx_desc s) + length (tx_free s)) mod unat (tx_num (memory s)))"

text \<open>What a filled descriptor stands for: whether it starts a frame, the count in its
  control word (of the frame for the first descriptor, of the descriptor for the others)
  and its bytes.\<close>

definition tx_entry :: "dma_frame \<Rightarrow> bool \<times> nat \<times> u8 list" where
  "tx_entry f = (bit (frame_control f) 31, unat (frame_control f AND DMA_MAX_LENGTH),
     take (unat (frame_count f)) (buffer f))"

text \<open>How a frame is spread over free descriptors of the given sizes.\<close>

fun split_frame :: "bool \<Rightarrow> nat \<Rightarrow> u8 list \<Rightarrow> nat list \<Rightarrow> (bool \<times> nat \<times> u8 list) list" where
  "split_frame first len data [] = []"
| "split_frame first len data (n # ns) =
     (if length data \<le> n then [(first, if first then len else length data, data)]
      else (first, if first then len else n, take n data) # split_frame False len (drop n data) ns)"

abbreviation (input) tx_space :: "dma_frame list \<Rightarrow> nat" where
  "tx_space fs \<equiv> sum_list (map (\<lambda>f. unat (data_size f)) fs)"

lemma split_frame_bytes:
  "length data \<le> sum_list ns \<Longrightarrow> concat (map (\<lambda>e. snd (snd e)) (split_frame first len data ns)) = data"
  by (induction first len data ns rule: split_frame.induct) auto

text \<open>The invariant with the queue and the free descriptors named.\<close>

definition tx_state :: "bool \<Rightarrow> driver \<Rightarrow> dma_frame list \<Rightarrow> dma_frame list \<Rightarrow> bool" where
  "tx_state fifo s P F \<longleftrightarrow> ring_at (tx_descriptors s) (tx_num (memory s)) (user_tx_desc s) \<and>
     tx_view s = F @ P \<and> list_all tx_filled P \<and> list_all (\<lambda>f. \<not> tx_filled f) F \<and>
     list_all frame_ok (P @ F) \<and> list_all tx_count_ok P \<and>
     (fifo \<longrightarrow> unat (fifo_tx_desc s) = (unat (user_tx_desc s) + length F) mod unat (tx_num (memory s)))"

lemma tx_ring_ok_state: "tx_ring_ok fifo s \<Longrightarrow> tx_state fifo s (tx_queue s) (tx_free s)"
proof -
  assume ok: "tx_ring_ok fifo s"
  have split: "tx_free s @ tx_queue s = tx_view s" by (simp add: tx_free_def tx_queue_def)
  have "list_all frame_ok (tx_free s @ tx_queue s)" unfolding split using ok by (simp add: tx_ring_ok_def)
  then have "list_all frame_ok (tx_free s)" "list_all frame_ok (tx_queue s)" by simp_all
  moreover have "list_all (\<lambda>f. \<not> tx_filled f) (tx_free s)"
    by (auto simp: tx_free_def list_all_iff dest: set_takeWhileD)
  ultimately show ?thesis using ok split by (simp add: tx_ring_ok_def tx_state_def )
qed

lemma tx_state_queue:
  assumes "tx_state fifo s P F"
  shows "tx_queue s = P" "tx_free s = F" "tx_ring_ok fifo s"
proof -
  have "takeWhile (\<lambda>f. \<not> tx_filled f) (F @ P) = F" "dropWhile (\<lambda>f. \<not> tx_filled f) (F @ P) = P"
    using assms by (cases P; auto simp: tx_state_def list_all_iff takeWhile_append dropWhile_append)+
  then show "tx_queue s = P" "tx_free s = F" "tx_ring_ok fifo s"
    using assms by (auto simp: tx_ring_ok_def tx_queue_def tx_free_def tx_state_def)
qed

lemma tx_state_num:
  "tx_state fifo s P F \<Longrightarrow> unat (tx_num (memory s)) = length P + length F"
  using user_tx.length_view [of s] by (auto simp: tx_state_def tx_view_def)

text \<open>The two steps on the ring.\<close>

lemma tx_state_put:
  assumes "tx_state fifo s P (f # F)" "tx_filled f'" "frame_ok f'" "tx_count_ok f'"
  shows "frame_at (tx_descriptors s) (user_tx_desc s) = Some f"
    and "tx_state fifo (step_user_tx f' s) (P @ [f']) F"
proof -
  have ring: "ring_at (tx_descriptors s) (tx_num (memory s)) (user_tx_desc s)"
    and view: "view_from (tx_descriptors s) (user_tx_desc s) = f # F @ P"
    using assms(1) by (simp_all add: tx_state_def tx_view_def)
  from user_tx.frame_at_cursor [OF ring] view
  show "frame_at (tx_descriptors s) (user_tx_desc s) = Some f" by simp
  from user_tx.view_step [OF ring, of f'] view
  have "tx_view (step_user_tx f' s) = F @ P @ [f']" by (simp add: tx_view_def)
  moreover have "memory (step_user_tx f' s) = memory s" by (simp add: step_user_tx_def)
  ultimately show "tx_state fifo (step_user_tx f' s) (P @ [f']) F"
    using assms user_tx.ring_step [OF ring, of f'] tx.take_apart [OF ring, of "length F" f']
    by (simp add: tx_state_def)
qed

lemma tx_state_full:
  assumes "tx_state fifo s (f # P) []"
  shows "frame_at (tx_descriptors s) (user_tx_desc s) = Some f"
  using assms user_tx.frame_at_cursor [of s] by (simp add: tx_state_def tx_view_def)

lemma tx_state_take:
  assumes "tx_state True s (f # P) F" "\<not> tx_filled f'" "frame_ok f'"
  shows "frame_at (tx_descriptors s) (fifo_tx_desc s) = Some f"
    and "tx_state True (step_fifo_tx f' s) P (F @ [f'])"
proof -
  have ring: "ring_at (tx_descriptors s) (tx_num (memory s)) (user_tx_desc s)"
    and view: "view_from (tx_descriptors s) (user_tx_desc s) = F @ f # P"
    and apart: "unat (fifo_tx_desc s) =
      (unat (user_tx_desc s) + length F) mod unat (tx_num (memory s))"
    and k: "length F < unat (tx_num (memory s))"
    using assms(1) tx_state_num [OF assms(1)] by (simp_all add: tx_state_def tx_view_def)
  from tx.frame_at_rear [OF ring apart k] view
  show "frame_at (tx_descriptors s) (fifo_tx_desc s) = Some f" by simp
  from tx.put_view [OF ring apart k, of f'] view
  have "tx_view (step_fifo_tx f' s) = (F @ [f']) @ P" by (simp add: tx_view_def)
  moreover have "memory (step_fifo_tx f' s) = memory s" by (simp add: step_fifo_tx_def)
  ultimately show "tx_state True (step_fifo_tx f' s) P (F @ [f'])"
    using assms tx.put_ring [OF ring, of f'] tx.put_apart [OF ring apart, of f']
    by (simp add: tx_state_def)
qed

lemma tx_state_idle:
  assumes "tx_state True s [] F"
  shows "frame_at (tx_descriptors s) (fifo_tx_desc s) = Some (hd F)" "F \<noteq> []"
proof -
  have ring: "ring_at (tx_descriptors s) (tx_num (memory s)) (user_tx_desc s)"
    and view: "view_from (tx_descriptors s) (user_tx_desc s) = F"
    using assms by (simp_all add: tx_state_def tx_view_def)
  have "fifo_tx_desc s = user_tx_desc s"
    using assms tx_state_num [OF assms] ring_at_less [OF ring]
    by (simp add: tx_state_def word_unat_eq_iff)
  with user_tx.frame_at_cursor [OF ring] user_tx.view_nonempty [OF ring] view
  show "frame_at (tx_descriptors s) (fifo_tx_desc s) = Some (hd F)" "F \<noteq> []" by simp_all
qed

lemma tx_state_cong:
  "tx_state fifo s P F \<Longrightarrow> tx_descriptors t = tx_descriptors s \<Longrightarrow> memory t = memory s \<Longrightarrow>
   fifo_tx_desc t = fifo_tx_desc s \<Longrightarrow> user_tx_desc t = user_tx_desc s \<Longrightarrow> tx_state fifo t P F"
  by (simp add: tx_state_def tx_view_def)

lemma tx_state_io_step: "tx_state fifo s P F \<Longrightarrow> io_step s t \<Longrightarrow> tx_state fifo t P F"
  by (erule tx_state_cong) (simp_all add: io_stepD)

section \<open>What the user side does\<close>

lemma tx_space_loop_scan:
  "ring_at (tx_descriptors s) (tx_num (memory s)) cur \<Longrightarrow> view_from (tx_descriptors s) cur = V \<Longrightarrow>
   n \<le> length V \<Longrightarrow>
   tx_space_loop n cur sp s = Some (sp + tx_space (takeWhile (\<lambda>f. \<not> tx_filled f) (take n V)))"
proof (induction n arbitrary: cur sp V)
  case 0
  then show ?case by simp
next
  case (Suc n)
  then obtain f fs where V: "V = f # fs" by (cases V) auto
  from scan_ring [OF Suc.prems(1,2) [unfolded V]]
  have here: "frame_at (tx_descriptors s) cur = Some f" and
    rest: "ring_at (tx_descriptors s) (tx_num (memory s)) (next_desc (tx_num (memory s)) cur)"
    "view_from (tx_descriptors s) (next_desc (tx_num (memory s)) cur) = fs @ [f]" .
  show ?case
  proof (cases "tx_filled f")
    case True
    with here V show ?thesis by (simp add: tx_filled_def)
  next
    case False
    with here V Suc.IH [OF rest] Suc.prems(3) show ?thesis by (simp add: tx_filled_def)
  qed
qed

lemma tx_space_result:
  assumes "tx_state fifo s P F"
  shows "fscc_user_get_tx_space s = Some (tx_space F)"
proof -
  have ring: "ring_at (tx_descriptors s) (tx_num (memory s)) (user_tx_desc s)"
    and view: "view_from (tx_descriptors s) (user_tx_desc s) = F @ P"
    using assms by (simp_all add: tx_state_def tx_view_def)
  have "takeWhile (\<lambda>f. \<not> tx_filled f) (F @ P) = F"
    using assms by (cases P; auto simp: tx_state_def list_all_iff takeWhile_append)
  with tx_space_loop_scan [OF ring view, of "unat (tx_num (memory s))"] tx_state_num [OF assms]
  show ?thesis by (simp add: fscc_user_get_tx_space_def)
qed

text \<open>One filled descriptor.\<close>

lemma and_max_length: "(c :: u32) AND DMA_MAX_LENGTH = take_bit 29 c"
  by (rule take_bit_29_and)

lemma fill_frame_entry:
  assumes f: "frame_ok f" and cn: "cn \<le> data_size f" and bytes: "length bytes = length (buffer f)"
    and cnt: "cnt = (if first then len else cn)" "unat cnt < 2 ^ 29" "len \<noteq> 0"
  shows "tx_filled (fill_frame first len cn bytes f)" "frame_ok (fill_frame first len cn bytes f)"
    "tx_count_ok (fill_frame first len cn bytes f)"
    "tx_entry (fill_frame first len cn bytes f) = (first, unat cnt, take (unat cn) bytes)"
    "data_size (fill_frame first len cn bytes f) = data_size f"
proof -
  have ctl: "frame_control (fill_frame first len cn bytes f) =
      (if first then (DESC_HI_BIT OR DESC_FE_BIT) OR cnt else DESC_HI_BIT OR cnt)"
    by (simp add: fill_frame_def cnt(1))
  have small: "take_bit 29 cnt = cnt" by (rule unat_less_exp [OF cnt(2)]) simp_all
  then have cbits: "\<not> bit cnt 30" "\<not> bit cnt 31"
    using bit_take_bit_iff [of 29 cnt 30] bit_take_bit_iff [of 29 cnt 31] by simp_all
  show "tx_filled (fill_frame first len cn bytes f)"
    using cbits by (simp add: tx_filled_def ctl bit_tests bit_or_iff)
  have "take_bit 29 (0x20000000 :: u32) = 0" "take_bit 29 (0xA0000000 :: u32) = 0"
    by (simp_all add: take_bit_29_and [symmetric])
  then have max: "frame_control (fill_frame first len cn bytes f) AND DMA_MAX_LENGTH = cnt"
    unfolding ctl and_max_length by (simp add: take_bit_or small)
  have start: "bit (frame_control (fill_frame first len cn bytes f)) 31 = first"
    using cbits by (simp add: ctl bit_or_iff bit_tests)
  from max start show "tx_entry (fill_frame first len cn bytes f) = (first, unat cnt, take (unat cn) bytes)"
    by (simp add: tx_entry_def fill_frame_def)
  show "frame_ok (fill_frame first len cn bytes f)" using f bytes
    by (simp add: frame_ok_def fill_frame_def)
  show "tx_count_ok (fill_frame first len cn bytes f)"
    unfolding tx_count_ok_def max start using cn cnt by (simp add: fill_frame_def)
  show "data_size (fill_frame first len cn bytes f) = data_size f" by (simp add: fill_frame_def)
qed

text \<open>What the user side may change.\<close>

definition user_tx_change :: "driver \<Rightarrow> driver \<Rightarrow> bool" where
  "user_tx_change s s' \<longleftrightarrow> s' = s\<lparr>tx_descriptors := tx_descriptors s', user_tx_desc := user_tx_desc s'\<rparr>"

lemma user_tx_change_refl [simp]: "user_tx_change s s"
  by (simp add: user_tx_change_def)

lemma user_tx_change_trans: "user_tx_change s t \<Longrightarrow> user_tx_change t u \<Longrightarrow> user_tx_change s u"
proof -
  assume 1: "user_tx_change s t" and 2: "user_tx_change t u"
  have "t\<lparr>tx_descriptors := d, user_tx_desc := c\<rparr> = s\<lparr>tx_descriptors := d, user_tx_desc := c\<rparr>" for d c
    by (subst 1 [unfolded user_tx_change_def]) simp
  with 2 show "user_tx_change s u" unfolding user_tx_change_def by simp
qed

lemma user_tx_change_step [simp]: "user_tx_change s (step_user_tx f s)"
  by (simp add: user_tx_change_def step_user_tx_def)

text \<open>Where a descriptor is and where it leads, which writing a frame leaves alone.\<close>

definition frame_link :: "dma_frame \<Rightarrow> u32 \<times> u32" where
  "frame_link f = (desc_physical_address f, next_descriptor (desc f))"

lemma fill_frame_link: "frame_link (fill_frame first len c bytes f) = frame_link f"
  by (simp add: frame_link_def fill_frame_def)

text \<open>One descriptor of a frame: the bytes it takes, and where the loop goes from there.\<close>

definition filled_part :: "bool \<Rightarrow> u32 \<Rightarrow> nat \<Rightarrow> u8 list \<Rightarrow> dma_frame \<Rightarrow> dma_frame" where
  "filled_part first len out buf f =
     (let c = min (len - of_nat out) (data_size f)
      in fill_frame first len c (take (unat c) (drop out buf) @ drop (unat c) (buffer f)) f)"

lemma part_size:
  assumes "out < unat len"
  shows "unat (min (len - of_nat out) (data_size f)) = min (unat len - out) (unat (data_size f))"
    "unat (of_nat out :: u32) = out"
proof -
  have "unat len < 2 ^ LENGTH(32)" by (rule unsigned_less)
  with assms show o: "unat (of_nat out :: u32) = out" by (simp add: unsigned_of_nat take_bit_nat_eq_self)
  then have "unat (len - of_nat out) = unat len - out"
    using assms by (simp add: unat_sub word_le_nat_alt)
  then show "unat (min (len - of_nat out) (data_size f)) = min (unat len - out) (unat (data_size f))"
    by (simp add: min_def word_le_nat_alt)
qed

lemma filled_part_entry:
  assumes "frame_ok f" "out < unat len" "unat len < 2 ^ 29" "unat len \<le> length buf"
  shows "tx_filled (filled_part first len out buf f)" "frame_ok (filled_part first len out buf f)"
    "tx_count_ok (filled_part first len out buf f)"
    "tx_entry (filled_part first len out buf f) =
      (first, if first then unat len else min (unat len - out) (unat (data_size f)),
        take (min (unat len - out) (unat (data_size f))) (drop out buf))"
    "frame_link (filled_part first len out buf f) = frame_link f"
proof -
  define c where "c = min (len - of_nat out) (data_size f)"
  let ?bytes = "take (unat c) (drop out buf) @ drop (unat c) (buffer f)"
  have c: "unat c = min (unat len - out) (unat (data_size f))" "c \<le> data_size f"
    using part_size(1) [OF assms(2)] by (simp_all add: c_def)
  have f': "filled_part first len out buf f = fill_frame first len c ?bytes f"
    by (simp add: filled_part_def Let_def c_def)
  have "length ?bytes = length (buffer f)" using assms c(1) by (simp add: frame_ok_def)
  moreover have "unat (if first then len else c) < 2 ^ 29" "len \<noteq> 0" using c(1) assms(2,3) by auto
  ultimately have entry: "tx_filled (filled_part first len out buf f)" "frame_ok (filled_part first len out buf f)"
    "tx_count_ok (filled_part first len out buf f)"
    "tx_entry (filled_part first len out buf f) = (first, unat (if first then len else c), take (unat c) ?bytes)"
    unfolding f' using fill_frame_entry [OF assms(1) c(2) _ refl] by blast+
  have "take (unat c) ?bytes = take (unat c) (drop out buf)" using assms(4) c(1) by simp
  with entry c(1) show "tx_filled (filled_part first len out buf f)" "frame_ok (filled_part first len out buf f)"
    "tx_count_ok (filled_part first len out buf f)"
    "tx_entry (filled_part first len out buf f) =
      (first, if first then unat len else min (unat len - out) (unat (data_size f)),
        take (min (unat len - out) (unat (data_size f))) (drop out buf))" by simp_all
  show "frame_link (filled_part first len out buf f) = frame_link f" by (simp add: f' fill_frame_link)
qed

lemma write_frame_step:
  assumes "tx_state fifo s P (f # F)" "out < unat len" "unat len < 2 ^ 29" "unat len \<le> length buf"
    and "f' = filled_part first len out buf f" "st = (if start = 0 then desc_physical_address f else start)"
  shows "write_frame_loop buf len first (Suc n) (of_nat out) start s =
      (if unat len - out \<le> unat (data_size f) then Some (STATUS_SUCCESS, len, st, step_user_tx f' s)
       else write_frame_loop buf len False n (of_nat (out + unat (data_size f))) st (step_user_tx f' s))"
    and "tx_state fifo (step_user_tx f' s) (P @ [f']) F"
proof -
  from assms(1) have fok: "frame_ok f" and free: "\<not> tx_filled f" by (auto simp: tx_state_def)
  define c where "c = min (len - of_nat out) (data_size f)"
  have c: "unat c = min (unat len - out) (unat (data_size f))" using part_size(1) [OF assms(2)] by (simp add: c_def)
  have copy: "rtl_copy (buffer f) 0 (drop out buf) (unat c) = Some (take (unat c) (drop out buf) @ drop (unat c) (buffer f))"
    using fok assms(4) c by (subst rtl_copy_Some) (auto simp: frame_ok_def)
  note put = tx_state_put [OF assms(1) filled_part_entry(1-3) [OF fok assms(2-4), where first = first], folded assms(5)]
  from put(2) show "tx_state fifo (step_user_tx f' s) (P @ [f']) F" .
  have "unat len < 2 ^ LENGTH(32)" by (rule unsigned_less)
  then have sum: "unat (of_nat out + c) = out + unat c"
    using c assms(2) part_size(2) [OF assms(2)] by (simp add: unat_word_ariths)
  have fin: "of_nat out + c = len \<longleftrightarrow> unat len - out \<le> unat (data_size f)"
    using c assms(2) sum by (auto simp: word_unat_eq_iff)
  have "of_nat out + c = of_nat (out + unat (data_size f))" if "\<not> unat len - out \<le> unat (data_size f)"
  proof -
    have "c = data_size f" using c that by (simp add: min_def word_unat_eq_iff)
    then show ?thesis by simp
  qed
  with fin put(1) free copy show "write_frame_loop buf len first (Suc n) (of_nat out) start s =
      (if unat len - out \<le> unat (data_size f) then Some (STATUS_SUCCESS, len, st, step_user_tx f' s)
       else write_frame_loop buf len False n (of_nat (out + unat (data_size f))) st (step_user_tx f' s))"
    by (simp add: tx_filled_def Let_def part_size(2) [OF assms(2)] filled_part_def assms(5,6) c_def [symmetric])
qed

lemma write_frame_loop_fills:
  assumes "tx_state fifo s P F" and room: "unat len - out \<le> tx_space F" and out: "out < unat len"
    and len: "unat len < 2 ^ 29" "unat len \<le> length buf" and n: "length F \<le> n"
  shows "\<exists>start' s' P' F'. write_frame_loop buf len first n (of_nat out) start s =
      Some (STATUS_SUCCESS, len, start', s') \<and> tx_state fifo s' (P @ P') F' \<and> user_tx_change s s' \<and>
      map tx_entry P' = split_frame first (unat len) (drop out (take (unat len) buf))
        (map (\<lambda>f. unat (data_size f)) F) \<and> map frame_link (P' @ F') = map frame_link F \<and>
      (0 \<in> set (map desc_physical_address F) \<or>
       start' = (if start = 0 then desc_physical_address (hd F) else start))"
  using assms
proof (induction n arbitrary: s P F first out start)
  case 0
  then show ?case by simp
next
  case (Suc n)
  from Suc.prems(2,3) obtain f F2 where F: "F = f # F2" by (cases F) auto
  note state = Suc.prems(1) [unfolded F]
  have fok: "frame_ok f" using state by (simp add: tx_state_def)
  note entry = filled_part_entry [OF fok Suc.prems(3-5), where first = first]
  note run = write_frame_step(1) [where first = first and start = start and n = n, OF state Suc.prems(3-5) refl refl]
  note keep = write_frame_step(2) [OF state Suc.prems(3-5) refl refl, where first = first]
  let ?f' = "filled_part first len out buf f" and ?d = "unat (data_size f)"
  let ?st = "if start = 0 then desc_physical_address f else start"
  show ?case
  proof (cases "unat len - out \<le> ?d")
    case True
    then have "min (unat len - out) ?d = unat len - out" by simp
    then have "[tx_entry ?f'] = split_frame first (unat len) (drop out (take (unat len) buf))
        (map (\<lambda>f. unat (data_size f)) F)"
      using True entry(4) Suc.prems(3,5) by (simp add: F drop_take)
    with True run keep entry(5) show ?thesis
      by (intro exI [of _ ?st] exI [of _ "step_user_tx ?f' s"] exI [of _ "[?f']"] exI [of _ F2]) (simp add: F)
  next
    case False
    then have "unat len - (out + ?d) \<le> tx_space F2" "out + ?d < unat len" "length F2 \<le> n"
      using Suc.prems(2,6) F by auto
    from Suc.IH [OF keep this(1,2) Suc.prems(4,5) this(3), of False ?st]
    obtain start' s' P' F' where IH: "write_frame_loop buf len False n (of_nat (out + ?d)) ?st
        (step_user_tx ?f' s) = Some (STATUS_SUCCESS, len, start', s')"
      "tx_state fifo s' ((P @ [?f']) @ P') F'" "user_tx_change (step_user_tx ?f' s) s'"
      "map tx_entry P' = split_frame False (unat len) (drop (out + ?d) (take (unat len) buf))
        (map (\<lambda>f. unat (data_size f)) F2)" "map frame_link (P' @ F') = map frame_link F2"
      "0 \<in> set (map desc_physical_address F2) \<or>
       start' = (if ?st = 0 then desc_physical_address (hd F2) else ?st)" by blast
    have "split_frame first (unat len) (drop out (take (unat len) buf)) (map (\<lambda>f. unat (data_size f)) F)
        = tx_entry ?f' # map tx_entry P'"
      using False entry(4) Suc.prems(5) IH(4) by (simp add: F take_drop min_def add.commute)
    moreover have "0 \<in> set (map desc_physical_address F) \<or>
        start' = (if start = 0 then desc_physical_address (hd F) else start)" using IH(6) by (auto simp: F)
    ultimately show ?thesis
      using False IH(1,2,5) run entry(5) user_tx_change_trans [OF user_tx_change_step IH(3)]
      by (intro exI [of _ start'] exI [of _ s'] exI [of _ "?f' # P'"] exI [of _ F']) (simp add: F)
  qed
qed

lemma dma_is_tx_running_io_step: "fscc_dma_is_tx_running E s = (r, s') \<Longrightarrow> io_step s s'"
  by (auto simp: fscc_dma_is_tx_running_def Let_def split: prod.splits dest: get_register_io_step)

lemma execute_transmit_io_step [simp]: "io_step s (fscc_io_execute_transmit E dma s)"
  by (simp add: fscc_io_execute_transmit_def)

lemma user_write_frame_result:
  assumes state: "tx_state fifo s P F" and room: "unat len \<le> tx_space F" "0 < unat len"
    and len: "unat len < 2 ^ 29" "unat len \<le> length buf"
  shows "\<exists>s1 s' P' F'. fscc_user_write_frame E buf len s = Some (STATUS_SUCCESS, len, s') \<and>
      user_tx_change s s1 \<and> io_step s1 s' \<and> tx_state fifo s' (P @ P') F' \<and>
      map tx_entry P' = split_frame True (unat len) (take (unat len) buf)
        (map (\<lambda>f. unat (data_size f)) F)"
proof -
  have n: "length F \<le> unat (tx_num (memory s))" using tx_state_num [OF state] by simp
  from room have room': "unat len - 0 \<le> tx_space F" by simp
  from write_frame_loop_fills [OF state room' room(2) len n, of True 0]
  obtain start' s1 P' F' where loop: "write_frame_loop buf len True (unat (tx_num (memory s))) 0 0 s =
      Some (STATUS_SUCCESS, len, start', s1)" "tx_state fifo s1 (P @ P') F'" "user_tx_change s s1"
      "map tx_entry P' = split_frame True (unat len) (take (unat len) buf)
        (map (\<lambda>f. unat (data_size f)) F)" by auto
  obtain running s2 where r: "fscc_dma_is_tx_running E s1 = (running, s2)" by fastforce
  let ?s3 = "fscc_io_execute_transmit E True
    (snd (fscc_port_set_register E 2 DMA_TX_BASE_OFFSET start' s2))"
  let ?s' = "if fscc_port_uses_dma s1 \<noteq> 0 then (if running = 0 then ?s3 else s2) else s1"
  have "io_step s1 s2" by (rule dma_is_tx_running_io_step [OF r])
  moreover have "io_step s2 ?s3"
    using io_step_trans [OF set_register_snd_io_step execute_transmit_io_step] .
  ultimately have step: "io_step s1 ?s'" by (auto intro: io_step_trans)
  have "fscc_user_write_frame E buf len s = Some (STATUS_SUCCESS, len, ?s')"
    using loop(1) r by (simp add: fscc_user_write_frame_def)
  with step loop tx_state_io_step [OF loop(2) step] show ?thesis by blast
qed

section \<open>What the FIFO side does\<close>

text \<open>The words a descriptor sends to the FIFO, and the space it is counted for.\<close>

definition fifo_words :: "fscc_card \<Rightarrow> dma_frame \<Rightarrow> event list" where
  "fifo_words c f = map (wr c 0 FIFO_OFFSET) (le_words (words_for (unat (frame_count f))) (buffer f))"

definition tx_starts :: "dma_frame list \<Rightarrow> dma_frame list" where
  "tx_starts fs = filter (\<lambda>f. bit (frame_control f) 31) fs"

definition fifo_size :: "dma_frame list \<Rightarrow> nat" where
  "fifo_size fs = sum_list (map (\<lambda>f. unat (size_in_fifo (frame_count f))) fs)"

lemma quiet_fifo_words: "list_all quiet (concat (map (fifo_words c) Q))"
  by (induction Q) (simp_all add: fifo_words_def)

lemma unat_size_in_fifo:
  assumes "unat c < 2 ^ 29"
  shows "unat (size_in_fifo c) = unat c + (4 - unat c mod 4)"
proof -
  have m: "unat (c mod 4) = unat c mod 4" by (simp add: unat_mod_distrib)
  have "c mod 4 < 4" by (simp add: word_mod_less_divisor)
  then have "unat (4 - c mod 4) = 4 - unat c mod 4" using m by (simp add: unat_sub less_imp_le)
  with assms show ?thesis by (simp add: size_in_fifo_def unat_word_ariths)
qed

lemma words_for_fits:
  "unat c < 2 ^ 29 \<Longrightarrow> 4 * words_for (unat c) \<le> unat (size_in_fifo c)"
  by (simp add: unat_size_in_fifo words_for_def) presburger

lemma filled_frame_bounds:
  assumes "frame_ok f" "tx_count_ok f"
  shows "unat (frame_count f) < 2 ^ 29" "4 * words_for (unat (frame_count f)) \<le> length (buffer f)"
proof -
  from assms have c: "unat (frame_count f) \<le> unat (data_size f)"
    and s: "unat (data_size f) mod 4 = 0" "unat (data_size f) < 2 ^ 29"
    "length (buffer f) = unat (data_size f)"
    by (auto simp: tx_count_ok_def frame_ok_def word_le_nat_alt)
  from c s show "unat (frame_count f) < 2 ^ 29" by simp
  from c s show "4 * words_for (unat (frame_count f)) \<le> length (buffer f)"
    unfolding words_for_def by presburger
qed

lemma send_frame:
  assumes "frame_ok f" "tx_count_ok f"
  shows "fscc_port_set_register_rep 0 FIFO_OFFSET (buffer f) (unat (frame_count f)) s =
    Some (emits (fifo_words (port_card s) f) s)"
  using filled_frame_bounds [OF assms]
  by (auto simp: fscc_port_set_register_rep_def fscc_card_set_register_rep_eq fifo_words_def
      words_for_def)

lemma empty_frame_simps:
  "frame_ok (empty_frame f) = frame_ok f" "\<not> tx_filled (empty_frame f)"
  by (simp_all add: empty_frame_def frame_ok_def tx_filled_def)

definition fifo_tx_change :: "driver \<Rightarrow> driver \<Rightarrow> bool" where
  "fifo_tx_change s s' \<longleftrightarrow> s' = s\<lparr>tx_descriptors := tx_descriptors s',
     fifo_tx_desc := fifo_tx_desc s', events := events s'\<rparr>"

lemma fifo_tx_change_refl [simp]: "fifo_tx_change s s"
  by (simp add: fifo_tx_change_def)

lemma fifo_tx_change_trans: "fifo_tx_change s t \<Longrightarrow> fifo_tx_change t u \<Longrightarrow> fifo_tx_change s u"
proof -
  assume 1: "fifo_tx_change s t" and 2: "fifo_tx_change t u"
  have "t\<lparr>tx_descriptors := d, fifo_tx_desc := c, events := e\<rparr> =
      s\<lparr>tx_descriptors := d, fifo_tx_desc := c, events := e\<rparr>" for d c e
    by (subst 1 [unfolded fifo_tx_change_def]) simp
  with 2 show "fifo_tx_change s u" unfolding fifo_tx_change_def by simp
qed

lemma fifo_tx_change_step [simp]: "fifo_tx_change s (step_fifo_tx f (emits es s))"
  by (simp add: fifo_tx_change_def step_fifo_tx_def emits_def)

lemma fifo_tx_change_sel:
  assumes "fifo_tx_change s s'"
  shows "port_card s' = port_card s" "memory s' = memory s" "user_tx_desc s' = user_tx_desc s"
    "channel s' = channel s" "register_storage s' = register_storage s"
    "rx_descriptors s' = rx_descriptors s" "user_rx_desc s' = user_rx_desc s"
    "fifo_rx_desc s' = fifo_rx_desc s"
  by (subst assms [unfolded fifo_tx_change_def], simp)+

text \<open>Why the loop stops before a filled descriptor.\<close>

definition fifo_stop :: "u32 \<Rightarrow> u32 \<Rightarrow> nat \<Rightarrow> dma_frame list \<Rightarrow> bool" where
  "fifo_stop tfcnt frame_size space R \<longleftrightarrow>
     (case R of [] \<Rightarrow> True
      | f # _ \<Rightarrow> space < unat (size_in_fifo (frame_count f)) \<or>
                bit (frame_control f) 31 \<and> (tfcnt > 255 \<or> frame_size \<noteq> 0))"

text \<open>What a pass that sent the descriptors \<open>Q\<close> and left \<open>R\<close> did with the room and the frame size.\<close>

definition pass_sends :: "u32 \<Rightarrow> u32 \<Rightarrow> nat \<Rightarrow> dma_frame list \<Rightarrow> dma_frame list \<Rightarrow> u32 \<Rightarrow> bool" where
  "pass_sends tfcnt frame_size space Q R fsz \<longleftrightarrow>
     fifo_size Q \<le> space \<and> fifo_stop tfcnt fsz (space - fifo_size Q) R \<and>
     (if frame_size \<noteq> 0 then tx_starts Q = [] \<and> fsz = frame_size
      else case tx_starts Q of [] \<Rightarrow> fsz = 0
           | f # fs \<Rightarrow> fs = [] \<and> fsz = frame_control f AND DMA_MAX_LENGTH \<and> fsz \<noteq> 0)"

text \<open>What keeps the loop from sending a descriptor, and the frame size after sending it.\<close>

definition held_back :: "u32 \<Rightarrow> u32 \<Rightarrow> u32 \<Rightarrow> dma_frame \<Rightarrow> bool" where
  "held_back tfcnt frame_size space f \<longleftrightarrow> space < size_in_fifo (frame_count f) \<or>
     bit (frame_control f) 31 \<and> (tfcnt > 255 \<or> frame_size \<noteq> 0)"

definition size_after :: "dma_frame \<Rightarrow> u32 \<Rightarrow> u32" where
  "size_after f frame_size = (if bit (frame_control f) 31 then frame_control f AND DMA_MAX_LENGTH else frame_size)"

lemma pass_sends_nothing:
  "fifo_stop tfcnt frame_size space R \<Longrightarrow> pass_sends tfcnt frame_size space [] R frame_size"
  by (simp add: pass_sends_def fifo_size_def tx_starts_def)

lemma pass_sends_one_more:
  assumes "\<not> held_back tfcnt frame_size space f" "tx_count_ok f"
    and "pass_sends tfcnt (size_after f frame_size) (unat (space - size_in_fifo (frame_count f))) Q R fsz"
  shows "pass_sends tfcnt frame_size (unat space) (f # Q) R fsz"
proof -
  let ?sz = "size_in_fifo (frame_count f)"
  have fits: "unat (space - ?sz) = unat space - unat ?sz" "unat ?sz \<le> unat space"
    using assms(1) by (simp_all add: held_back_def unat_sub word_le_nat_alt not_less)
  have size: "fifo_size (f # Q) = unat ?sz + fifo_size Q" by (simp add: fifo_size_def)
  have "bit (frame_control f) 31 \<Longrightarrow> frame_control f AND DMA_MAX_LENGTH \<noteq> 0"
    using assms(2) by (simp add: tx_count_ok_def)
  then have "if frame_size \<noteq> 0 then tx_starts (f # Q) = [] \<and> fsz = frame_size
      else case tx_starts (f # Q) of [] \<Rightarrow> fsz = 0
        | f # fs \<Rightarrow> fs = [] \<and> fsz = frame_control f AND DMA_MAX_LENGTH \<and> fsz \<noteq> 0"
    using assms(1,3) by (cases "bit (frame_control f) 31") (auto simp: pass_sends_def held_back_def size_after_def tx_starts_def)
  moreover have "fifo_size Q \<le> unat space - unat ?sz" using assms(3) fits(1) by (simp add: pass_sends_def)
  then have "fifo_size (f # Q) \<le> unat space" using fits(2) size by linarith
  ultimately show ?thesis using assms(3) fits size by (simp add: pass_sends_def)
qed

lemma fifo_write_step:
  assumes "tx_state True s (f # P) F" "s2 = step_fifo_tx (empty_frame f) (emits (fifo_words (port_card s) f) s)"
  shows "fifo_write_loop E tfcnt (Suc n) space frame_size dw s =
      (if held_back tfcnt frame_size space f then Some (frame_size, dw, s)
       else fifo_write_loop E tfcnt n (space - size_in_fifo (frame_count f)) (size_after f frame_size) True s2)"
    and "tx_state True s2 P (F @ [empty_frame f])" "tx_count_ok f" "fifo_tx_change s s2"
    and "events s2 = rev (fifo_words (port_card s) f) @ events s" "port_card s2 = port_card s"
proof -
  from assms(1) have f: "tx_filled f" "frame_ok f" "tx_count_ok f" by (auto simp: tx_state_def)
  have "tx_state True (emits (fifo_words (port_card s) f) s) (f # P) F" by (rule tx_state_cong [OF assms(1)]) simp_all
  note empty = tx_state_take [OF this empty_frame_simps(2) empty_frame_simps(1) [THEN iffD2, OF f(2)]]
  from empty(2) show "tx_state True s2 P (F @ [empty_frame f])" by (simp add: assms(2))
  have at_cur: "frame_at (tx_descriptors s) (fifo_tx_desc s) = Some f" using empty(1) by simp
  show "fifo_write_loop E tfcnt (Suc n) space frame_size dw s =
      (if held_back tfcnt frame_size space f then Some (frame_size, dw, s)
       else fifo_write_loop E tfcnt n (space - size_in_fifo (frame_count f)) (size_after f frame_size) True s2)"
    unfolding fifo_write_loop.simps at_cur using f(1) send_frame [OF f(2,3)]
    by (auto simp: tx_filled_def Let_def bit_tests held_back_def size_after_def assms(2))
  show "fifo_tx_change s s2" "events s2 = rev (fifo_words (port_card s) f) @ events s" "port_card s2 = port_card s"
    by (simp_all add: assms(2)) (simp_all add: step_fifo_tx_def)
qed (use assms(1) in \<open>simp add: tx_state_def\<close>)

lemma fifo_write_loop_sends:
  assumes "tx_state True s P F" "length P \<le> n"
  shows "\<exists>fsz s' Q R. fifo_write_loop E tfcnt n space frame_size dw s = Some (fsz, dw \<or> Q \<noteq> [], s') \<and>
      P = Q @ R \<and> tx_state True s' R (F @ map empty_frame Q) \<and> fifo_tx_change s s' \<and>
      events s' = rev (concat (map (fifo_words (port_card s)) Q)) @ events s \<and>
      pass_sends tfcnt frame_size (unat space) Q R fsz"
  using assms
proof (induction n arbitrary: s P F space frame_size dw)
  case 0
  then show ?case
    by (intro exI [of _ frame_size] exI [of _ s] exI [of _ "[]"]) (simp add: pass_sends_nothing fifo_stop_def)
next
  case (Suc n)
  show ?case
  proof (cases P)
    case Nil
    note idle = tx_state_idle [OF Suc.prems(1) [unfolded Nil]]
    have "\<not> tx_filled (hd F)" using Suc.prems(1) idle(2) by (cases F) (simp_all add: tx_state_def)
    with idle(1) show ?thesis using Suc.prems(1) Nil
      by (intro exI [of _ frame_size] exI [of _ s] exI [of _ "[]"])
        (simp add: pass_sends_nothing fifo_stop_def tx_filled_def)
  next
    case (Cons f P2)
    note step = fifo_write_step [OF Suc.prems(1) [unfolded Cons] refl]
    let ?s2 = "step_fifo_tx (empty_frame f) (emits (fifo_words (port_card s) f) s)"
    let ?space = "space - size_in_fifo (frame_count f)" and ?fsz = "size_after f frame_size"
    show ?thesis
    proof (cases "held_back tfcnt frame_size space f")
      case True
      then have "fifo_stop tfcnt frame_size (unat space) P"
        by (simp add: fifo_stop_def held_back_def Cons word_less_nat_alt)
      with Suc.prems(1) show ?thesis unfolding step(1) if_P [OF True]
        by (intro exI [of _ frame_size] exI [of _ s] exI [of _ "[]"] exI [of _ P]) (simp add: pass_sends_nothing)
    next
      case False
      have "length P2 \<le> n" using Suc.prems(2) Cons by simp
      from Suc.IH [OF step(2) this, of ?space ?fsz True] obtain fsz s' Q R where
        IH: "fifo_write_loop E tfcnt n ?space ?fsz True ?s2 = Some (fsz, True \<or> Q \<noteq> [], s')" "P2 = Q @ R"
          "tx_state True s' R ((F @ [empty_frame f]) @ map empty_frame Q)" "fifo_tx_change ?s2 s'"
          "events s' = rev (concat (map (fifo_words (port_card ?s2)) Q)) @ events ?s2"
          "pass_sends tfcnt ?fsz (unat ?space) Q R fsz" by blast
      show ?thesis unfolding step(1) if_not_P [OF False]
        using IH(1-3,5) Cons step(5,6) fifo_tx_change_trans [OF step(4) IH(4)]
          pass_sends_one_more [OF False step(3) IH(6)]
        by (intro exI [of _ fsz] exI [of _ s'] exI [of _ "f # Q"] exI [of _ R]) simp
    qed
  qed
qed

definition tfcnt_of :: "u32 \<Rightarrow> u32" where
  "tfcnt_of v = drop_bit 16 (v AND 0x01ff0000)"

definition txcnt_of :: "u32 \<Rightarrow> u32" where
  "txcnt_of v = drop_bit 16 (v AND 0x1FFF0000)"

lemma get_TFCNT_TXCNT_eq:
  "fscc_io_get_TFCNT E s = (let v = hw_reg E (port_card s) (events s) 0 FIFO_FC_OFFSET
     in (tfcnt_of v, emits [rd (port_card s) 0 FIFO_FC_OFFSET v] s))"
  "fscc_io_get_TXCNT E s = (let v = hw_reg E (port_card s) (events s) 0 FIFO_BC_OFFSET
     in (txcnt_of v, emits [rd (port_card s) 0 FIFO_BC_OFFSET v] s))"
  by (simp_all add: fscc_io_get_TFCNT_def fscc_io_get_TXCNT_def get_register_eq Let_def tfcnt_of_def txcnt_of_def)

lemma txcnt_of_less: "unat (txcnt_of v) < 8192"
proof -
  have "txcnt_of v = drop_bit 16 v AND 0x1fff" by (simp add: txcnt_of_def)
  also have "\<dots> \<le> 0x1fff" by (rule word_and_le1)
  finally show ?thesis by (simp add: word_le_nat_alt)
qed

text \<open>The FIFO space the driver computes, from a transmit count.\<close>

definition fifo_room :: "u32 \<Rightarrow> u32" where
  "fifo_room txcnt = (let space = TX_FIFO_SIZE - txcnt - 1 in space - space mod 4)"

lemma unat_minus_mod4: "unat (w - w mod 4) = unat w - unat (w :: u32) mod 4"
  by (subst unat_sub) (simp_all add: word_le_nat_alt unat_mod_distrib)

lemma fifo_room_eq: "fifo_room txcnt = (4095 - txcnt) - (4095 - txcnt) mod 4"
  by (simp add: fifo_room_def Let_def)

lemma unat_fifo_room:
  assumes "unat txcnt < 4096"
  shows "unat (fifo_room txcnt) = 4095 - unat txcnt - (4095 - unat txcnt) mod 4"
    and "\<not> TX_FIFO_SIZE < fifo_room txcnt"
proof -
  have "unat (4095 - txcnt) = 4095 - unat txcnt"
    using assms by (subst unat_sub) (simp_all add: word_le_nat_alt)
  then show r: "unat (fifo_room txcnt) = 4095 - unat txcnt - (4095 - unat txcnt) mod 4"
    by (simp only: fifo_room_eq unat_minus_mod4)
  from r show "\<not> TX_FIFO_SIZE < fifo_room txcnt" by (simp add: word_less_nat_alt)
qed

lemma fifo_room_wraps:
  assumes "4096 \<le> unat txcnt" "unat txcnt < 8192"
  shows "TX_FIFO_SIZE < fifo_room txcnt"
proof -
  have "unat (4095 - txcnt) = 4095 + 2 ^ 32 - unat txcnt"
    using assms by (simp add: unat_sub_if')
  with assms show ?thesis
    by (simp add: word_less_nat_alt fifo_room_eq unat_minus_mod4)
qed

text \<open>What transmission may change: the transmit ring, the stored registers, the history.\<close>

definition tx_step :: "driver \<Rightarrow> driver \<Rightarrow> bool" where
  "tx_step s s' \<longleftrightarrow> length (register_storage s') = length (register_storage s) \<and>
     (\<exists>es. events s' = rev es @ events s \<and> list_all quiet es) \<and>
     s' = s\<lparr>tx_descriptors := tx_descriptors s', user_tx_desc := user_tx_desc s',
       fifo_tx_desc := fifo_tx_desc s', register_storage := register_storage s', events := events s'\<rparr>"

lemma tx_step_refl [simp]: "tx_step s s"
  by (simp add: tx_step_def exI [of _ "[]"])

lemma tx_step_trans [trans]: "tx_step s t \<Longrightarrow> tx_step t u \<Longrightarrow> tx_step s u"
proof -
  assume 1: "tx_step s t" and 2: "tx_step t u"
  have t: "t = s\<lparr>tx_descriptors := tx_descriptors t, user_tx_desc := user_tx_desc t,
      fifo_tx_desc := fifo_tx_desc t, register_storage := register_storage t, events := events t\<rparr>"
    using 1 by (simp add: tx_step_def)
  have "u = t\<lparr>tx_descriptors := tx_descriptors u, user_tx_desc := user_tx_desc u,
      fifo_tx_desc := fifo_tx_desc u, register_storage := register_storage u, events := events u\<rparr>"
    using 2 by (simp add: tx_step_def)
  also have "\<dots> = s\<lparr>tx_descriptors := tx_descriptors u, user_tx_desc := user_tx_desc u,
      fifo_tx_desc := fifo_tx_desc u, register_storage := register_storage u, events := events u\<rparr>"
    by (subst t) simp
  finally have u: "u = \<dots>" .
  obtain es es' where "events t = rev es @ events s" "list_all quiet es"
    "events u = rev es' @ events t" "list_all quiet es'"
    using 1 2 by (auto simp: tx_step_def)
  then have "\<exists>es. events u = rev es @ events s \<and> list_all quiet es"
    by (intro exI [of _ "es @ es'"]) simp
  with u show "tx_step s u" using 1 2 by (simp add: tx_step_def)
qed

lemma io_step_tx_step: "io_step s s' \<Longrightarrow> tx_step s s'"
  by (auto simp: io_step_def tx_step_def emits_def)

lemma user_tx_change_tx_step: "user_tx_change s s' \<Longrightarrow> tx_step s s'"
proof -
  assume "user_tx_change s s'"
  then obtain d c where "s' = s\<lparr>tx_descriptors := d, user_tx_desc := c\<rparr>"
    unfolding user_tx_change_def by blast
  then show ?thesis by (simp add: tx_step_def exI [of _ "[]"])
qed

lemma fifo_tx_change_tx_step:
  assumes "fifo_tx_change s s'" "events s' = rev es @ events s" "list_all quiet es"
  shows "tx_step s s'"
proof -
  from assms(1) obtain d c e where s': "s' = s\<lparr>tx_descriptors := d, fifo_tx_desc := c, events := e\<rparr>"
    unfolding fifo_tx_change_def by blast
  with assms(2,3) show ?thesis by (auto simp: tx_step_def)
qed

lemma tx_step_events:
  assumes "tx_step s s'"
  obtains es where "events s' = rev es @ events s" "list_all quiet es"
  using assms by (auto simp: tx_step_def)

lemma tx_stepD:
  assumes "tx_step s s'"
  shows "port_card s' = port_card s" "channel s' = channel s" "memory s' = memory s"
    "rx_descriptors s' = rx_descriptors s" "user_rx_desc s' = user_rx_desc s"
    "fifo_rx_desc s' = fifo_rx_desc s" "rx_bytes_in_frame s' = rx_bytes_in_frame s"
    "rx_frame_size s' = rx_frame_size s" "force_fifo s' = force_fifo s" "has_dma s' = has_dma s"
    "wait_on_write s' = wait_on_write s" "ignore_timeout s' = ignore_timeout s"
    "tx_modifiers s' = tx_modifiers s" "blocking_write s' = blocking_write s"
proof -
  note s' = conjunct2 [OF conjunct2 [OF assms [unfolded tx_step_def]]]
  show "port_card s' = port_card s" "channel s' = channel s" "memory s' = memory s"
    "rx_descriptors s' = rx_descriptors s" "user_rx_desc s' = user_rx_desc s"
    "fifo_rx_desc s' = fifo_rx_desc s" "rx_bytes_in_frame s' = rx_bytes_in_frame s"
    "rx_frame_size s' = rx_frame_size s" "force_fifo s' = force_fifo s" "has_dma s' = has_dma s"
    "wait_on_write s' = wait_on_write s" "ignore_timeout s' = ignore_timeout s"
    "tx_modifiers s' = tx_modifiers s" "blocking_write s' = blocking_write s"
    by (subst s', simp)+
qed

end
