(* ===== verification/Fscc_Example.thy ===== *)
theory Fscc_Example
  imports Fscc_Rings
begin

text \<open>
  A concrete port and environment, on which the hypotheses of the properties are checked:
  a port of channel 0 with two receive and two transmit frames of eight bytes, and an
  environment in which every register reads 0 (so the clock is there), every call to the
  framework succeeds, and requests carry the bytes 1 to 10.
\<close>

definition example_frame :: "u32 \<Rightarrow> u32 \<Rightarrow> u32 \<Rightarrow> dma_frame" where
  "example_frame addr ctl count =
     \<lparr>desc = \<lparr>control = ctl, data_address = 0, data_count = count, next_descriptor = 0\<rparr>,
      desc_physical_address = addr, buffer = [11, 12, 13, 14, 15, 16, 17, 18],
      timestamp = \<lparr>LowPart = 0, HighPart = 0\<rparr>, data_size = 8, desc_size = 16\<rparr>"

definition example_port :: "dma_frame list \<Rightarrow> dma_frame list \<Rightarrow> driver" where
  "example_port rx tx =
     \<lparr>port_card = \<lparr>device_id = 0x18, bar = replicate 3 \<lparr>address = 0x1000, memory_mapped = 1\<rparr>\<rparr>,
      channel = 0, register_storage = FSCC_REGISTERS_INIT,
      append_status = 1, append_timestamp = 0, ignore_timeout = 0, rx_multiple = 0,
      wait_on_write = 0, blocking_write = 0, force_fifo = 0, tx_modifiers = 0,
      last_isr_value = 0, open_counter = 0,
      memory = \<lparr>tx_size = 8, tx_num = of_nat (length tx), rx_size = 8, rx_num = of_nat (length rx)\<rparr>,
      has_dma = 0,
      rx_descriptors = Some rx, user_rx_desc = 0, fifo_rx_desc = 0,
      rx_bytes_in_frame = 0, rx_frame_size = 0,
      tx_descriptors = Some tx, user_tx_desc = 0, fifo_tx_desc = 0,
      tx_bytes_in_frame = 0, tx_frame_size = 0, events = []\<rparr>"

definition example_env :: env where
  "example_env =
     \<lparr>hw_read = (\<lambda>h sp a. 0), system_time = (\<lambda>h. \<lparr>LowPart = 1, HighPart = 2\<rparr>),
      request_length = (\<lambda>r. 10), input_buffer = (\<lambda>r n.
        (if n \<le> 10 then STATUS_SUCCESS else STATUS_BUFFER_TOO_SMALL, [1, 2, 3, 4, 5, 6, 7, 8, 9, 10])),
      output_buffer = (\<lambda>r n. STATUS_SUCCESS), forward_to_queue = (\<lambda>h r q. STATUS_SUCCESS),
      retrieve_next = (\<lambda>h q. (STATUS_SUCCESS, 7)), find_request = (\<lambda>h q r. (STATUS_SUCCESS, 7)),
      retrieve_found = (\<lambda>h q r. STATUS_SUCCESS), pool_allocate = (\<lambda>h n. True),
      common_buffer_create = (\<lambda>h n. (STATUS_SUCCESS, \<lparr>logical_address = 0x2000, buffer_length = n\<rparr>)),
      dma_enabler_create = (\<lambda>h. STATUS_SUCCESS)\<rparr>"

text \<open>Two empty transmit frames, and two empty receive frames.\<close>

definition free_port :: driver where
  "free_port = example_port [example_frame 0x100 0 8, example_frame 0x200 DESC_HI_BIT 8]
     [example_frame 0x300 DESC_CSTOP_BIT 0, example_frame 0x400 DESC_CSTOP_BIT 0]"

text \<open>The port whose first transmit frame holds a start of six bytes.\<close>

definition queued_port :: driver where
  "queued_port = (example_port [example_frame 0x100 0 8, example_frame 0x200 DESC_HI_BIT 8]
     [example_frame 0x300 0xA0000006 6, example_frame 0x400 DESC_CSTOP_BIT 0])\<lparr>user_tx_desc := 1\<rparr>"

text \<open>\<open>free_port\<close> after the user wrote the bytes 1 to 10.\<close>

definition sent_port :: driver where
  "sent_port = free_port\<lparr>tx_descriptors := Some
     [(example_frame 0x300 0xA000000A 8)\<lparr>buffer := [1, 2, 3, 4, 5, 6, 7, 8]\<rparr>,
      (example_frame 0x400 0x20000002 2)\<lparr>buffer := [9, 10, 13, 14, 15, 16, 17, 18]\<rparr>]\<rparr>"

lemmas example_defs = free_port_def queued_port_def example_port_def example_frame_def example_env_def

end
