(* ===== verification/Fscc_Transmit.thy ===== *)
theory Fscc_Transmit
  imports Fscc_Tx Fscc_Example
begin

text \<open>
  What transmission does, on the queue of filled descriptors: the user side appends the
  descriptors of one frame, the FIFO side sends a prefix of the queue, and the write
  request goes through all its answers. The last section puts the two sides together.
\<close>

section \<open>Feeding the FIFO\<close>

lemma fifo_write_data_cases:
  assumes state: "tx_state True s P F"
  obtains (blocked) es where "fscc_fifo_write_data E s = Some (False, emits es s)" "writes es = []" "list_all quiet es"
      "let tfc = hw_reg E (port_card s) (events s) 0 FIFO_FC_OFFSET;
           txc = hw_reg E (port_card s) (rd (port_card s) 0 FIFO_FC_OFFSET tfc # events s) 0 FIFO_BC_OFFSET
       in 254 < unat (tfcnt_of tfc) \<or> 4096 \<le> unat (txcnt_of txc)"
  | (sent) Q R s' tfc txc where "fscc_fifo_write_data E s = Some (Q \<noteq> [], s')"
      "tfc = hw_reg E (port_card s) (events s) 0 FIFO_FC_OFFSET"
      "txc = hw_reg E (port_card s) (rd (port_card s) 0 FIFO_FC_OFFSET tfc # events s) 0 FIFO_BC_OFFSET"
      "unat (txcnt_of txc) < 4096"
      "P = Q @ R" "tx_state True s' R (F @ map empty_frame Q)" "tx_step s s'"
      "new_events s s' = [rd (port_card s) 0 FIFO_FC_OFFSET tfc, rd (port_card s) 0 FIFO_BC_OFFSET txc] @
         concat (map (fifo_words (port_card s)) Q) @
         map (\<lambda>f. wr (port_card s) 0 BC_FIFO_L_OFFSET (frame_control f AND DMA_MAX_LENGTH)) (tx_starts Q)"
      "length (tx_starts Q) \<le> 1" "fifo_size Q \<le> unat (fifo_room (txcnt_of txc))"
      "case R of [] \<Rightarrow> True
       | f # _ \<Rightarrow> unat (fifo_room (txcnt_of txc)) - fifo_size Q < unat (size_in_fifo (frame_count f)) \<or>
                 bit (frame_control f) 31 \<and> tx_starts Q \<noteq> []"
proof -
  let ?c = "port_card s"
  define tfc where "tfc = hw_reg E ?c (events s) 0 FIFO_FC_OFFSET"
  define txc where "txc = hw_reg E ?c (rd ?c 0 FIFO_FC_OFFSET tfc # events s) 0 FIFO_BC_OFFSET"
  let ?reads = "[rd ?c 0 FIFO_FC_OFFSET tfc, rd ?c 0 FIFO_BC_OFFSET txc]"
  let ?s2 = "emits ?reads s"
  have run: "fscc_fifo_write_data E s =
      (if 254 < tfcnt_of tfc then Some (False, emits [rd ?c 0 FIFO_FC_OFFSET tfc] s)
       else if fifo_room (txcnt_of txc) > TX_FIFO_SIZE then Some (False, ?s2)
       else do { (frame_size, data_written, s3) \<leftarrow>
           fifo_write_loop E (tfcnt_of tfc) (unat (tx_num (memory s))) (fifo_room (txcnt_of txc)) 0 False ?s2;
         Some (data_written, if frame_size \<noteq> 0
           then snd (fscc_port_set_register E 0 BC_FIFO_L_OFFSET frame_size s3) else s3) })"
    by (simp add: fscc_fifo_write_data_def get_TFCNT_TXCNT_eq Let_def fifo_room_def emits_emits
        tfc_def txc_def)
  consider "254 < tfcnt_of tfc" | "\<not> 254 < tfcnt_of tfc" "4096 \<le> unat (txcnt_of txc)"
    | "\<not> 254 < tfcnt_of tfc" "unat (txcnt_of txc) < 4096" by linarith
  then show thesis
  proof cases
    case 1
    with run show thesis
      by (intro blocked [of "[rd ?c 0 FIFO_FC_OFFSET tfc]"])
        (simp_all add: Let_def word_less_nat_alt flip: tfc_def)
  next
    case 2
    with run fifo_room_wraps [OF 2(2) txcnt_of_less] show thesis
      by (intro blocked [of ?reads]) (simp_all add: Let_def flip: tfc_def txc_def)
  next
    case 3
    have state2: "tx_state True ?s2 P F" by (rule tx_state_cong [OF state]) simp_all
    have "length P \<le> unat (tx_num (memory s))" using tx_state_num [OF state] by simp
    from fifo_write_loop_sends [OF state2 this, of E "tfcnt_of tfc" "fifo_room (txcnt_of txc)" 0 False]
    obtain fsz s3 Q R where loop:
      "fifo_write_loop E (tfcnt_of tfc) (unat (tx_num (memory s))) (fifo_room (txcnt_of txc)) 0 False ?s2
        = Some (fsz, Q \<noteq> [], s3)" "P = Q @ R" "tx_state True s3 R (F @ map empty_frame Q)"
      "fifo_tx_change ?s2 s3"
      "events s3 = rev (concat (map (fifo_words ?c) Q)) @ events ?s2"
      "fifo_size Q \<le> unat (fifo_room (txcnt_of txc))"
      "fifo_stop (tfcnt_of tfc) fsz (unat (fifo_room (txcnt_of txc)) - fifo_size Q) R"
      "case tx_starts Q of [] \<Rightarrow> fsz = 0
       | f # fs \<Rightarrow> fs = [] \<and> fsz = frame_control f AND DMA_MAX_LENGTH \<and> fsz \<noteq> 0"
      by (simp add: pass_sends_def) blast
    let ?s4 = "if fsz \<noteq> 0 then snd (fscc_port_set_register E 0 BC_FIFO_L_OFFSET fsz s3) else s3"
    have res: "fscc_fifo_write_data E s = Some (Q \<noteq> [], ?s4)"
      using 3 run loop(1) unat_fifo_room(2) [OF 3(2)] by simp
    have card3: "port_card s3 = ?c" using fifo_tx_change_sel(1) [OF loop(4)] by simp
    let ?last = "map (\<lambda>f. wr ?c 0 BC_FIFO_L_OFFSET (frame_control f AND DMA_MAX_LENGTH)) (tx_starts Q)"
    have last: "events ?s4 = rev ?last @ events s3"
      using loop(8) card3
      by (auto simp: set_register_plain store_register_def split: list.splits)
    have one: "length (tx_starts Q) \<le> 1" using loop(8) by (auto split: list.splits)
    have small: "\<not> 255 < tfcnt_of tfc" using 3(1) by (auto simp: word_less_nat_alt)
    have stop: "case R of [] \<Rightarrow> True
       | f # _ \<Rightarrow> unat (fifo_room (txcnt_of txc)) - fifo_size Q < unat (size_in_fifo (frame_count f)) \<or>
                 bit (frame_control f) 31 \<and> tx_starts Q \<noteq> []"
      using loop(7,8) small by (auto simp: fifo_stop_def split: list.splits)
    have step4: "io_step s3 ?s4" by simp
    have step2: "tx_step s ?s2" by (rule io_step_tx_step) simp
    have "tx_step ?s2 s3"
      by (rule fifo_tx_change_tx_step [OF loop(4)]) (use loop(5) quiet_fifo_words in simp_all)
    then have "tx_step s ?s4"
      using tx_step_trans [OF tx_step_trans [OF step2] io_step_tx_step [OF step4]] by blast
    moreover have "tx_state True ?s4 R (F @ map empty_frame Q)"
      using tx_state_io_step [OF loop(3) step4] .
    moreover have "new_events s ?s4 = ?reads @ concat (map (fifo_words ?c) Q) @ ?last"
      by (rule new_events_eq) (simp add: last loop(5) del: rev_concat)
    ultimately show thesis
      using sent [OF res tfc_def txc_def 3(2) loop(2)] one loop(6) stop
      by simp
  qed
qed

lemmas tx_ring_defs = tx_ring_ok_def ring_at_def ring_view_def tx_free_def tx_view_def view_from_def tx_queue_def
  frame_ok_def tx_count_ok_def tx_filled_def

section \<open>Properties\<close>

text \<open>Property C8. A frame from user space that fits the free descriptors is accepted whole:
  no access leaves a buffer, the call reports success and the full length, and the queue of
  filled descriptors grows by exactly the frame, cut into the sizes of the free
  descriptors, its first descriptor marked as the start and carrying the frame's length.
  The ring stays well-formed, with the FIFO cursor in step if it was, and the receive side is
  untouched. This is the same with the FIFO and with DMA.\<close>

theorem write_frame_enqueues:
  assumes "tx_ring_ok fifo s" "0 < unat len" "unat len < 2 ^ 29" "unat len \<le> length buf"
    and "unat len \<le> sum_list (map (\<lambda>f. unat (data_size f)) (tx_free s))"
  shows "case fscc_user_write_frame E buf len s of
      None \<Rightarrow> False
    | Some (st, out_length, s') \<Rightarrow> st = STATUS_SUCCESS \<and> out_length = len \<and>
        tx_ring_ok fifo s' \<and> tx_step s s' \<and>
        map tx_entry (tx_queue s') = map tx_entry (tx_queue s) @
          split_frame True (unat len) (take (unat len) buf) (map (\<lambda>f. unat (data_size f)) (tx_free s))"
proof -
  from user_write_frame_result [OF tx_ring_ok_state [OF assms(1)] assms(5,2,3,4)]
  obtain s1 s' P' F' where res: "fscc_user_write_frame E buf len s = Some (STATUS_SUCCESS, len, s')"
    "user_tx_change s s1" "io_step s1 s'" "tx_state fifo s' (tx_queue s @ P') F'"
    "map tx_entry P' = split_frame True (unat len) (take (unat len) buf)
       (map (\<lambda>f. unat (data_size f)) (tx_free s))" by blast
  have "tx_step s s'"
    using tx_step_trans [OF user_tx_change_tx_step [OF res(2)] io_step_tx_step [OF res(3)]] .
  with res tx_state_queue [OF res(4)] show ?thesis by simp
qed

lemma write_frame_enqueues_witness:
  "case fscc_user_write_frame example_env [1, 2, 3, 4, 5, 6, 7, 8, 9, 10] 10 free_port of
      None \<Rightarrow> False
    | Some (st, out_length, s') \<Rightarrow> st = STATUS_SUCCESS \<and> out_length = 10 \<and>
        tx_ring_ok True s' \<and> tx_step free_port s' \<and>
        map tx_entry (tx_queue s') = map tx_entry (tx_queue free_port) @
          split_frame True (unat (10 :: u32)) (take (unat (10 :: u32)) [1, 2, 3, 4, 5, 6, 7, 8, 9, 10])
            (map (\<lambda>f. unat (data_size f)) (tx_free free_port))"
  by (rule write_frame_enqueues) (simp_all add: tx_ring_defs example_defs)

text \<open>Property C7. Feeding the FIFO never leaves a buffer and sends a prefix of the queue:
  the hardware sees the words of those descriptors in order, then (if a start of a frame
  was among them, and at most one can be) the length of that frame, and nothing else; the
  descriptors sent are free again, the rest of the queue is what it was, the FIFO cursor stays in
  step, and the result says whether anything was sent.\<close>

theorem fifo_write_sends_prefix:
  assumes "tx_ring_ok True s"
  shows "case fscc_fifo_write_data E s of
      None \<Rightarrow> False
    | Some (written, s') \<Rightarrow> tx_ring_ok True s' \<and> tx_step s s' \<and>
        (\<exists>Q. tx_queue s = Q @ tx_queue s' \<and> tx_free s' = tx_free s @ map empty_frame Q \<and>
           written = (Q \<noteq> []) \<and> length (tx_starts Q) \<le> 1 \<and>
           writes (new_events s s') = concat (map (fifo_words (port_card s)) Q) @
             map (\<lambda>f. wr (port_card s) 0 BC_FIFO_L_OFFSET (frame_control f AND DMA_MAX_LENGTH)) (tx_starts Q))"
proof -
  have words: "writes (concat (map (fifo_words c) Q)) = concat (map (fifo_words c) Q)" for c Q
    by (induction Q) (simp_all add: fifo_words_def)
  have lens: "writes (map (\<lambda>f. wr c b off (g f)) Q) = map (\<lambda>f. wr c b off (g f)) Q" for c b off g and Q :: "dma_frame list"
    by (induction Q) simp_all
  show ?thesis
  proof (rule fifo_write_data_cases [OF tx_ring_ok_state [OF assms], of E], goal_cases)
    case (1 es)
    have "tx_state True (emits es s) (tx_queue s) (tx_free s)"
      by (rule tx_state_cong [OF tx_ring_ok_state [OF assms]]) simp_all
    from tx_state_queue [OF this] 1 io_step_tx_step [OF io_step_emits [OF 1(3)]] show ?case
      by (simp add: tx_starts_def)
  next
    case (2 Q R s' tfc txc)
    with tx_state_queue [OF 2(6)] show ?case by (simp add: words lens)
  qed
qed

lemma fifo_write_sends_prefix_witness:
  "case fscc_fifo_write_data example_env free_port of
      None \<Rightarrow> False
    | Some (written, s') \<Rightarrow> tx_ring_ok True s' \<and> tx_step free_port s' \<and>
        (\<exists>Q. tx_queue free_port = Q @ tx_queue s' \<and> tx_free s' = tx_free free_port @ map empty_frame Q \<and>
           written = (Q \<noteq> []) \<and> length (tx_starts Q) \<le> 1 \<and>
           writes (new_events free_port s') = concat (map (fifo_words (port_card free_port)) Q) @
             map (\<lambda>f. wr (port_card free_port) 0 BC_FIFO_L_OFFSET (frame_control f AND DMA_MAX_LENGTH))
               (tx_starts Q))"
  by (rule fifo_write_sends_prefix) (simp add: tx_ring_defs example_defs)

definition is_fifo_write :: "fscc_card \<Rightarrow> event \<Rightarrow> bool" where
  "is_fifo_write c e = (case e of
     Io_write sp a v \<Rightarrow> sp = card_space c 0 \<and> a = fscc_card_get_BAR c 0 + ucast FIFO_OFFSET | _ \<Rightarrow> False)"

lemma is_fifo_write_wr [simp]:
  "is_fifo_write c (wr c 0 FIFO_OFFSET v)" "\<not> is_fifo_write c (wr c 0 BC_FIFO_L_OFFSET v)"
  "\<not> is_fifo_write c (rd c b off v)"
  by (simp_all add: is_fifo_write_def wr_def rd_def)

lemma fifo_words_count:
  "filter (is_fifo_write c) (fifo_words c f) = fifo_words c f"
  "filter (is_fifo_write c) (map (\<lambda>f. wr c 0 BC_FIFO_L_OFFSET (g f)) Q) = []"
  "filter (is_fifo_write c) (concat (map (fifo_words c) Q)) = concat (map (fifo_words c) Q)"
proof -
  show one: "filter (is_fifo_write c) (fifo_words c f) = fifo_words c f" for f
    by (simp add: fifo_words_def filter_map o_def)
  show "filter (is_fifo_write c) (map (\<lambda>f. wr c 0 BC_FIFO_L_OFFSET (g f)) Q) = []"
    by (simp add: filter_map o_def)
  show "filter (is_fifo_write c) (concat (map (fifo_words c) Q)) = concat (map (fifo_words c) Q)"
    by (induction Q) (simp_all add: one)
qed

lemma fifo_words_size:
  assumes "list_all frame_ok Q" "list_all tx_count_ok Q"
  shows "4 * length (concat (map (fifo_words c) Q)) \<le> fifo_size Q"
  using assms
proof (induction Q)
  case (Cons f Q)
  then have "4 * words_for (unat (frame_count f)) \<le> unat (size_in_fifo (frame_count f))"
    using filled_frame_bounds by (auto intro: words_for_fits)
  with Cons show ?case by (simp add: fifo_size_def fifo_words_def)
qed (simp add: fifo_size_def)

text \<open>Property C13. The FIFO is never overrun: whatever the card reports as its transmit
  count before the write, four bytes for each data word written still fit behind it in
  the 4096 bytes of the FIFO.\<close>

theorem fifo_never_overrun:
  assumes "tx_ring_ok True s"
  shows "case fscc_fifo_write_data E s of
      None \<Rightarrow> False
    | Some (written, s') \<Rightarrow>
        (case filter (is_fifo_write (port_card s)) (new_events s s') of
           [] \<Rightarrow> True
         | ws \<Rightarrow> \<exists>txc. rd (port_card s) 0 FIFO_BC_OFFSET txc \<in> set (new_events s s') \<and>
                  4 * length ws + unat (txcnt_of txc) < 4096)"
proof (rule fifo_write_data_cases [OF tx_ring_ok_state [OF assms], of E], goal_cases)
  case (1 es)
  have "\<not> is_fifo_write (port_card s) e" if "e \<in> set es" for e
  proof -
    have "\<not> is_write e" using 1(2) that by (metis filter_empty_conv)
    then show ?thesis by (cases e) (auto simp: is_fifo_write_def)
  qed
  then have "filter (is_fifo_write (port_card s)) es = []" by (simp add: filter_empty_conv)
  with 1 show ?case by simp
next
  case (2 Q R s' tfc txc)
  have ok: "list_all frame_ok Q" "list_all tx_count_ok Q"
    using tx_ring_ok_state [OF assms] 2(5) by (auto simp: tx_state_def)
  let ?ws = "concat (map (fifo_words (port_card s)) Q)"
  have ws: "filter (is_fifo_write (port_card s)) (new_events s s') = ?ws"
    using 2(8) by (simp add: fifo_words_count)
  have "4 * length ?ws + unat (txcnt_of txc) < 4096"
    using fifo_words_size [OF ok, of "port_card s"] 2(4,10) unat_fifo_room(1) [OF 2(4)] by linarith
  moreover have "rd (port_card s) 0 FIFO_BC_OFFSET txc \<in> set (new_events s s')" using 2(8) by simp
  ultimately have *: "\<exists>txc. rd (port_card s) 0 FIFO_BC_OFFSET txc \<in> set (new_events s s') \<and>
      4 * length ?ws + unat (txcnt_of txc) < 4096" by blast
  show ?case unfolding 2(1) option.case split_conv ws
  proof (cases ?ws)
    case (Cons w ws)
    with * show "case ?ws of [] \<Rightarrow> True
        | ws \<Rightarrow> \<exists>txc. rd (port_card s) 0 FIFO_BC_OFFSET txc \<in> set (new_events s s') \<and>
                  4 * length ws + unat (txcnt_of txc) < 4096" by (simp only: list.case)
  qed (simp only: list.case)
qed

lemma fifo_never_overrun_witness:
  "case fscc_fifo_write_data example_env free_port of
      None \<Rightarrow> False
    | Some (written, s') \<Rightarrow>
        (case filter (is_fifo_write (port_card free_port)) (new_events free_port s') of
           [] \<Rightarrow> True
         | ws \<Rightarrow> \<exists>txc. rd (port_card free_port) 0 FIFO_BC_OFFSET txc \<in> set (new_events free_port s') \<and>
                  4 * length ws + unat (txcnt_of txc) < 4096)"
  by (rule fifo_never_overrun) (simp add: tx_ring_defs example_defs)

lemma rounded_room: "(a :: nat) mod 4 = 0 \<Longrightarrow> a + t < 4096 \<Longrightarrow> a \<le> 4095 - t - (4095 - t) mod 4"
proof -
  assume a: "a mod 4 = 0" and "a + t < 4096"
  then have "a \<le> 4095 - t" by simp
  then have "4 * (a div 4) \<le> 4 * ((4095 - t) div 4)" by (simp add: div_le_mono)
  moreover have "4 * (a div 4) = a" using a mult_div_mod_eq [of 4 a] by simp
  ultimately show ?thesis by (simp only: minus_mod_eq_mult_div)
qed

text \<open>Property C33. The FIFO does not starve: if the card has room for a frame (its frame
  count is at most 254 and its byte count leaves the driver's measure of the oldest
  descriptor), at least that descriptor is sent.\<close>

theorem fifo_write_progress:
  assumes tfc_def: "tfc = hw_reg E (port_card s) (events s) 0 FIFO_FC_OFFSET"
    and txc_def: "txc = hw_reg E (port_card s) (rd (port_card s) 0 FIFO_FC_OFFSET tfc # events s) 0 FIFO_BC_OFFSET"
    and "tx_ring_ok True s" "tx_queue s = f # fs" "unat (tfcnt_of tfc) \<le> 254"
    and "unat (size_in_fifo (frame_count f)) + unat (txcnt_of txc) < 4096"
  shows "case fscc_fifo_write_data E s of
      None \<Rightarrow> False | Some (written, s') \<Rightarrow> written \<and> length (tx_queue s') < length (tx_queue s)"
proof (rule fifo_write_data_cases [OF tx_ring_ok_state [OF assms(3)], of E], goal_cases)
  case (1 es)
  with assms(5,6) show ?case by (simp add: Let_def flip: tfc_def txc_def)
next
  case (2 Q R s' tfc' txc')
  have eqs: "tfc' = tfc" "txc' = txc" using 2(2,3) by (simp_all add: tfc_def txc_def)
  have "Q \<noteq> []"
  proof
    assume Q: "Q = []"
    then have R: "R = f # fs" using 2(5) assms(4) by simp
    have ok: "frame_ok f" "tx_count_ok f"
      using tx_ring_ok_state [OF assms(3)] assms(4) by (simp_all add: tx_state_def)
    have sz: "unat (size_in_fifo (frame_count f)) mod 4 = 0"
      unfolding unat_size_in_fifo [OF filled_frame_bounds(1) [OF ok]] by presburger
    have "unat (fifo_room (txcnt_of txc)) < unat (size_in_fifo (frame_count f))"
      using 2(11) Q R eqs by (simp add: tx_starts_def fifo_size_def)
    then show False
      using rounded_room [OF sz assms(6)] unfolding unat_fifo_room(1) [OF 2(4) [unfolded eqs]] by simp
  qed
  with 2(1,5) tx_state_queue(1) [OF 2(6)] show ?case by simp
qed

lemma fifo_write_progress_witness:
  "case fscc_fifo_write_data example_env queued_port of
      None \<Rightarrow> False
    | Some (written, s') \<Rightarrow> written \<and> length (tx_queue s') < length (tx_queue queued_port)"
  by (rule fifo_write_progress [where f = "example_frame 0x300 0xA0000006 6" and fs = "[]" and tfc = 0 and txc = 0])
    (simp_all add: tx_ring_defs example_defs hw_reg_def tfcnt_of_def txcnt_of_def size_in_fifo_def)

section \<open>From the user's buffer to the FIFO\<close>

text \<open>The data words a history writes to the FIFO.\<close>

fun fifo_data :: "fscc_card \<Rightarrow> event list \<Rightarrow> u32 list" where
  "fifo_data c [] = []"
| "fifo_data c (e # es) =
     (case e of Io_write sp a v \<Rightarrow> if is_fifo_write c e then v # fifo_data c es else fifo_data c es
      | _ \<Rightarrow> fifo_data c es)"

lemma fifo_data_append: "fifo_data c (es @ es') = fifo_data c es @ fifo_data c es'"
  by (induction es) (auto split: event.splits)

lemma fifo_data_wr [simp]:
  "fifo_data c (wr c 0 FIFO_OFFSET v # es) = v # fifo_data c es"
  "fifo_data c (wr c 0 BC_FIFO_L_OFFSET v # es) = fifo_data c es"
  "fifo_data c (rd c b off v # es) = fifo_data c es"
  using is_fifo_write_wr(1) [of c v] is_fifo_write_wr(2) [of c v]
  by (simp_all add: wr_def rd_def)

declare fifo_data.simps(2) [simp del]

lemma fifo_data_words: "fifo_data c (map (wr c 0 FIFO_OFFSET) vs) = vs"
  by (induction vs) simp_all

lemma fifo_data_lens: "fifo_data c (map (\<lambda>f. wr c 0 BC_FIFO_L_OFFSET (g f)) Q) = []"
  by (induction Q) simp_all

lemma byte_high: "8 \<le> n \<Longrightarrow> \<not> bit (a :: u8) n"
  using bit_imp_le_length [of a n] by auto

lemma chars_to_u32_inverse:
  "chars_to_u32 (a # b # c # d # rest) = Some w \<Longrightarrow> u32_bytes w = [a, b, c, d]"
proof -
  assume "chars_to_u32 (a # b # c # d # rest) = Some w"
  then have w: "w = ucast a OR push_bit 8 (ucast b) OR push_bit 16 (ucast c) OR push_bit 24 (ucast d)"
    by simp
  have "bit (ucast w :: u8) n = bit a n" "bit (ucast (drop_bit 8 w) :: u8) n = bit b n"
    "bit (ucast (drop_bit 16 w) :: u8) n = bit c n" "bit (ucast (drop_bit 24 w) :: u8) n = bit d n"
    if "n < 8" for n
    using that by (simp_all add: w bit_simps byte_high)
  note bits = this
  show ?thesis unfolding u32_bytes_def list.inject
    by (intro conjI bit_word_eqI) (simp_all add: bits)
qed

lemma le_words_bytes:
  "4 * n \<le> length bs \<Longrightarrow> concat (map u32_bytes (le_words n bs)) = take (4 * n) bs"
proof (induction n arbitrary: bs)
  case (Suc n)
  then have "4 \<le> length bs" by simp
  then obtain a b c d rest where bs: "bs = a # b # c # d # rest"
    by (cases bs rule: chars_to_u32.cases) auto
  obtain w where w: "chars_to_u32 bs = Some w" using bs by simp
  have four: "4 * Suc n = Suc (Suc (Suc (Suc (4 * n))))" by simp
  from Suc bs show ?case
    unfolding le_words.simps w option.sel list.map concat.simps chars_to_u32_inverse [OF w [unfolded bs]] four
    by simp
qed simp

text \<open>The bytes the words of a descriptor carry: its own bytes, and at most three more to
  fill the last word.\<close>

definition word_bytes :: "dma_frame \<Rightarrow> u8 list" where
  "word_bytes f = take (4 * words_for (unat (frame_count f))) (buffer f)"

lemma words_cover: "k \<le> 4 * words_for k"
  unfolding words_for_def by presburger

lemma split_frame_first:
  "\<exists>e es. split_frame True len data (n # ns) = (True, len, e) # es \<and>
     map fst es = replicate (length es) False"
proof -
  have "map fst (split_frame False l d ms) = replicate (length (split_frame False l d ms)) False"
    for l d ms by (induction "False" l d ms rule: split_frame.induct) auto
  then show ?thesis by (cases "length data \<le> n") auto
qed

lemma fifo_words_bytes:
  assumes "frame_ok f" "tx_count_ok f"
  shows "concat (map u32_bytes (fifo_data c (fifo_words c f))) = word_bytes f"
  using filled_frame_bounds(2) [OF assms]
  by (simp add: fifo_words_def fifo_data_words le_words_bytes word_bytes_def)

lemma queue_bytes:
  assumes "list_all frame_ok Q" "list_all tx_count_ok Q"
  shows "concat (map u32_bytes (fifo_data c (concat (map (fifo_words c) Q)))) = concat (map word_bytes Q)"
  using assms by (induction Q) (simp_all add: fifo_data_append fifo_words_bytes)

lemma split_frame_words:
  assumes "map tx_entry Q = split_frame first len data ns" "length data \<le> sum_list ns" "data \<noteq> []"
    and "list_all frame_ok Q" "list_all tx_count_ok Q" "list_all (\<lambda>n. n mod 4 = 0) ns"
  shows "take (length data) (concat (map word_bytes Q)) = data"
  using assms
proof (induction first len data ns arbitrary: Q rule: split_frame.induct)
  case (1 first len data)
  then show ?case by simp
next
  case (2 first len data n ns)
  from "2.prems"(1) obtain f Q2 where Q: "Q = f # Q2" by (cases Q) (auto split: if_splits)
  with "2.prems"(4,5) have ok: "frame_ok f" "tx_count_ok f" by simp_all
  let ?c = "unat (frame_count f)"
  have c: "?c \<le> length (buffer f)"
    using ok by (simp add: tx_count_ok_def frame_ok_def word_le_nat_alt)
  have bytes: "take ?c (word_bytes f) = snd (snd (tx_entry f))"
    using words_cover [of ?c] by (simp add: word_bytes_def tx_entry_def min_absorb1)
  have len: "length (snd (snd (tx_entry f))) = ?c" using c by (simp add: tx_entry_def)
  show ?case
  proof (cases "length data \<le> n")
    case True
    with "2.prems"(1) Q have "snd (snd (tx_entry f)) = data" "Q2 = []" by auto
    with bytes len Q show ?thesis by simp
  next
    case False
    with "2.prems"(1) Q have e: "snd (snd (tx_entry f)) = take n data"
      "map tx_entry Q2 = split_frame False len (drop n data) ns" by auto
    with len False have "?c = n" by simp
    moreover have "n mod 4 = 0" using "2.prems"(6) by simp
    ultimately have "4 * words_for ?c = ?c" by (simp add: words_for_def) presburger
    then have wb: "word_bytes f = take n data" using bytes e(1) by (simp add: word_bytes_def)
    from "2.IH" [OF False e(2)] False "2.prems" Q
    have "take (length (drop n data)) (concat (map word_bytes Q2)) = drop n data" by simp
    with wb Q False show ?thesis by simp
  qed
qed

text \<open>Property C4. From the user's buffer to the FIFO: in FIFO mode, with nothing queued
  before, a frame that fits the ring and that the card has room for is sent by the next
  write to the FIFO. The data words carry exactly the user's bytes, in order (up to the
  filling of the last word), the last register write is the length of the frame, and the
  queue is empty again.\<close>

theorem transmit_end_to_end:
  assumes "tx_ring_ok True s" "tx_queue s = []" "0 < unat len" "unat len < 2 ^ 29" "unat len \<le> length buf"
    and "unat len \<le> sum_list (map (\<lambda>f. unat (data_size f)) (tx_free s))"
    and "fscc_user_write_frame E buf len s = Some (st, n, s1)"
    and "tfc = hw_reg E (port_card s1) (events s1) 0 FIFO_FC_OFFSET" "unat (tfcnt_of tfc) \<le> 254"
    and "txc = hw_reg E (port_card s1) (rd (port_card s1) 0 FIFO_FC_OFFSET tfc # events s1) 0 FIFO_BC_OFFSET"
    and "fifo_size (tx_queue s1) \<le> unat (fifo_room (txcnt_of txc))" "unat (txcnt_of txc) < 4096"
  shows "case fscc_fifo_write_data E s1 of
      None \<Rightarrow> False
    | Some (written, s2) \<Rightarrow> written \<and> tx_queue s2 = [] \<and>
        take (unat len) (concat (map u32_bytes (fifo_data (port_card s) (new_events s1 s2)))) =
          take (unat len) buf \<and>
        last (writes (new_events s1 s2)) = wr (port_card s) 0 BC_FIFO_L_OFFSET len"
proof -
  let ?data = "take (unat len) buf"
  let ?ns = "map (\<lambda>f. unat (data_size f)) (tx_free s)"
  from user_write_frame_result [OF tx_ring_ok_state [OF assms(1)] assms(6,3,4,5), of E]
  obtain t P' F' where w: "user_tx_change s t" "io_step t s1" "tx_state True s1 P' F'"
    "map tx_entry P' = split_frame True (unat len) ?data ?ns"
    using assms(2,7) by auto
  have card: "port_card s1 = port_card s"
    using tx_stepD(1) [OF tx_step_trans [OF user_tx_change_tx_step [OF w(1)] io_step_tx_step [OF w(2)]]] .
  have ok: "list_all frame_ok P'" "list_all tx_count_ok P'" using w(3) by (simp_all add: tx_state_def)
  have data: "?data \<noteq> []" "length ?data = unat len" using assms(3,5) by auto
  have mod4: "list_all (\<lambda>n. n mod 4 = 0) ?ns"
    using tx_ring_ok_state [OF assms(1)] by (auto simp: tx_state_def list_all_iff frame_ok_def)
  have fits: "length ?data \<le> sum_list ?ns" using assms(6) data(2) by simp
  note bytes = split_frame_words [OF w(4) fits data(1) ok mod4]
  obtain n0 ns0 where ns: "?ns = n0 # ns0"
    using assms(3,6) by (cases ?ns) (auto simp del: list.map_disc_iff)
  obtain e es where split: "split_frame True (unat len) ?data ?ns = (True, unat len, e) # es"
    "map fst es = replicate (length es) False"
    unfolding ns using split_frame_first by blast
  with w(4) obtain f P2 where P': "P' = f # P2" "tx_entry f = (True, unat len, e)" "map tx_entry P2 = es"
    by auto
  have "\<not> bit (frame_control g) 31" if "g \<in> set P2" for g
  proof -
    have "fst (tx_entry g) \<in> set (map fst es)" using that P'(3) by auto
    then show ?thesis unfolding split(2) by (simp add: tx_entry_def)
  qed
  then have starts2: "tx_starts P2 = []" by (auto simp: tx_starts_def filter_empty_conv)
  have f: "bit (frame_control f) 31" "frame_control f AND DMA_MAX_LENGTH = len"
    using P'(2) by (simp_all add: tx_entry_def word_unat_eq_iff)
  have starts: "tx_starts P' = [f]" using f starts2 P'(1) by (simp add: tx_starts_def)
  show ?thesis
  proof (rule fifo_write_data_cases [OF w(3), of E], goal_cases)
    case (1 es')
    with assms(8-10,12) show ?case by (simp add: Let_def flip: assms(8) assms(10))
  next
    case (2 Q R s' tfc' txc')
    have eqs: "tfc' = tfc" "txc' = txc" using 2(2,3) assms(8,10) by simp_all
    have "fifo_size P' = fifo_size Q + fifo_size R" using 2(5) by (simp add: fifo_size_def)
    then have room: "fifo_size Q + fifo_size R \<le> unat (fifo_room (txcnt_of txc))"
      using assms(11) tx_state_queue(1) [OF w(3)] by simp
    have "R = []"
    proof (cases R)
      case (Cons g R2)
      have "fifo_size R = unat (size_in_fifo (frame_count g)) + fifo_size R2"
        by (simp add: Cons fifo_size_def)
      with 2(11) room eqs Cons have start: "bit (frame_control g) 31" "tx_starts Q \<noteq> []" by auto
      then have "length (tx_starts (Q @ R)) \<ge> 2"
        by (cases "tx_starts Q") (auto simp: tx_starts_def Cons)
      with starts 2(5) show ?thesis by simp
    qed simp
    then have Q: "Q = P'" using 2(5) by simp
    have ev: "new_events s1 s' = [rd (port_card s) 0 FIFO_FC_OFFSET tfc, rd (port_card s) 0 FIFO_BC_OFFSET txc]
        @ concat (map (fifo_words (port_card s)) P') @ [wr (port_card s) 0 BC_FIFO_L_OFFSET len]"
      using 2(8) Q card eqs starts f(2) by simp
    have "take (unat len) (concat (map u32_bytes (fifo_data (port_card s) (new_events s1 s')))) = ?data"
      using bytes data(2) queue_bytes [OF ok] by (simp add: ev fifo_data_append)
    moreover have "last (writes (new_events s1 s')) = wr (port_card s) 0 BC_FIFO_L_OFFSET len"
      by (simp add: ev)
    moreover have "tx_queue s' = []" using tx_state_queue(1) [OF 2(6)] \<open>R = []\<close> by simp
    ultimately show ?case using 2(1) Q P'(1) by simp
  qed
qed

lemma transmit_end_to_end_witness:
  "fscc_user_write_frame example_env [1, 2, 3, 4, 5, 6, 7, 8, 9, 10] 10 free_port =
     Some (STATUS_SUCCESS, 10, sent_port) \<and>
   (case fscc_fifo_write_data example_env sent_port of
      None \<Rightarrow> False
    | Some (written, s2) \<Rightarrow> written \<and> tx_queue s2 = [] \<and>
        take (unat (10 :: u32)) (concat (map u32_bytes (fifo_data (port_card free_port) (new_events sent_port s2)))) =
          take (unat (10 :: u32)) [1, 2, 3, 4, 5, 6, 7, 8, 9, 10] \<and>
        last (writes (new_events sent_port s2)) = wr (port_card free_port) 0 BC_FIFO_L_OFFSET 10)"
proof -
  have n: "unat (tx_num (memory free_port)) = Suc (Suc 0)" by (simp add: example_defs)
  have run: "fscc_user_write_frame example_env [1, 2, 3, 4, 5, 6, 7, 8, 9, 10] 10 free_port =
     Some (STATUS_SUCCESS, 10, sent_port)"
    unfolding fscc_user_write_frame_def n
    by (simp add: sent_port_def example_defs frame_at_def rtl_copy_def fill_frame_def
        step_user_tx_def put_frame_def next_desc_def fscc_port_uses_dma_def Let_def)
  have "unat (fifo_room (txcnt_of 0)) = 4092" by (simp add: fifo_room_eq txcnt_of_def)
  then show ?thesis
    by (intro conjI run transmit_end_to_end [OF _ _ _ _ _ _ run, where tfc = 0 and txc = 0])
      (simp_all add: tx_ring_defs sent_port_def example_defs hw_reg_def tfcnt_of_def txcnt_of_def
        fifo_size_def size_in_fifo_def)
qed

section \<open>Purging\<close>

lemma reset_tx_frame_simps:
  "frame_ok (reset_tx_frame f) = frame_ok f" "\<not> tx_filled (reset_tx_frame f)"
  by (simp_all add: reset_tx_frame_def frame_ok_def tx_filled_def)

text \<open>Purging the transmit side drops everything that was queued: whatever
  state the ring's descriptors and cursors were in, the purge accesses no invalid memory,
  reports success, and leaves a well-formed ring with an empty queue and every descriptor
  free; the receive side is untouched.\<close>

theorem purge_tx_empties:
  assumes "tx_descriptors s = Some fs" "unat (tx_num (memory s)) = length fs" "fs \<noteq> []"
    and "list_all frame_ok fs"
  shows "case fscc_io_purge_tx E s of
      None \<Rightarrow> False
    | Some (st, s') \<Rightarrow> st = STATUS_SUCCESS \<and> tx_ring_ok True s' \<and> tx_queue s' = [] \<and>
        tx_free s' = map reset_tx_frame fs \<and> rx_descriptors s' = rx_descriptors s"
proof -
  from purge_tx_result [OF assms(1-3)] obtain s1 s' where run: "io_step s s1"
    "fscc_io_purge_tx E s = Some (STATUS_SUCCESS, s')"
    "io_step (s1\<lparr>tx_descriptors := Some (map reset_tx_frame fs), user_tx_desc := 0,
      fifo_tx_desc := 0, tx_bytes_in_frame := 0, tx_frame_size := 0\<rparr>) s'" by blast
  have mem: "unat (tx_num (memory s1)) = length fs" using assms(2) by (simp add: io_stepD [OF run(1)])
  have "tx_state True (s1\<lparr>tx_descriptors := Some (map reset_tx_frame fs), user_tx_desc := 0,
      fifo_tx_desc := 0, tx_bytes_in_frame := 0, tx_frame_size := 0\<rparr>) [] (map reset_tx_frame fs)"
    using assms(3,4) mem
    by (auto simp: tx_state_def tx_view_def view_from_def ring_at_def list_all_iff reset_tx_frame_simps)
  from tx_state_queue [OF tx_state_io_step [OF this run(3)]] run(2) show ?thesis
    by (simp add: io_stepD [OF run(3)] io_stepD [OF run(1)])
qed

lemma purge_tx_empties_witness:
  "case fscc_io_purge_tx example_env queued_port of
      None \<Rightarrow> False
    | Some (st, s') \<Rightarrow> st = STATUS_SUCCESS \<and> tx_ring_ok True s' \<and> tx_queue s' = [] \<and>
        tx_free s' = map reset_tx_frame
          [example_frame 0x300 0xA0000006 6, example_frame 0x400 DESC_CSTOP_BIT 0] \<and>
        rx_descriptors s' = rx_descriptors queued_port"
  by (rule purge_tx_empties) (simp_all add: example_defs frame_ok_def)

section \<open>The write request\<close>

text \<open>Input buffers are as long as they were asked for, as \<open>WdfRequestRetrieveInputBuffer\<close>
  promises when it succeeds.\<close>

definition inputs_as_asked :: "env \<Rightarrow> bool" where
  "inputs_as_asked E \<longleftrightarrow>
     (\<forall>r n. case input_buffer E r n of (st, buf) \<Rightarrow> st = STATUS_SUCCESS \<longrightarrow> n \<le> length buf)"

text \<open>The events that answer a request: completing it, or handing it to another queue.\<close>

definition answers :: "request \<Rightarrow> event list \<Rightarrow> event list" where
  "answers req es = filter (\<lambda>e. case e of
       Request_complete r st n \<Rightarrow> r = req
     | Request_forward r q st \<Rightarrow> r = req \<and> st = STATUS_SUCCESS
     | _ \<Rightarrow> False) es"

text \<open>Apart from quiet events and allocations, a handler's events concern one request only.\<close>

definition only_about :: "request \<Rightarrow> event list \<Rightarrow> bool" where
  "only_about req es \<longleftrightarrow> list_all (\<lambda>e. quiet e \<or> of_memory e \<or> (case e of
       Request_complete r st n \<Rightarrow> r = req | Request_forward r q st \<Rightarrow> r = req
     | Request_output r bs \<Rightarrow> r = req | _ \<Rightarrow> False)) es"

lemma only_about_simps [simp]:
  "only_about req []" "only_about req (es @ es') \<longleftrightarrow> only_about req es \<and> only_about req es'"
  "only_about req (Request_complete r st n # es) \<longleftrightarrow> r = req \<and> only_about req es"
  "only_about req (Request_forward r q st # es) \<longleftrightarrow> r = req \<and> only_about req es"
  "only_about req (Request_output r bs # es) \<longleftrightarrow> r = req \<and> only_about req es"
  "only_about req (Dpc_enqueue d # es) = only_about req es"
  by (simp_all add: only_about_def)

lemma only_about_calm: "calm es \<Longrightarrow> only_about req es"
  by (auto simp: only_about_def calm_def list_all_iff)

lemmas only_about_quiet = only_about_calm [OF calm_quiet]

text \<open>A request answered once, nothing done to any other request, and no memory kept.\<close>

definition answers_once :: "request \<Rightarrow> event list \<Rightarrow> bool" where
  "answers_once req es \<longleftrightarrow> length (answers req es) = 1 \<and> only_about req es \<and> pool_live es = 0 \<and> buffers_live es = 0"

lemma answers_none: "quiet e \<or> of_memory e \<Longrightarrow> answers req (e # es) = answers req es"
  by (cases e) (simp_all add: answers_def)

lemma answers_calm: "calm es \<Longrightarrow> answers req es = []"
proof -
  assume "calm es"
  then have "list_all (\<lambda>e. quiet e \<or> of_memory e) es" by (simp add: calm_def)
  then show ?thesis by (induction es) (auto simp: answers_none, simp add: answers_def)
qed

lemmas answers_quiet = answers_calm [OF calm_quiet]

lemma answers_simps [simp]:
  "answers req [] = []" "answers req (es @ es') = answers req es @ answers req es'"
  "answers req (Request_complete req st n # es) = Request_complete req st n # answers req es"
  "answers req (Request_forward req q st # es) =
     (if st = STATUS_SUCCESS then Request_forward req q st # answers req es else answers req es)"
  "answers req (Dpc_enqueue d # es) = answers req es"
  by (simp_all add: answers_def)

text \<open>The end of the write handler: the frame is queued, the request is completed or
  waits in the second queue.\<close>

lemma io_write_end:
  "\<exists>es. (if wait_on_write t \<noteq> 0 then
            (let (status, s3) = forward E req write_queue2 t
             in if \<not> NT_SUCCESS status then Some (complete req status 0 s3)
                else Some (if fscc_port_uses_dma s3 = 0 then emit (Dpc_enqueue oframe_dpc) s3 else s3))
          else
            (let s3 = complete req st cnt t
             in Some (if fscc_port_uses_dma s3 = 0 then emit (Dpc_enqueue oframe_dpc) s3 else s3))) =
       Some (emits es t) \<and> answers_once req es"
proof -
  obtain fst s3 where f: "forward E req write_queue2 t = (fst, s3)" by fastforce
  then have s3: "s3 = emits [Request_forward req write_queue2 fst] t"
    by (auto simp: forward_def emit_emits Let_def)
  show ?thesis unfolding f s3
    by (auto simp: Let_def complete_def emit_emits emits_emits answers_once_def intro!: exI)
qed

lemma clock_reads:
  obtains late vs where
    "(if ignore_timeout s = FALSE then fscc_port_timed_out E s else (False, s)) =
       (late, emits (map (rd (port_card s) 0 STAR_OFFSET) vs) s)"
proof (cases "ignore_timeout s = FALSE")
  case True
  obtain late s1 where late: "fscc_port_timed_out E s = (late, s1)" by fastforce
  with True timed_out_loop_reads [of E 20 s late s1] that show thesis
    by (auto simp: fscc_port_timed_out_def)
next
  case False
  with that [of False "[]"] show thesis by simp
qed

text \<open>A write is taken when it is not empty, fits the ring and the free descriptors, does not
  block, and the clock and the buffer of the request are there.\<close>

definition write_taken :: "driver \<Rightarrow> dma_frame list \<Rightarrow> nat \<Rightarrow> bool \<Rightarrow> NTSTATUS \<Rightarrow> bool" where
  "write_taken s F len late bst \<longleftrightarrow> len \<noteq> 0 \<and> \<not> len > unat (tx_size (memory s) * tx_num (memory s)) \<and>
     blocking_write s = 0 \<and> \<not> tx_space F < len \<and> \<not> late \<and> bst = STATUS_SUCCESS"

lemma io_write_refused:
  assumes space: "fscc_user_get_tx_space s = Some (tx_space F)"
    and clock: "(if ignore_timeout s = FALSE then fscc_port_timed_out E s else (False, s)) = (late, emits es1 s)"
    and quiet: "list_all quiet es1"
    and buf: "input_buffer E req len = (bst, buf)" and "\<not> write_taken s F len late bst"
  shows "\<exists>es. FsccEvtIoWrite E req len s = Some (emits es s) \<and> answers_once req es"
proof -
  let ?fwd = "forward_to_queue E (events s) req blocking_request_queue"
  let ?st = "if late then STATUS_IO_TIMEOUT else bst"
  consider "len = 0" | "len \<noteq> 0" "len > unat (tx_size (memory s) * tx_num (memory s))"
    | "len \<noteq> 0" "\<not> len > unat (tx_size (memory s) * tx_num (memory s))" "blocking_write s \<noteq> 0"
    | "len \<noteq> 0" "\<not> len > unat (tx_size (memory s) * tx_num (memory s))" "blocking_write s = 0" "tx_space F < len"
    | "len \<noteq> 0" "\<not> len > unat (tx_size (memory s) * tx_num (memory s))" "blocking_write s = 0"
      "\<not> tx_space F < len" "late \<or> bst \<noteq> STATUS_SUCCESS"
    using assms(5) by (auto simp: write_taken_def)
  then show ?thesis
  proof cases
    case 1
    then show ?thesis by (intro exI [of _ "[Request_complete req STATUS_SUCCESS 0]"])
        (simp add: answers_once_def FsccEvtIoWrite_def complete_def emit_emits)
  next
    case 2
    then show ?thesis by (intro exI [of _ "[Request_complete req STATUS_BUFFER_TOO_SMALL 0]"])
        (simp add: answers_once_def FsccEvtIoWrite_def complete_def emit_emits)
  next
    case 3
    then show ?thesis by (intro exI [of _ "[Request_forward req blocking_request_queue ?fwd,
            if ?fwd = STATUS_SUCCESS then Dpc_enqueue request_dpc else Request_complete req ?fwd 0]"])
        (simp add: answers_once_def FsccEvtIoWrite_def complete_def forward_def Let_def emit_emits emits_emits)
  next
    case 4
    then show ?thesis by (intro exI [of _ "[Request_complete req STATUS_BUFFER_TOO_SMALL 0]"])
        (simp add: answers_once_def FsccEvtIoWrite_def complete_def emit_emits space)
  next
    case 5
    then show ?thesis using answers_quiet [OF quiet, of req] only_about_quiet [OF quiet, of req] live_quiet [OF quiet]
      by (intro exI [of _ "es1 @ [Request_complete req ?st 0]"])
        (auto simp: answers_once_def FsccEvtIoWrite_def complete_def emit_emits space clock buf emits_emits)
  qed
qed

lemma io_write_takes:
  assumes state: "tx_state fifo s P F" and small: "len < 2 ^ 29" and long: "len \<le> length buf"
    and clock: "(if ignore_timeout s = FALSE then fscc_port_timed_out E s else (False, s)) = (late, emits es1 s)"
    and quiet: "list_all quiet es1"
    and buf: "input_buffer E req len = (bst, buf)" and taken: "write_taken s F len late bst"
  shows "\<exists>t es P' F'. FsccEvtIoWrite E req len s = Some (emits es t) \<and> answers_once req es \<and>
    tx_step s t \<and> tx_state fifo t (P @ P') F' \<and>
    map tx_entry P' = split_frame True len (take len buf) (map (\<lambda>f. unat (data_size f)) F)"
proof -
  let ?n = "of_nat len :: u32" and ?s1 = "emits es1 s"
  have n: "unat ?n = len" using small by (simp add: unsigned_of_nat take_bit_nat_eq_self)
  have state1: "tx_state fifo ?s1 P F" by (rule tx_state_cong [OF state]) simp_all
  obtain t s2 P' F' where w: "fscc_user_write_frame E buf ?n ?s1 = Some (STATUS_SUCCESS, ?n, s2)"
    "user_tx_change ?s1 t" "io_step t s2" "tx_state fifo s2 (P @ P') F'"
    "map tx_entry P' = split_frame True len (take len buf) (map (\<lambda>f. unat (data_size f)) F)"
    using user_write_frame_result [OF state1, of ?n buf E] taken small long by (auto simp: n write_taken_def)
  have "tx_step s ?s1" by (rule io_step_tx_step) (simp add: quiet)
  from tx_step_trans [OF tx_step_trans [OF this user_tx_change_tx_step [OF w(2)]]
      io_step_tx_step [OF w(3)]]
  have step: "tx_step s s2" .
  obtain es where fin: "FsccEvtIoWrite E req len s = Some (emits es s2)" "answers_once req es"
    using taken io_write_end [of s2 E req STATUS_SUCCESS len] tx_space_result [OF state] n
    by (simp add: FsccEvtIoWrite_def clock buf w(1) write_taken_def cong: if_cong) blast
  with step w(4,5) show ?thesis by blast
qed

lemma io_write_result:
  assumes state: "tx_state fifo s P F" and "inputs_as_asked E" "len < 2 ^ 29"
  shows "\<exists>t es P' F'. FsccEvtIoWrite E req len s = Some (emits es t) \<and> answers_once req es \<and>
    tx_step s t \<and> tx_state fifo t (P @ P') F' \<and> (P' = [] \<or>
      map tx_entry P' = split_frame True len (take len (snd (input_buffer E req len))) (map (\<lambda>f. unat (data_size f)) F))"
proof -
  obtain late vs where clock: "(if ignore_timeout s = FALSE then fscc_port_timed_out E s else (False, s)) =
      (late, emits (map (rd (port_card s) 0 STAR_OFFSET) vs) s)" by (rule clock_reads)
  have quiet: "list_all quiet (map (rd (port_card s) 0 STAR_OFFSET) vs)" by simp
  obtain bst buf where buf: "input_buffer E req len = (bst, buf)" by fastforce
  show ?thesis
  proof (cases "write_taken s F len late bst")
    case True
    then have "len \<le> length buf" using assms(2) buf
      by (auto simp: write_taken_def inputs_as_asked_def split: prod.splits)
    from io_write_takes [OF state assms(3) this clock quiet buf True] show ?thesis
      unfolding buf snd_conv by blast
  next
    case False
    from io_write_refused [OF tx_space_result [OF state] clock quiet buf False] obtain es where
      "FsccEvtIoWrite E req len s = Some (emits es s)" "answers_once req es" by blast
    with state show ?thesis by (intro exI [of _ s] exI [of _ es] exI [of _ "[]"] exI [of _ F]) simp
  qed
qed

lemma emits_tx_ring:
  assumes "tx_state fifo t P F"
  shows "tx_ring_ok fifo (emits es t)" "tx_queue (emits es t) = P" "tx_free (emits es t) = F"
proof -
  have "tx_state fifo (emits es t) P F" by (rule tx_state_cong [OF assms]) simp_all
  then show "tx_ring_ok fifo (emits es t)" "tx_queue (emits es t) = P" "tx_free (emits es t) = F"
    by (simp_all add: tx_state_queue)
qed

lemma answers_after_step:
  assumes "tx_step s t" "answers_once req es"
  shows "length (answers req (new_events s (emits es t))) = 1"
proof -
  obtain es0 where es0: "events t = rev es0 @ events s" "list_all quiet es0" by (rule tx_step_events [OF assms(1)])
  have "new_events s (emits es t) = es0 @ es" by (rule new_events_eq) (simp add: es0)
  with assms(2) answers_quiet [OF es0(2)] show ?thesis by (simp add: answers_once_def)
qed

text \<open>Property C24. A write request of less than 2^29 bytes (the length field of a descriptor) is
  answered exactly once, on every path: it is
  completed (an empty write, a frame larger than the ring or than the free descriptors, a
  missing clock, a refused buffer, or the frame taken), or handed to another queue (a
  blocking write, or a write that waits for the end of its frame). No path accesses
  invalid memory, the transmit ring stays well-formed, and the queue only ever grows, by
  nothing or by the frame.\<close>

theorem io_write_answered_once:
  assumes "tx_ring_ok fifo s" "inputs_as_asked E" "len < 2 ^ 29"
  shows "case FsccEvtIoWrite E req len s of
      None \<Rightarrow> False
    | Some s' \<Rightarrow> length (answers req (new_events s s')) = 1 \<and> tx_ring_ok fifo s' \<and>
        rx_descriptors s' = rx_descriptors s \<and>
        map tx_entry (tx_queue s') \<in>
          {map tx_entry (tx_queue s),
           map tx_entry (tx_queue s) @ split_frame True len (take len (snd (input_buffer E req len)))
             (map (\<lambda>f. unat (data_size f)) (tx_free s))}"
proof -
  from io_write_result [OF tx_ring_ok_state [OF assms(1)] assms(2,3)] obtain t es P' F' where r:
    "FsccEvtIoWrite E req len s = Some (emits es t)" "answers_once req es" "tx_step s t"
    "tx_state fifo t (tx_queue s @ P') F'" "P' = [] \<or> map tx_entry P' =
      split_frame True len (take len (snd (input_buffer E req len))) (map (\<lambda>f. unat (data_size f)) (tx_free s))"
    by blast
  with emits_tx_ring [OF r(4)] answers_after_step [OF r(3,2)] tx_stepD(4) [OF r(3)] show ?thesis by auto
qed

lemma io_write_answered_once_witness:
  "case FsccEvtIoWrite example_env 7 10 free_port of
      None \<Rightarrow> False
    | Some s' \<Rightarrow> length (answers 7 (new_events free_port s')) = 1 \<and> tx_ring_ok True s' \<and>
        rx_descriptors s' = rx_descriptors free_port \<and>
        map tx_entry (tx_queue s') \<in>
          {map tx_entry (tx_queue free_port),
           map tx_entry (tx_queue free_port) @
             split_frame True 10 (take 10 (snd (input_buffer example_env 7 10)))
             (map (\<lambda>f. unat (data_size f)) (tx_free free_port))}"
  by (rule io_write_answered_once)
    (simp_all add: tx_ring_defs example_defs inputs_as_asked_def)

end
