(* ===== verification/Fscc_Rx.thy ===== *)
theory Fscc_Rx
  imports Fscc_Frames
begin

text \<open>
  Reception (\<open>io.c\<close>): the FIFO is emptied into the descriptors at the FIFO cursor, a
  frame is finished by its size or a descriptor by being full, and the user side reads
  whole frames, or a stream of bytes, from the user cursor on. The bytes a copy puts into
  the user's buffer are the result of the model; a copy past the end of that buffer or of
  a descriptor's buffer is an invalid access.
\<close>

section \<open>Looking at the ring\<close>

fun next_read_loop :: "nat \<Rightarrow> u32 \<Rightarrow> u32 \<Rightarrow> driver \<Rightarrow> (bool \<times> u32) option" where
  "next_read_loop 0 cur_desc bytes s = Some (False, bytes)"
| "next_read_loop (Suc n) cur_desc bytes s =
     do { f \<leftarrow> frame_at (rx_descriptors s) cur_desc;
          let control = frame_control f;
          if control AND DESC_FE_BIT = 0 \<and> control AND DESC_CSTOP_BIT = 0 then Some (False, bytes)
          else if control AND DESC_FE_BIT \<noteq> 0 \<and> control AND DESC_CSTOP_BIT \<noteq> 0
            then Some (True, control AND DMA_MAX_LENGTH)
          else next_read_loop n (next_desc (rx_num (memory s)) cur_desc) (bytes + frame_count f) s }"

definition fscc_user_next_read_size :: "driver \<Rightarrow> (bool \<times> u32) option" where
  "fscc_user_next_read_size s = next_read_loop (unat (rx_num (memory s))) (user_rx_desc s) 0 s"

definition fscc_io_has_incoming_data :: "driver \<Rightarrow> u32 option" where
  "fscc_io_has_incoming_data s =
     do { (frame_waiting, bytes_waiting) \<leftarrow> fscc_user_next_read_size s;
          Some (if fscc_io_is_streaming s \<noteq> 0 then bytes_waiting
                else if frame_waiting then 1 else 0) }"

text \<open>Stamping a frame whose time is not set yet.\<close>

definition stamp :: "env \<Rightarrow> dma_frame \<Rightarrow> driver \<Rightarrow> dma_frame \<times> driver" where
  "stamp E f s =
     (if timestamp_is_empty (timestamp f)
      then (let (t, s1) = query_time E s in (f\<lparr>timestamp := t\<rparr>, s1)) else (f, s))"

fun apply_timestamps_loop :: "env \<Rightarrow> nat \<Rightarrow> u32 \<Rightarrow> driver \<Rightarrow> driver option" where
  "apply_timestamps_loop E 0 cur_desc s = Some s"
| "apply_timestamps_loop E (Suc n) cur_desc s =
     do { f \<leftarrow> frame_at (rx_descriptors s) cur_desc;
          if frame_control f AND DESC_FE_BIT = 0 \<and> frame_control f AND DESC_CSTOP_BIT = 0 then Some s
          else (let (f, s1) = stamp E f s
                in apply_timestamps_loop E n (next_desc (rx_num (memory s1)) cur_desc)
                     (s1\<lparr>rx_descriptors := put_frame (rx_descriptors s1) cur_desc f\<rparr>)) }"

definition fscc_dma_apply_timestamps :: "env \<Rightarrow> driver \<Rightarrow> driver option" where
  "fscc_dma_apply_timestamps E s =
     apply_timestamps_loop E (unat (rx_num (memory s))) (user_rx_desc s) s"

section \<open>From the FIFO to the descriptors\<close>

text \<open>The size of the frame, when the FIFO holds a whole one.\<close>

definition refresh_frame_size :: "env \<Rightarrow> driver \<Rightarrow> driver" where
  "refresh_frame_size E s =
     (if rx_frame_size s = 0
      then (let (rfcnt, s1) = fscc_io_get_RFCNT E s
            in if rfcnt \<noteq> 0
               then (let (v, s2) = fscc_port_get_register E 0 BC_FIFO_L_OFFSET s1
                     in s2\<lparr>rx_frame_size := v\<rparr>)
               else s1)
      else s)"

text \<open>How much to take out of the FIFO, before the descriptor limits it.\<close>

definition wanted_length :: "env \<Rightarrow> driver \<Rightarrow> u32 \<times> driver" where
  "wanted_length E s =
     (if rx_frame_size s \<noteq> 0
      then (if sint (rx_frame_size s) > sint (rx_bytes_in_frame s)
            then rx_frame_size s - rx_bytes_in_frame s else 0, s)
      else (let (rxcnt, s1) = fscc_io_get_RXCNT E s in (rxcnt - rxcnt mod 4, s1)))"

text \<open>The body of the loop: whether the descriptor was finished, and the port. The
  \<open>unsigned char\<close> pointer arithmetic on the buffer is the offset of \<open>rtl_copy\<close>.\<close>

definition fifo_read_step :: "env \<Rightarrow> dma_frame \<Rightarrow> driver \<Rightarrow> (bool \<times> driver) option" where
  "fifo_read_step E f s =
     (let new_control = frame_control f;
          s1 = refresh_frame_size E s;
          (wanted, s2) = wanted_length E s1;
          receive_length = min wanted (data_size f - (new_control AND DMA_MAX_LENGTH))
      in do {
        (buf, s3) \<leftarrow> (if receive_length \<noteq> 0
           then (let (bytes, s3) = fscc_port_get_register_rep E 0 FIFO_OFFSET (unat receive_length) s2
                 in do { buf \<leftarrow> rtl_copy (buffer f) (unat (new_control AND DMA_MAX_LENGTH)) bytes
                                  (unat receive_length);
                         Some (buf, s3) })
           else Some (buffer f, s2));
        let new_control = new_control + receive_length;
        let s4 = s3\<lparr>rx_bytes_in_frame := rx_bytes_in_frame s3 + receive_length\<rparr>;
        let new_control = (if (new_control AND DMA_MAX_LENGTH) \<ge> data_size f
              then (new_control AND NOT DMA_MAX_LENGTH) OR DESC_CSTOP_BIT else new_control);
        let frame_done = (sint (rx_frame_size s4) > 0 \<and>
              sint (rx_bytes_in_frame s4) \<ge> sint (rx_frame_size s4));
        let new_control = (if frame_done
              then (rx_frame_size s4 OR DESC_CSTOP_BIT) OR DESC_FE_BIT else new_control);
        let s5 = (if frame_done then s4\<lparr>rx_frame_size := 0, rx_bytes_in_frame := 0\<rparr> else s4);
        let finished = (new_control AND DESC_CSTOP_BIT \<noteq> 0);
        let f = f\<lparr>buffer := buf\<rparr>;
        let (f, s6) = (if finished
              then (let (f, s6) = stamp E f s5 in (set_data_count (data_size f) f, s6))
              else (f, s5));
        let f = set_control new_control f;
        if finished then Some (True, step_fifo_rx f s6)
        else Some (False, s6\<lparr>rx_descriptors := put_frame (rx_descriptors s6) (fifo_rx_desc s6) f\<rparr>) })"

fun fifo_read_loop :: "env \<Rightarrow> nat \<Rightarrow> driver \<Rightarrow> driver option" where
  "fifo_read_loop E 0 s = Some s"
| "fifo_read_loop E (Suc n) s =
     do { f \<leftarrow> frame_at (rx_descriptors s) (fifo_rx_desc s);
          if frame_control f AND DESC_CSTOP_BIT = DESC_CSTOP_BIT then Some s
          else do {
            (finished, s1) \<leftarrow> fifo_read_step E f s;
            if finished then fifo_read_loop E n s1 else Some s1 } }"

definition fscc_fifo_read_data :: "env \<Rightarrow> driver \<Rightarrow> (NTSTATUS \<times> driver) option" where
  "fscc_fifo_read_data E s =
     do { s1 \<leftarrow> fifo_read_loop E (unat (rx_num (memory s))) s; Some (STATUS_SUCCESS, s1) }"

section \<open>From the descriptors to the user\<close>

text \<open>\<open>RtlCopyMemory(buf + *out_length, src, n)\<close> into a buffer of \<open>buf_length\<close> bytes of
  which the first \<open>*out_length\<close> are \<open>out\<close>.\<close>

definition copy_out :: "u32 \<Rightarrow> u8 list \<Rightarrow> u8 list \<Rightarrow> nat \<Rightarrow> u8 list option" where
  "copy_out buf_length out src n =
     (if length out + n \<le> unat buf_length \<and> n \<le> length src then Some (out @ take n src) else None)"

text \<open>\<open>sizeof(fscc_timestamp)\<close> is 8.\<close>

definition valid_data :: "'a fscc_port_scheme \<Rightarrow> u32 \<Rightarrow> u32" where
  "valid_data s bytes_in_descs = bytes_in_descs - (if append_status s \<noteq> 0 then 0 else 2)"

definition buffer_requirement :: "'a fscc_port_scheme \<Rightarrow> u32 \<Rightarrow> u32" where
  "buffer_requirement s bytes_in_descs =
     valid_data s bytes_in_descs + (if append_timestamp s \<noteq> 0 then 8 else 0)"

text \<open>The body of the loop of \<open>fscc_user_read_frame\<close>: the new \<open>bytes_in_descs\<close>,
  \<open>total_valid_data\<close>, \<open>filled_frame_size\<close>, the bytes copied so far, and the port.\<close>

definition read_frame_step ::
  "env \<Rightarrow> u32 \<Rightarrow> u32 \<Rightarrow> u32 \<Rightarrow> u32 \<Rightarrow> u8 list \<Rightarrow> driver \<Rightarrow> (u32 \<times> u32 \<times> u32 \<times> u8 list \<times> driver) option" where
  "read_frame_step E buf_length bytes_in_descs total_valid_data filled_frame_size out s =
     do { f \<leftarrow> frame_at (rx_descriptors s) (user_rx_desc s);
          let control = frame_control f;
          let planned_move_size =
            (if control AND DESC_FE_BIT \<noteq> 0 \<and> control AND DESC_CSTOP_BIT \<noteq> 0
             then (control AND DMA_MAX_LENGTH) - filled_frame_size else frame_count f);
          let real_move_size =
            (if planned_move_size > total_valid_data then total_valid_data else planned_move_size);
          out \<leftarrow> (if real_move_size \<noteq> 0
                   then copy_out buf_length out (buffer f) (unat real_move_size) else Some out);
          let bytes_in_descs =
            (if planned_move_size > bytes_in_descs then 0 else bytes_in_descs - planned_move_size);
          let total_valid_data = total_valid_data - real_move_size;
          let filled_frame_size = filled_frame_size + real_move_size;
          (out, s1) \<leftarrow> (if bytes_in_descs = 0 \<and> append_timestamp s \<noteq> 0
             then (let (f, s1) = stamp E f s
                   in do { out \<leftarrow> copy_out buf_length out (timestamp_bytes (timestamp f)) 8;
                           Some (out, s1) })
             else Some (out, s));
          let f = set_control DESC_HI_BIT (f\<lparr>timestamp := clear_timestamp\<rparr>);
          Some (bytes_in_descs, total_valid_data, filled_frame_size, out, step_user_rx f s1) }"

fun read_frame_loop ::
  "env \<Rightarrow> u32 \<Rightarrow> nat \<Rightarrow> u32 \<Rightarrow> u32 \<Rightarrow> u32 \<Rightarrow> u8 list \<Rightarrow> driver \<Rightarrow> (u8 list \<times> driver) option" where
  "read_frame_loop E buf_length 0 bytes_in_descs total_valid_data filled_frame_size out s = Some (out, s)"
| "read_frame_loop E buf_length (Suc n) bytes_in_descs total_valid_data filled_frame_size out s =
     do { (bytes_in_descs, total_valid_data, filled_frame_size, out, s) \<leftarrow>
            read_frame_step E buf_length bytes_in_descs total_valid_data filled_frame_size out s;
          if bytes_in_descs \<noteq> 0
          then read_frame_loop E buf_length n bytes_in_descs total_valid_data filled_frame_size out s
          else if rx_multiple s = 0 then Some (out, s)
          else do {
            (frame_ready, bytes_in_descs) \<leftarrow> fscc_user_next_read_size s;
            if \<not> frame_ready then Some (out, s)
            else if buffer_requirement s bytes_in_descs > buf_length - of_nat (length out) then Some (out, s)
            else read_frame_loop E buf_length n bytes_in_descs (valid_data s bytes_in_descs) 0 out s } }"

definition fscc_user_read_frame ::
  "env \<Rightarrow> u32 \<Rightarrow> driver \<Rightarrow> (NTSTATUS \<times> u8 list \<times> driver) option" where
  "fscc_user_read_frame E buf_length s =
     do { (frame_ready, bytes_in_descs) \<leftarrow> fscc_user_next_read_size s;
          if \<not> frame_ready then Some (STATUS_BUFFER_TOO_SMALL, [], s)
          else if buffer_requirement s bytes_in_descs > buf_length
            then Some (STATUS_BUFFER_TOO_SMALL, [], s)
          else do {
            (out, s1) \<leftarrow> read_frame_loop E buf_length (unat (rx_num (memory s)))
              bytes_in_descs (valid_data s bytes_in_descs) 0 [] s;
            Some (STATUS_SUCCESS, out, s1) } }"

text \<open>\<open>RtlMoveMemory(buffer, buffer + from, n)\<close> inside one buffer.\<close>

definition move_to_front :: "u8 list \<Rightarrow> nat \<Rightarrow> nat \<Rightarrow> u8 list option" where
  "move_to_front bs from n =
     (if from + n \<le> length bs then Some (take n (drop from bs) @ drop n bs) else None)"

text \<open>\<open>odd_desc\<close> is \<open>i%2\<close>.\<close>

fun read_stream_loop :: "u32 \<Rightarrow> nat \<Rightarrow> bool \<Rightarrow> u8 list \<Rightarrow> driver \<Rightarrow> (u8 list \<times> driver) option" where
  "read_stream_loop buf_length 0 odd_desc out s = Some (out, s)"
| "read_stream_loop buf_length (Suc n) odd_desc out s =
     do { f \<leftarrow> frame_at (rx_descriptors s) (user_rx_desc s);
          let control = frame_control f;
          if control AND DESC_FE_BIT = 0 \<and> control AND DESC_CSTOP_BIT = 0 then Some (out, s)
          else do {
            let receive_length = min (frame_count f) (buf_length - of_nat (length out));
            out \<leftarrow> copy_out buf_length out (buffer f) (unat receive_length);
            if receive_length = frame_count f
            then read_stream_loop buf_length n (\<not> odd_desc) out
                   (step_user_rx (set_control (if odd_desc then DESC_HI_BIT else 0)
                     ((set_data_count (data_size f) f)\<lparr>timestamp := clear_timestamp\<rparr>)) s)
            else do {
              let remaining = frame_count f - receive_length;
              bs \<leftarrow> move_to_front (buffer f) (unat receive_length) (unat remaining);
              Some (out, s\<lparr>rx_descriptors := put_frame (rx_descriptors s) (user_rx_desc s)
                     (set_data_count remaining (f\<lparr>buffer := bs\<rparr>))\<rparr>) } } }"

definition fscc_user_read_stream :: "u32 \<Rightarrow> driver \<Rightarrow> (NTSTATUS \<times> u8 list \<times> driver) option" where
  "fscc_user_read_stream buf_length s =
     do { (out, s1) \<leftarrow> read_stream_loop buf_length (unat (rx_num (memory s))) False [] s;
          Some (STATUS_SUCCESS, out, s1) }"

section \<open>The read request\<close>

definition complete_read :: "request \<Rightarrow> NTSTATUS \<Rightarrow> u8 list \<Rightarrow> driver \<Rightarrow> driver" where
  "complete_read req status out s =
     emits [Request_output req out, Request_complete req status (length out)] s"

definition FsccEvtIoRead :: "env \<Rightarrow> request \<Rightarrow> nat \<Rightarrow> driver \<Rightarrow> driver" where
  "FsccEvtIoRead E req len s =
     (if len = 0 then emit (Request_complete req STATUS_SUCCESS len) s
      else (let status = forward_to_queue E (events s) req read_queue2;
                s1 = emit (Request_forward req read_queue2 status) s
            in if \<not> NT_SUCCESS status then emit (Request_complete req status 0) s1
               else emit (Dpc_enqueue process_read_dpc) s1))"

text \<open>The read length of the request is cut to 32 bits.\<close>

definition FsccProcessRead :: "env \<Rightarrow> driver \<Rightarrow> driver option" where
  "FsccProcessRead E s =
     (let streaming = fscc_io_is_streaming s
      in do {
        (frame_ready, bytes_ready) \<leftarrow> fscc_user_next_read_size s;
        if bytes_ready = 0 then Some s
        else if streaming = 0 \<and> \<not> frame_ready then Some s
        else (let (status, req) = retrieve_next E (events s) read_queue2;
                  s1 = emit (Queue_retrieve read_queue2 status req) s
          in if \<not> NT_SUCCESS status then Some s1
          else (let len = of_nat (request_length E req) :: u32;
                    status = output_buffer E req (unat len)
            in if \<not> NT_SUCCESS status then Some (emit (Request_complete req status 0) s1)
            else do {
              (status, out, s2) \<leftarrow> (if streaming \<noteq> 0 then fscc_user_read_stream len s1
                                   else fscc_user_read_frame E len s1);
              if \<not> NT_SUCCESS status then Some (emit (Request_complete req status 0) s2)
              else Some (complete_read req status out s2) })) })"

section \<open>The receive ring as a queue\<close>

definition rx_done :: "dma_frame \<Rightarrow> bool" where
  "rx_done f \<longleftrightarrow> bit (frame_control f) 30"

definition rx_final :: "dma_frame \<Rightarrow> bool" where
  "rx_final f \<longleftrightarrow> bit (frame_control f) 30 \<and> bit (frame_control f) 31"

definition rx_open :: "dma_frame \<Rightarrow> bool" where
  "rx_open f \<longleftrightarrow> \<not> bit (frame_control f) 30 \<and> \<not> bit (frame_control f) 31"

text \<open>The bytes an unfinished descriptor holds, counted in its control word.\<close>

definition held :: "dma_frame \<Rightarrow> nat" where
  "held f = unat (frame_control f AND DMA_MAX_LENGTH)"

definition rx_view :: "driver \<Rightarrow> dma_frame list" where
  "rx_view s = view_from (rx_descriptors s) (user_rx_desc s)"

definition rx_queue :: "driver \<Rightarrow> dma_frame list" where
  "rx_queue s = takeWhile rx_done (rx_view s)"

definition rx_free :: "driver \<Rightarrow> dma_frame list" where
  "rx_free s = dropWhile rx_done (rx_view s)"

text \<open>The invariant: the finished descriptors are the ones from the user cursor up to the first
  unfinished one, no other descriptor is finished or ends a frame, only the first unfinished one
  may hold bytes, and it is not full. When \<open>fifo\<close> holds, the FIFO cursor is in step: it is
  at the first unfinished descriptor. The DMA engine does not move this cursor, so that with DMA
  the other parts are all that can be relied on.\<close>

definition rx_free_ok :: "dma_frame list \<Rightarrow> bool" where
  "rx_free_ok C \<longleftrightarrow> list_all rx_open C \<and>
     (case C of [] \<Rightarrow> True | f # fs \<Rightarrow> held f < unat (data_size f) \<and> list_all (\<lambda>f. held f = 0) fs)"

definition rx_count_ok :: "dma_frame \<Rightarrow> bool" where
  "rx_count_ok f \<longleftrightarrow> frame_count f \<le> data_size f"

definition rx_ring_ok :: "bool \<Rightarrow> driver \<Rightarrow> bool" where
  "rx_ring_ok fifo s \<longleftrightarrow>
     ring_at (rx_descriptors s) (rx_num (memory s)) (user_rx_desc s) \<and>
     list_all frame_ok (rx_view s) \<and> list_all rx_count_ok (rx_queue s) \<and> rx_free_ok (rx_free s) \<and>
     (fifo \<longrightarrow> unat (fifo_rx_desc s) =
       (unat (user_rx_desc s) + length (rx_queue s)) mod unat (rx_num (memory s)))"

definition rx_state :: "bool \<Rightarrow> driver \<Rightarrow> dma_frame list \<Rightarrow> dma_frame list \<Rightarrow> bool" where
  "rx_state fifo s D C \<longleftrightarrow> ring_at (rx_descriptors s) (rx_num (memory s)) (user_rx_desc s) \<and>
     rx_view s = D @ C \<and> list_all rx_done D \<and> rx_free_ok C \<and>
     list_all frame_ok (D @ C) \<and> list_all rx_count_ok D \<and>
     (fifo \<longrightarrow> unat (fifo_rx_desc s) = (unat (user_rx_desc s) + length D) mod unat (rx_num (memory s)))"

lemma rx_ring_ok_state: "rx_ring_ok fifo s \<Longrightarrow> rx_state fifo s (rx_queue s) (rx_free s)"
  by (auto simp: rx_ring_ok_def rx_state_def rx_queue_def rx_free_def list_all_iff dest: set_takeWhileD)

lemma rx_state_queue:
  assumes "rx_state fifo s D C"
  shows "rx_queue s = D" "rx_free s = C" "rx_ring_ok fifo s"
proof -
  have "takeWhile rx_done (D @ C) = D" "dropWhile rx_done (D @ C) = C"
    using assms by (cases C; auto simp: rx_state_def rx_free_ok_def rx_open_def rx_done_def
        list_all_iff takeWhile_append dropWhile_append)+
  then show "rx_queue s = D" "rx_free s = C" "rx_ring_ok fifo s"
    using assms by (auto simp: rx_ring_ok_def rx_queue_def rx_free_def rx_state_def)
qed

lemma rx_state_num: "rx_state fifo s D C \<Longrightarrow> unat (rx_num (memory s)) = length D + length C"
  using user_rx.length_view [of s] by (auto simp: rx_state_def rx_view_def)

lemma rx_state_cong:
  "rx_state fifo s D C \<Longrightarrow> rx_descriptors t = rx_descriptors s \<Longrightarrow> memory t = memory s \<Longrightarrow>
   fifo_rx_desc t = fifo_rx_desc s \<Longrightarrow> user_rx_desc t = user_rx_desc s \<Longrightarrow> rx_state fifo t D C"
  by (simp add: rx_state_def rx_view_def)

lemma rx_state_io_step: "rx_state fifo s D C \<Longrightarrow> io_step s t \<Longrightarrow> rx_state fifo t D C"
  by (erule rx_state_cong) (simp_all add: io_stepD)

text \<open>The steps on the ring: finishing the descriptor at the FIFO cursor, changing it in
  place, and giving back the one at the user cursor.\<close>

lemma rx_state_at_fifo:
  assumes "rx_state True s D (f # C)"
  shows "frame_at (rx_descriptors s) (fifo_rx_desc s) = Some f"
proof -
  have "ring_at (rx_descriptors s) (rx_num (memory s)) (user_rx_desc s)"
    "unat (fifo_rx_desc s) = (unat (user_rx_desc s) + length D) mod unat (rx_num (memory s))"
    using assms by (simp_all add: rx_state_def)
  from view_from_put(3) [OF this] rx_state_num [OF assms] assms show ?thesis
    by (simp add: rx_state_def rx_view_def)
qed

lemma rx_free_ok_tail: "rx_free_ok (f # C) \<Longrightarrow> list_all frame_ok C \<Longrightarrow> rx_free_ok C"
  by (cases C) (auto simp: rx_free_ok_def frame_ok_def)

lemma rx_state_finish:
  assumes "rx_state True s D (f # C)" "rx_done f'" "frame_ok f'" "rx_count_ok f'"
  shows "rx_state True (step_fifo_rx f' s) (D @ [f']) C"
proof -
  have ring: "ring_at (rx_descriptors s) (rx_num (memory s)) (user_rx_desc s)"
    and view: "view_from (rx_descriptors s) (user_rx_desc s) = D @ f # C"
    and apart: "unat (fifo_rx_desc s) =
      (unat (user_rx_desc s) + length D) mod unat (rx_num (memory s))"
    and k: "length D < unat (rx_num (memory s))"
    using assms(1) rx_state_num [OF assms(1)] by (simp_all add: rx_state_def rx_view_def)
  from rx.put_view [OF ring apart k, of f'] view
  have "rx_view (step_fifo_rx f' s) = (D @ [f']) @ C" by (simp add: rx_view_def)
  moreover have "memory (step_fifo_rx f' s) = memory s" by (simp add: step_fifo_rx_def)
  ultimately show ?thesis
    using assms rx.put_ring [OF ring, of f'] rx.put_apart [OF ring apart, of f'] rx_free_ok_tail [of f C]
    by (simp add: rx_state_def)
qed

lemma rx_state_update:
  assumes "rx_state True s D (f # C)" "rx_free_ok (f' # C)" "frame_ok f'"
    and "t = s\<lparr>rx_descriptors := put_frame (rx_descriptors s) (fifo_rx_desc s) f'\<rparr>"
  shows "rx_state True t D (f' # C)"
proof -
  have ring: "ring_at (rx_descriptors s) (rx_num (memory s)) (user_rx_desc s)"
    and view: "view_from (rx_descriptors s) (user_rx_desc s) = D @ f # C"
    and apart: "unat (fifo_rx_desc s) =
      (unat (user_rx_desc s) + length D) mod unat (rx_num (memory s))"
    and k: "length D < unat (rx_num (memory s))"
    using assms(1) rx_state_num [OF assms(1)] by (simp_all add: rx_state_def rx_view_def)
  from view_from_put(1,2) [OF ring apart k, of f'] view assms show ?thesis
    by (simp add: rx_state_def rx_view_def)
qed

lemma rx_state_give_back:
  assumes "rx_state fifo s (f # D) C" "rx_open f'" "held f' = 0" "frame_ok f'"
  shows "frame_at (rx_descriptors s) (user_rx_desc s) = Some f"
    and "rx_state fifo (step_user_rx f' s) D (C @ [f'])"
proof -
  have ring: "ring_at (rx_descriptors s) (rx_num (memory s)) (user_rx_desc s)"
    and view: "view_from (rx_descriptors s) (user_rx_desc s) = f # D @ C"
    using assms(1) by (simp_all add: rx_state_def rx_view_def)
  from user_rx.frame_at_cursor [OF ring] view
  show "frame_at (rx_descriptors s) (user_rx_desc s) = Some f" by simp
  from user_rx.view_step [OF ring, of f'] view
  have "rx_view (step_user_rx f' s) = D @ C @ [f']" by (simp add: rx_view_def)
  moreover have "memory (step_user_rx f' s) = memory s" by (simp add: step_user_rx_def)
  moreover have "rx_free_ok (C @ [f'])"
    using assms by (cases C) (auto simp: rx_state_def rx_free_ok_def frame_ok_def)
  ultimately show "rx_state fifo (step_user_rx f' s) D (C @ [f'])"
    using assms user_rx.ring_step [OF ring, of f'] rx.take_apart [OF ring, of "length D" f']
    by (simp add: rx_state_def)
qed

section \<open>Scanning\<close>

fun frame_scan :: "dma_frame list \<Rightarrow> u32 \<Rightarrow> bool \<times> u32" where
  "frame_scan [] bytes = (False, bytes)"
| "frame_scan (f # fs) bytes =
     (if rx_open f then (False, bytes)
      else if rx_final f then (True, frame_control f AND DMA_MAX_LENGTH)
      else frame_scan fs (bytes + frame_count f))"

lemma control_tests:
  "(frame_control f AND DESC_FE_BIT = 0 \<and> frame_control f AND DESC_CSTOP_BIT = 0) = rx_open f"
  "(frame_control f AND DESC_FE_BIT \<noteq> 0 \<and> frame_control f AND DESC_CSTOP_BIT \<noteq> 0) = rx_final f"
  "(frame_control f AND DESC_CSTOP_BIT = DESC_CSTOP_BIT) = rx_done f"
  by (auto simp: rx_open_def rx_final_def rx_done_def bit_tests)

lemma next_read_loop_scan:
  "ring_at (rx_descriptors s) (rx_num (memory s)) cur \<Longrightarrow> view_from (rx_descriptors s) cur = V \<Longrightarrow>
   n \<le> length V \<Longrightarrow> next_read_loop n cur b s = Some (frame_scan (take n V) b)"
proof (induction n arbitrary: cur b V)
  case 0
  then show ?case by simp
next
  case (Suc n)
  then obtain f fs where V: "V = f # fs" by (cases V) auto
  from scan_ring [OF Suc.prems(1,2) [unfolded V]]
  have here: "frame_at (rx_descriptors s) cur = Some f" and
    rest: "ring_at (rx_descriptors s) (rx_num (memory s)) (next_desc (rx_num (memory s)) cur)"
    "view_from (rx_descriptors s) (next_desc (rx_num (memory s)) cur) = fs @ [f]" .
  from here V Suc.IH [OF rest] Suc.prems(3) show ?case
    by (simp add: control_tests Let_def)
qed

lemma frame_scan_open:
  "rx_free_ok C \<Longrightarrow> frame_scan (D @ C) b = frame_scan D b"
  by (induction D arbitrary: b; cases C) (auto simp: rx_free_ok_def)

lemma next_read_size_eq:
  assumes "rx_state fifo s D C"
  shows "fscc_user_next_read_size s = Some (frame_scan D 0)"
proof -
  have "ring_at (rx_descriptors s) (rx_num (memory s)) (user_rx_desc s)"
    "view_from (rx_descriptors s) (user_rx_desc s) = D @ C" "rx_free_ok C"
    using assms by (simp_all add: rx_state_def rx_view_def)
  with next_read_loop_scan [of s "user_rx_desc s" "D @ C" "unat (rx_num (memory s))" 0]
    rx_state_num [OF assms] show ?thesis
    by (simp add: fscc_user_next_read_size_def frame_scan_open)
qed

lemma rx_state_at_user:
  assumes "rx_state fifo s [] (f # C)"
  shows "frame_at (rx_descriptors s) (user_rx_desc s) = Some f" "rx_open f"
  using assms user_rx.frame_at_cursor [of s] by (auto simp: rx_state_def rx_view_def rx_free_ok_def)

section \<open>Reading a stream\<close>

text \<open>The bytes waiting in finished descriptors.\<close>

definition waiting_bytes :: "dma_frame list \<Rightarrow> u8 list" where
  "waiting_bytes D = concat (map (\<lambda>f. take (unat (frame_count f)) (buffer f)) D)"

lemma waiting_bytes_Cons:
  "waiting_bytes (f # D) = take (unat (frame_count f)) (buffer f) @ waiting_bytes D"
  by (simp add: waiting_bytes_def)

lemma rx_done_open: "rx_done f \<Longrightarrow> \<not> rx_open f"
  by (simp add: rx_done_def rx_open_def)

lemma reset_stream_frame:
  assumes "frame_ok f"
  shows "rx_open (set_control (if odd_desc then DESC_HI_BIT else 0) ((set_data_count c f)\<lparr>timestamp := t\<rparr>))"
    "held (set_control (if odd_desc then DESC_HI_BIT else 0) ((set_data_count c f)\<lparr>timestamp := t\<rparr>)) = 0"
    "frame_ok (set_control (if odd_desc then DESC_HI_BIT else 0) ((set_data_count c f)\<lparr>timestamp := t\<rparr>))"
  using assms by (auto simp: rx_open_def held_def frame_ok_def bit_tests)

text \<open>What the user side of reception may change.\<close>

definition user_rx_change :: "driver \<Rightarrow> driver \<Rightarrow> bool" where
  "user_rx_change s s' \<longleftrightarrow> s' = s\<lparr>rx_descriptors := rx_descriptors s',
     user_rx_desc := user_rx_desc s', events := events s'\<rparr>"

lemma user_rx_change_refl [simp]: "user_rx_change s s"
  by (simp add: user_rx_change_def)

lemma user_rx_change_trans: "user_rx_change s t \<Longrightarrow> user_rx_change t u \<Longrightarrow> user_rx_change s u"
proof -
  assume 1: "user_rx_change s t" and 2: "user_rx_change t u"
  have "t\<lparr>rx_descriptors := d, user_rx_desc := c, events := e\<rparr> =
      s\<lparr>rx_descriptors := d, user_rx_desc := c, events := e\<rparr>" for d c e
    by (subst 1 [unfolded user_rx_change_def]) simp
  with 2 show "user_rx_change s u" unfolding user_rx_change_def by simp
qed

lemma user_rx_change_step [simp]:
  "user_rx_change s (step_user_rx f s)" "user_rx_change s (step_user_rx f (emits es s))"
  "user_rx_change s (s\<lparr>rx_descriptors := d\<rparr>)"
  by (simp_all add: user_rx_change_def step_user_rx_def emits_def)

lemma user_rx_change_sel:
  assumes "user_rx_change s s'"
  shows "port_card s' = port_card s" "memory s' = memory s" "fifo_rx_desc s' = fifo_rx_desc s"
    "tx_descriptors s' = tx_descriptors s" "append_status s' = append_status s"
    "append_timestamp s' = append_timestamp s" "rx_multiple s' = rx_multiple s"
    "register_storage s' = register_storage s"
  by (subst assms [unfolded user_rx_change_def], simp)+

lemma copy_out_Some:
  "length out + n \<le> unat b \<Longrightarrow> n \<le> length src \<Longrightarrow> copy_out b out src n = Some (out @ take n src)"
  by (simp add: copy_out_def)

lemma done_frame_bounds:
  assumes "frame_ok f" "rx_count_ok f"
  shows "unat (frame_count f) \<le> length (buffer f)"
  using assms by (simp add: frame_ok_def rx_count_ok_def word_le_nat_alt)

lemma rx_state_shrink:
  assumes state: "rx_state fifo s (f # D) C" and f': "rx_done f'" "frame_ok f'" "rx_count_ok f'"
    and t: "t = s\<lparr>rx_descriptors := put_frame (rx_descriptors s) (user_rx_desc s) f'\<rparr>"
  shows "rx_state fifo t (f' # D) C"
proof -
  have ring: "ring_at (rx_descriptors s) (rx_num (memory s)) (user_rx_desc s)"
    and view: "view_from (rx_descriptors s) (user_rx_desc s) = f # D @ C"
    using state by (simp_all add: rx_state_def rx_view_def)
  have "unat (user_rx_desc s) = (unat (user_rx_desc s) + 0) mod unat (rx_num (memory s))"
    "0 < unat (rx_num (memory s))"
    using ring_at_less [OF ring] by simp_all
  from view_from_put(1,2) [OF ring this, of f'] view state f' show ?thesis
    by (simp add: t rx_state_def rx_view_def)
qed

text \<open>A descriptor that was read completely, and one of which the first \<open>k\<close> bytes were read.\<close>

definition stream_reset :: "bool \<Rightarrow> dma_frame \<Rightarrow> dma_frame" where
  "stream_reset odd_desc f = set_control (if odd_desc then DESC_HI_BIT else 0)
     ((set_data_count (data_size f) f)\<lparr>timestamp := clear_timestamp\<rparr>)"

definition stream_rest :: "nat \<Rightarrow> dma_frame \<Rightarrow> dma_frame" where
  "stream_rest k f = set_data_count (frame_count f - of_nat k)
     (f\<lparr>buffer := take (unat (frame_count f) - k) (drop k (buffer f)) @ drop (unat (frame_count f) - k) (buffer f)\<rparr>)"

lemma stream_rest_frame:
  assumes "rx_done f" "frame_ok f" "rx_count_ok f" "k < unat (frame_count f)"
  shows "unat (frame_count f - of_nat k) = unat (frame_count f) - k"
    "rx_done (stream_rest k f)" "frame_ok (stream_rest k f)" "rx_count_ok (stream_rest k f)"
    "move_to_front (buffer f) k (unat (frame_count f - of_nat k)) = Some (buffer (stream_rest k f))"
    "waiting_bytes (stream_rest k f # D) = drop k (waiting_bytes (f # D))"
proof -
  note count = done_frame_bounds [OF assms(2,3)]
  have "unat (frame_count f) < 2 ^ LENGTH(32)" by (rule unsigned_less)
  with assms(4) have k: "unat (of_nat k :: u32) = k" by (simp add: unsigned_of_nat take_bit_nat_eq_self)
  then show rest: "unat (frame_count f - of_nat k) = unat (frame_count f) - k"
    using assms(4) by (simp add: unat_sub word_le_nat_alt)
  then have "frame_count f - of_nat k \<le> frame_count f" by (simp add: word_le_nat_alt)
  with assms(3) show "rx_count_ok (stream_rest k f)" by (auto simp: rx_count_ok_def stream_rest_def)
  show "frame_ok (stream_rest k f)" "rx_done (stream_rest k f)"
    using assms(1,2,4) count by (auto simp: frame_ok_def rx_done_def stream_rest_def)
  show "move_to_front (buffer f) k (unat (frame_count f - of_nat k)) = Some (buffer (stream_rest k f))"
    using assms(4) count rest by (simp add: move_to_front_def stream_rest_def)
  show "waiting_bytes (stream_rest k f # D) = drop k (waiting_bytes (f # D))"
    using assms(4) count rest by (simp add: waiting_bytes_Cons drop_take min_def stream_rest_def)
qed

lemma read_stream_step:
  assumes "rx_state fifo s (f # D) C" "length out \<le> unat L" "k = unat L - length out"
  shows "read_stream_loop L (Suc n) odd_desc out s =
      (if unat (frame_count f) \<le> k
       then read_stream_loop L n (\<not> odd_desc) (out @ take (unat (frame_count f)) (buffer f))
         (step_user_rx (stream_reset odd_desc f) s)
       else Some (out @ take k (buffer f),
         s\<lparr>rx_descriptors := put_frame (rx_descriptors s) (user_rx_desc s) (stream_rest k f)\<rparr>))"
proof -
  from assms(1) have f: "rx_done f" "frame_ok f" "rx_count_ok f" by (auto simp: rx_state_def)
  note count = done_frame_bounds [OF f(2,3)]
  have at_user: "frame_at (rx_descriptors s) (user_rx_desc s) = Some f"
    using assms(1) user_rx.frame_at_cursor [of s] by (auto simp: rx_state_def rx_view_def)
  have "unat L < 2 ^ LENGTH(32)" by (rule unsigned_less)
  then have k: "unat (L - of_nat (length out)) = k" "k < 2 ^ LENGTH(32)"
    using assms(2,3) by (simp_all add: unat_sub word_le_nat_alt unsigned_of_nat take_bit_nat_eq_self)
  define rl where "rl = min (frame_count f) (L - of_nat (length out))"
  have rl: "unat rl = min (unat (frame_count f)) k" using k by (simp add: rl_def min_def word_le_nat_alt)
  have fits: "(rl = frame_count f) = (unat (frame_count f) \<le> k)" using rl by (auto simp: word_unat_eq_iff)
  have copy: "copy_out L out (buffer f) (unat rl) = Some (out @ take (unat rl) (buffer f))"
    using rl count assms(2,3) by (intro copy_out_Some) auto
  show ?thesis
  proof (cases "unat (frame_count f) \<le> k")
    case True
    with at_user copy fits rx_done_open [OF f(1)] show ?thesis
      by (simp add: control_tests Let_def stream_reset_def flip: rl_def)
  next
    case False
    then have r: "unat rl = k" "rl = of_nat k" using rl k by (simp_all add: word_unat_eq_iff unsigned_of_nat take_bit_nat_eq_self)
    with False at_user copy fits rx_done_open [OF f(1)] stream_rest_frame(5) [OF f, of k] show ?thesis
      by (simp add: control_tests Let_def flip: rl_def) (simp add: stream_rest_def)
  qed
qed

lemma read_stream_loop_reads:
  assumes "rx_state fifo s D C" "length D \<le> n" "length out \<le> unat L"
  shows "\<exists>s' D' C'. read_stream_loop L n odd_desc out s =
      Some (out @ take (unat L - length out) (waiting_bytes D), s') \<and>
    rx_state fifo s' D' C' \<and> waiting_bytes D' = drop (unat L - length out) (waiting_bytes D) \<and>
    user_rx_change s s' \<and> events s' = events s"
  using assms
proof (induction n arbitrary: s D C out odd_desc)
  case 0
  then show ?case
    by (intro exI [of _ s] exI [of _ "[]"] exI [of _ C]) (simp add: waiting_bytes_def)
next
  case (Suc n)
  let ?k = "unat L - length out"
  show ?case
  proof (cases D)
    case Nil
    obtain f C2 where C: "C = f # C2"
      using rx_state_num [OF Suc.prems(1)] Suc.prems(1) Nil
      by (cases C) (auto simp: rx_state_def dest: ring_at_less)
    from rx_state_at_user [of _ s f C2] Suc.prems(1) Nil C
    show ?thesis
      by (intro exI [of _ s] exI [of _ "[]"] exI [of _ C])
        (simp add: waiting_bytes_def control_tests Let_def)
  next
    case (Cons f D2)
    note state = Suc.prems(1) [unfolded Cons]
    from state have f: "rx_done f" "frame_ok f" "rx_count_ok f" by (auto simp: rx_state_def)
    note count = done_frame_bounds [OF f(2,3)]
    note run = read_stream_step [OF state Suc.prems(3) refl, of n odd_desc]
    show ?thesis
    proof (cases "unat (frame_count f) \<le> ?k")
      case True
      let ?out = "out @ take (unat (frame_count f)) (buffer f)"
      let ?s1 = "step_user_rx (stream_reset odd_desc f) s"
      have "rx_state fifo ?s1 D2 (C @ [stream_reset odd_desc f])"
        unfolding stream_reset_def by (rule rx_state_give_back [OF state reset_stream_frame [OF f(2)]])
      moreover have "length D2 \<le> n" "length ?out \<le> unat L" using True count Suc.prems(2,3) Cons by auto
      ultimately obtain s' D' C' where IH: "read_stream_loop L n (\<not> odd_desc) ?out ?s1 =
          Some (?out @ take (unat L - length ?out) (waiting_bytes D2), s')"
        "rx_state fifo s' D' C'" "waiting_bytes D' = drop (unat L - length ?out) (waiting_bytes D2)"
        "user_rx_change ?s1 s'" "events s' = events ?s1" using Suc.IH by blast
      have len: "unat L - length ?out = ?k - unat (frame_count f)" using count by simp
      have "user_rx_change s s'" using user_rx_change_trans [OF user_rx_change_step(1) IH(4)] .
      with IH True count len show ?thesis unfolding run Cons
        by (intro exI [of _ s'] exI [of _ D'] exI [of _ C']) (simp add: waiting_bytes_Cons step_user_rx_def)
    next
      case False
      then have "?k < unat (frame_count f)" by simp
      note rest = stream_rest_frame [OF f this]
      let ?s' = "s\<lparr>rx_descriptors := put_frame (rx_descriptors s) (user_rx_desc s) (stream_rest ?k f)\<rparr>"
      have "rx_state fifo ?s' (stream_rest ?k f # D2) C" by (intro rx_state_shrink [OF state rest(2-4)]) simp
      with False count rest(6) show ?thesis unfolding run Cons
        by (intro exI [of _ ?s'] exI [of _ "stream_rest ?k f # D2"] exI [of _ C]) (simp add: waiting_bytes_Cons)
    qed
  qed
qed

lemma read_stream_result:
  assumes "rx_state fifo s D C"
  shows "\<exists>s' D' C'. fscc_user_read_stream L s =
      Some (STATUS_SUCCESS, take (unat L) (waiting_bytes D), s') \<and>
    rx_state fifo s' D' C' \<and> waiting_bytes D' = drop (unat L) (waiting_bytes D) \<and>
    user_rx_change s s' \<and> events s' = events s"
proof -
  have "length D \<le> unat (rx_num (memory s))" using rx_state_num [OF assms] by simp
  from read_stream_loop_reads [OF assms this, of "[]" L False]
  obtain s' D' C' where "read_stream_loop L (unat (rx_num (memory s))) False [] s =
      Some (take (unat L) (waiting_bytes D), s')"
    "rx_state fifo s' D' C'" "waiting_bytes D' = drop (unat L) (waiting_bytes D)"
    "user_rx_change s s'" "events s' = events s" by auto
  then show ?thesis
    by (intro exI [of _ s'] exI [of _ D'] exI [of _ C']) (simp add: fscc_user_read_stream_def)
qed

section \<open>Reading a frame\<close>

definition counted :: "dma_frame list \<Rightarrow> nat" where
  "counted D = sum_list (map (\<lambda>f. unat (frame_count f)) D)"

text \<open>A frame in finished descriptors: some full ones, and a last one that ends the frame,
  carries its size, and holds at least one of its bytes.\<close>

definition rx_frame :: "dma_frame list \<Rightarrow> dma_frame \<Rightarrow> bool" where
  "rx_frame Is L \<longleftrightarrow> list_all (\<lambda>f. \<not> rx_final f) Is \<and> rx_final L \<and>
     counted Is < held L \<and> held L \<le> counted Is + unat (data_size L)"

definition frame_bytes :: "dma_frame list \<Rightarrow> dma_frame \<Rightarrow> u8 list" where
  "frame_bytes Is L = waiting_bytes Is @ take (held L - counted Is) (buffer L)"

lemma length_waiting_bytes:
  "list_all frame_ok D \<Longrightarrow> list_all rx_count_ok D \<Longrightarrow> length (waiting_bytes D) = counted D"
proof (induction D)
  case (Cons f D)
  then have "unat (frame_count f) \<le> length (buffer f)" using done_frame_bounds by simp
  with Cons show ?case by (simp add: waiting_bytes_Cons counted_def)
qed (simp add: waiting_bytes_def counted_def)

lemma frame_scan_frame:
  "list_all rx_done Is \<Longrightarrow> list_all (\<lambda>f. \<not> rx_final f) Is \<Longrightarrow> rx_final L \<Longrightarrow>
   frame_scan (Is @ L # D) b = (True, frame_control L AND DMA_MAX_LENGTH)"
  by (induction Is arbitrary: b) (auto simp: rx_done_open rx_final_def rx_open_def rx_done_def)

definition given_back :: "dma_frame \<Rightarrow> dma_frame" where
  "given_back f = set_control DESC_HI_BIT (f\<lparr>timestamp := clear_timestamp\<rparr>)"

lemma given_back_simps:
  assumes "frame_ok f"
  shows "rx_open (given_back f)" "held (given_back f) = 0" "frame_ok (given_back f)"
  using assms by (auto simp: given_back_def rx_open_def held_def frame_ok_def bit_tests)

lemma rx_final_tests:
  "(frame_control f AND DESC_FE_BIT \<noteq> 0 \<and> frame_control f AND DESC_CSTOP_BIT \<noteq> 0) = rx_final f"
  by (rule control_tests)

text \<open>A full descriptor of the frame: \<open>p\<close> bytes of the frame are behind, of \<open>sz\<close>,
  \<open>t\<close> of its bytes are for the user, and \<open>q\<close> bytes of earlier frames are in the buffer.\<close>

lemma read_frame_step_inner:
  assumes state: "rx_state fifo s (f # D) C" and f: "\<not> rx_final f"
    and sizes: "unat bs = sz - p" "unat tv = t - min p t" "unat fl = min p t" "p + unat (frame_count f) < sz"
    and out: "length out = q + min p t" "q + t \<le> unat L"
  shows "\<exists>bs' tv' fl'. read_frame_step E L bs tv fl out s =
      Some (bs', tv', fl', out @ take (min (unat (frame_count f)) (t - min p t)) (buffer f),
        step_user_rx (given_back f) s) \<and>
    unat bs' = sz - (p + unat (frame_count f)) \<and> bs' \<noteq> 0 \<and>
    unat tv' = t - min (p + unat (frame_count f)) t \<and> unat fl' = min (p + unat (frame_count f)) t"
proof -
  let ?c = "unat (frame_count f)"
  from state have fok: "frame_ok f" "rx_count_ok f" by (simp_all add: rx_state_def)
  note count = done_frame_bounds [OF fok]
  note at = rx_state_give_back(1) [OF state given_back_simps [OF fok(1)]]
  define real where "real = (if frame_count f > tv then tv else frame_count f)"
  have real: "unat real = min ?c (t - min p t)"
    using sizes(2) by (auto simp: real_def word_less_nat_alt)
  have nw: "\<not> rx_final f" by (rule f)
  have c: "\<not> frame_count f > bs" "unat (bs - frame_count f) = sz - (p + ?c)"
    using sizes(1,4) by (simp_all add: word_less_nat_alt unat_sub word_le_nat_alt)
  have nz: "bs - frame_count f \<noteq> 0" using c(2) sizes(4) by (metis unat_0 zero_less_diff less_numeral_extra(3))
  have tv: "unat (tv - real) = t - min (p + ?c) t"
    using real sizes(2) by (subst unat_sub) (auto simp: word_le_nat_alt min_def)
  have "unat L < 2 ^ LENGTH(32)" by (rule unsigned_less)
  then have "unat fl + unat real < 2 ^ 32"
    using real sizes(3) out(2) by (simp add: min_def split: if_splits)
  then have fl: "unat (fl + real) = min (p + ?c) t"
    using real sizes(3) by (simp add: unat_word_ariths) linarith
  have copy: "(if real \<noteq> 0 then copy_out L out (buffer f) (unat real) else Some out) =
      Some (out @ take (unat real) (buffer f))"
    using copy_out_Some [of out "unat real" L "buffer f"] real count out by auto
  have nz': "(bs - frame_count f = 0 \<and> append_timestamp s \<noteq> 0) = False" using nz by simp
  have "read_frame_step E L bs tv fl out s =
      Some (bs - frame_count f, tv - real, fl + real, out @ take (unat real) (buffer f),
        step_user_rx (given_back f) s)"
    unfolding read_frame_step_def at Option.bind.simps Let_def rx_final_tests if_not_P [OF nw]
      real_def [symmetric] copy if_not_P [OF c(1)] nz' given_back_def [symmetric]
    by simp
  with c(2) nz tv fl show ?thesis unfolding real by blast
qed

text \<open>The time given with a frame, and whether the driver has to ask for it. The last descriptor of
  the frame.\<close>

lemma stamp_eq:
  "stamp E f s = (f\<lparr>timestamp := (if timestamp_is_empty (timestamp f) then system_time E (events s)
      else timestamp f)\<rparr>,
    emits (if timestamp_is_empty (timestamp f) then [Query_time (system_time E (events s))] else []) s)"
  by (simp add: stamp_def query_time_def Let_def emit_emits)

lemma take_absorb: "n \<le> m \<Longrightarrow> take n (take m xs) = take n xs"
  by (simp add: min_absorb1)

definition frame_time :: "env \<Rightarrow> event list \<Rightarrow> dma_frame \<Rightarrow> fscc_timestamp" where
  "frame_time E h f = (if timestamp_is_empty (timestamp f) then system_time E h else timestamp f)"

definition time_asked :: "env \<Rightarrow> event list \<Rightarrow> dma_frame \<Rightarrow> bool \<Rightarrow> event list" where
  "time_asked E h f wanted = (if wanted \<and> timestamp_is_empty (timestamp f) then [Query_time (system_time E h)] else [])"

definition time_bytes :: "env \<Rightarrow> event list \<Rightarrow> dma_frame \<Rightarrow> bool \<Rightarrow> u8 list" where
  "time_bytes E h f wanted = (if wanted then timestamp_bytes (frame_time E h f) else [])"

lemma time_asked_quiet [simp]: "list_all quiet (time_asked E h f w)"
  by (simp add: time_asked_def)

lemma length_time_bytes [simp]: "length (time_bytes E h f w) = (if w then 8 else 0)"
  by (simp add: time_bytes_def)

lemma copy_time:
  assumes "length out + (if append_timestamp s \<noteq> 0 then 8 else 0) \<le> unat L"
  shows "(if append_timestamp s \<noteq> 0
      then (let (g, s1) = stamp E f s
            in do { out \<leftarrow> copy_out L out (timestamp_bytes (timestamp g)) 8; Some (out, s1) })
      else Some (out, s)) =
    Some (out @ time_bytes E (events s) f (append_timestamp s \<noteq> 0),
      emits (time_asked E (events s) f (append_timestamp s \<noteq> 0)) s)"
proof (cases "append_timestamp s = 0")
  case False
  with assms have "copy_out L out (timestamp_bytes (frame_time E (events s) f)) 8 =
      Some (out @ timestamp_bytes (frame_time E (events s) f))"
    by (simp add: copy_out_Some)
  with False show ?thesis
    by (simp add: stamp_eq Let_def time_bytes_def time_asked_def frame_time_def [symmetric])
qed (simp add: time_bytes_def time_asked_def)

lemma read_frame_step_last:
  assumes state: "rx_state fifo s (f # D) C" and f: "rx_final f"
    and sizes: "unat bs = held f - p" "unat tv = t - min p t" "unat fl = min p t" "t \<le> held f"
      "held f \<le> p + unat (data_size f)" "p < held f"
    and out: "length out = q + min p t" "q + t + (if append_timestamp s \<noteq> 0 then 8 else 0) \<le> unat L"
  shows "\<exists>tv' fl'. read_frame_step E L bs tv fl out s =
      Some (0, tv', fl', (out @ take (t - min p t) (buffer f)) @ time_bytes E (events s) f (append_timestamp s \<noteq> 0),
        step_user_rx (given_back f) (emits (time_asked E (events s) f (append_timestamp s \<noteq> 0)) s))"
proof -
  from state have fok: "frame_ok f" by (simp add: rx_state_def)
  note at = rx_state_give_back(1) [OF state given_back_simps [OF fok]]
  let ?planned = "(frame_control f AND DMA_MAX_LENGTH) - fl"
  let ?out = "out @ take (t - min p t) (buffer f)"
  have pl: "unat ?planned = held f - min p t"
    using sizes by (simp add: held_def unat_sub word_le_nat_alt)
  define real where "real = (if ?planned > tv then tv else ?planned)"
  have real: "unat real = t - min p t"
    using pl sizes by (auto simp: real_def word_less_nat_alt)
  have b0: "(if ?planned > bs then 0 else bs - ?planned) = 0"
    using pl sizes(1) by (auto simp: word_less_nat_alt word_unat_eq_iff unat_sub word_le_nat_alt)
  have fits: "t - min p t \<le> length (buffer f)"
    using fok sizes by (auto simp: frame_ok_def min_def)
  have room: "length out + (t - min p t) \<le> unat L" using out by auto
  have copy: "(if real \<noteq> 0 then copy_out L out (buffer f) (unat real) else Some out) = Some ?out"
    using copy_out_Some [OF room] fits real by (auto simp: word_unat_eq_iff)
  have "length ?out + (if append_timestamp s \<noteq> 0 then 8 else 0) \<le> unat L"
    using out fits by auto
  note ts = copy_time [OF this, of E f]
  have "read_frame_step E L bs tv fl out s =
      do { (out, s1) \<leftarrow> (if append_timestamp s \<noteq> 0
             then (let (g, s1) = stamp E f s
                   in do { out \<leftarrow> copy_out L ?out (timestamp_bytes (timestamp g)) 8; Some (out, s1) })
             else Some (?out, s));
           Some (0, tv - real, fl + real, out, step_user_rx (given_back f) s1) }"
    unfolding read_frame_step_def at Option.bind.simps Let_def rx_final_tests if_P [OF f]
      real_def [symmetric] copy b0 given_back_def [symmetric]
    by simp
  then show ?thesis unfolding ts by simp
qed

lemma given_back_step:
  assumes "rx_state fifo s (f # D) C"
  shows "rx_state fifo (step_user_rx (given_back f) (emits es s)) D (C @ [given_back f])"
proof -
  have "rx_state fifo (emits es s) (f # D) C" by (rule rx_state_cong [OF assms]) simp_all
  moreover have "frame_ok f" using assms by (simp add: rx_state_def)
  ultimately show ?thesis using rx_state_give_back(2) given_back_simps by blast
qed

text \<open>What the loop does after the last descriptor of a frame.\<close>

definition after_frame :: "env \<Rightarrow> u32 \<Rightarrow> nat \<Rightarrow> u8 list \<Rightarrow> driver \<Rightarrow> (u8 list \<times> driver) option" where
  "after_frame E L n out s =
     (if rx_multiple s = 0 then Some (out, s)
      else do {
        (frame_ready, b) \<leftarrow> fscc_user_next_read_size s;
        if \<not> frame_ready then Some (out, s)
        else if buffer_requirement s b > L - of_nat (length out) then Some (out, s)
        else read_frame_loop E L n b (valid_data s b) 0 out s })"

lemma read_frame_loop_last:
  "read_frame_step E L bs tv fl out s = Some (0, tv', fl', out', s') \<Longrightarrow>
   read_frame_loop E L (Suc n) bs tv fl out s = after_frame E L n out' s'"
  by (simp add: after_frame_def)

text \<open>The loop over the descriptors of one frame: \<open>pre\<close> is in the buffer from earlier frames, and
  of this frame \<open>prev\<close> is behind.\<close>

lemma read_frame_loop_reads:
  assumes "rx_state fifo s (Is @ f # D) C" "list_all (\<lambda>f. \<not> rx_final f) Is" "rx_final f"
    and "unat bs = held f - p" "unat tv = t - min p t" "unat fl = min p t" "t \<le> held f"
    and "p + counted Is < held f" "held f \<le> p + counted Is + unat (data_size f)"
    and "length prev = p" "out = pre @ take t prev"
    and "length pre + t + (if append_timestamp s \<noteq> 0 then 8 else 0) \<le> unat L" "length Is < n"
  shows "\<exists>s' C'. read_frame_loop E L n bs tv fl out s = after_frame E L (n - Suc (length Is))
      (pre @ take t (prev @ waiting_bytes Is @ take (held f - (p + counted Is)) (buffer f)) @
        time_bytes E (events s) f (append_timestamp s \<noteq> 0)) s' \<and>
    rx_state fifo s' D C' \<and> user_rx_change s s' \<and>
    events s' = time_asked E (events s) f (append_timestamp s \<noteq> 0) @ events s"
  using assms
proof (induction n arbitrary: s Is C bs tv fl p prev out)
  case 0
  then show ?case by simp
next
  case (Suc n)
  have lout: "length out = length pre + min p t" using Suc.prems(10,11) by (simp add: min.commute)
  show ?case
  proof (cases Is)
    case Nil
    have state: "rx_state fifo s (f # D) C" using Suc.prems(1) Nil by simp
    have sizes: "held f \<le> p + unat (data_size f)" "p < held f"
      using Suc.prems(8,9) Nil by (simp_all add: counted_def)
    let ?es = "time_asked E (events s) f (append_timestamp s \<noteq> 0)"
    let ?s' = "step_user_rx (given_back f) (emits ?es s)"
    from read_frame_step_last [OF state Suc.prems(3-7) sizes lout Suc.prems(12), of E]
    have "read_frame_loop E L (Suc n) bs tv fl out s = after_frame E L n ((out @ take (t - min p t) (buffer f)) @
        time_bytes E (events s) f (append_timestamp s \<noteq> 0)) ?s'"
      using read_frame_loop_last by blast
    moreover have "out @ take (t - min p t) (buffer f) =
        pre @ take t (prev @ waiting_bytes Is @ take (held f - (p + counted Is)) (buffer f))"
      using Suc.prems(7,10,11) Nil by (simp add: waiting_bytes_def counted_def min_def)
    moreover have "events ?s' = ?es @ events s" by (simp add: step_user_rx_def time_asked_def)
    ultimately show ?thesis using given_back_step [OF state, of ?es] Nil
      by (intro exI [of _ ?s'] exI [of _ "C @ [given_back f]"]) simp
  next
    case (Cons g Is2)
    have state: "rx_state fifo s (g # Is2 @ f # D) C" using Suc.prems(1) Cons by simp
    then have gok: "frame_ok g" "rx_count_ok g" by (simp_all add: rx_state_def)
    let ?c = "unat (frame_count g)"
    have nf: "\<not> rx_final g" using Suc.prems(2) Cons by simp
    have lt: "p + ?c < held f" using Suc.prems(8) Cons by (simp add: counted_def)
    have tL: "length pre + t \<le> unat L" using Suc.prems(12) by simp
    from read_frame_step_inner [OF state nf Suc.prems(4,5,6) lt lout tL, of E]
    obtain bs' tv' fl' where step: "read_frame_step E L bs tv fl out s =
        Some (bs', tv', fl', out @ take (min ?c (t - min p t)) (buffer g),
          step_user_rx (given_back g) s)" "bs' \<noteq> 0"
      "unat bs' = held f - (p + ?c)" "unat tv' = t - min (p + ?c) t" "unat fl' = min (p + ?c) t"
      by blast
    let ?s1 = "step_user_rx (given_back g) s"
    have state1: "rx_state fifo ?s1 (Is2 @ f # D) (C @ [given_back g])"
      using given_back_step [OF state, of "[]"] by simp
    let ?prev = "prev @ take ?c (buffer g)"
    have lprev: "length ?prev = p + ?c"
      using Suc.prems(10) done_frame_bounds [OF gok] by simp
    have out1: "out @ take (min ?c (t - min p t)) (buffer g) = pre @ take t ?prev"
      using Suc.prems(10,11) by (auto simp: min_def)
    have keep: "append_timestamp ?s1 = append_timestamp s" "events ?s1 = events s"
      by (simp_all add: step_user_rx_def)
    have sums: "p + ?c + counted Is2 < held f" "held f \<le> p + ?c + counted Is2 + unat (data_size f)"
      using Suc.prems(8,9) Cons by (simp_all add: counted_def)
    have rest: "list_all (\<lambda>f. \<not> rx_final f) Is2" "length Is2 < n" using Suc.prems(2,13) Cons by auto
    from Suc.IH [OF state1 rest(1) Suc.prems(3) step(3-5) Suc.prems(7) sums lprev out1 _ rest(2)] Suc.prems(12)
    obtain s' C' where IH: "read_frame_loop E L n bs' tv' fl'
        (out @ take (min ?c (t - min p t)) (buffer g)) ?s1 = after_frame E L (n - Suc (length Is2))
      (pre @ take t (?prev @ waiting_bytes Is2 @ take (held f - (p + ?c + counted Is2)) (buffer f)) @
        time_bytes E (events s) f (append_timestamp s \<noteq> 0)) s'"
      "rx_state fifo s' D C'" "user_rx_change ?s1 s'"
      "events s' = time_asked E (events s) f (append_timestamp s \<noteq> 0) @ events s"
      unfolding keep by blast
    have "counted Is = ?c + counted Is2" "waiting_bytes Is = take ?c (buffer g) @ waiting_bytes Is2"
      by (simp_all add: Cons counted_def waiting_bytes_Cons)
    with IH step(1,2) user_rx_change_trans [OF user_rx_change_step(1) IH(3)] Cons show ?thesis
      by (intro exI [of _ s'] exI [of _ C']) (simp add: add.assoc)
  qed
qed

end
