(* ===== verification/Fscc_Receive.thy ===== *)
theory Fscc_Receive
  imports Fscc_Rx Fscc_Example
begin

text \<open>
  What reception does, on the queue of finished descriptors: the FIFO side appends to it,
  whatever the card answers and without leaving a buffer; the user side takes a frame,
  several frames (\<open>rx_multiple\<close>) or bytes of the stream from its front. The last section follows one frame from the FIFO
  to the user's buffer.
\<close>

section \<open>The user side\<close>

lemma unat_valid_data:
  assumes "(if append_status s \<noteq> 0 then 0 else 2) \<le> unat n"
  shows "unat (valid_data s n) = unat n - (if append_status s \<noteq> 0 then 0 else 2)"
  using assms by (auto simp: valid_data_def unat_sub word_le_nat_alt)

lemma unat_buffer_requirement:
  assumes "(if append_status s \<noteq> 0 then 0 else 2) \<le> unat n" "unat n < 2 ^ 29"
  shows "unat (buffer_requirement s n) =
    unat n - (if append_status s \<noteq> 0 then 0 else 2) + (if append_timestamp s \<noteq> 0 then 8 else 0)"
  using assms unat_valid_data [OF assms(1)]
  by (auto simp: buffer_requirement_def unat_word_ariths)

lemma held_less: "held f < 2 ^ 29"
proof -
  have "held f = unat (take_bit 29 (frame_control f))" by (simp add: held_def take_bit_29_and)
  also have "\<dots> = take_bit 29 (unat (frame_control f))" by (simp add: unsigned_take_bit_eq)
  also have "\<dots> < 2 ^ 29" by (rule take_bit_nat_less_exp)
  finally show ?thesis .
qed

text \<open>The status bytes end a frame; without \<open>append_status\<close> the user does not get them.\<close>

definition user_length :: "'a fscc_port_scheme \<Rightarrow> dma_frame \<Rightarrow> nat" where
  "user_length s f = held f - (if append_status s \<noteq> 0 then 0 else 2)"

definition user_room :: "'a fscc_port_scheme \<Rightarrow> dma_frame \<Rightarrow> nat" where
  "user_room s f = user_length s f + (if append_timestamp s \<noteq> 0 then 8 else 0)"

definition status_fits :: "'a fscc_port_scheme \<Rightarrow> dma_frame \<Rightarrow> bool" where
  "status_fits s f \<longleftrightarrow> (if append_status s \<noteq> 0 then 0 else 2) \<le> held f"

text \<open>One frame in the loop.\<close>

lemma frame_scan_whole:
  assumes "rx_state fifo s (Is @ f # D) C" "list_all (\<lambda>f. \<not> rx_final f) Is" "rx_final f"
  shows "fscc_user_next_read_size s = Some (True, frame_control f AND DMA_MAX_LENGTH)"
proof -
  have "list_all rx_done Is" using assms(1) by (simp add: rx_state_def)
  with next_read_size_eq [OF assms(1)] assms(2,3) show ?thesis by (simp add: frame_scan_frame)
qed

lemma unat_requirement:
  assumes "status_fits s f"
  shows "unat (valid_data s (frame_control f AND DMA_MAX_LENGTH)) = user_length s f"
    "unat (buffer_requirement s (frame_control f AND DMA_MAX_LENGTH)) = user_room s f"
proof -
  let ?sz = "frame_control f AND DMA_MAX_LENGTH"
  have sz: "unat ?sz = held f" by (simp add: held_def)
  have fits: "(if append_status s \<noteq> 0 then 0 else 2) \<le> unat ?sz"
    using assms by (simp only: sz status_fits_def)
  show "unat (valid_data s ?sz) = user_length s f"
    unfolding unat_valid_data [OF fits] sz user_length_def ..
  show "unat (buffer_requirement s ?sz) = user_room s f"
    using unat_buffer_requirement [OF fits] held_less [of f] unfolding sz user_room_def user_length_def
    by blast
qed

lemma read_one_frame:
  assumes state: "rx_state fifo s (Is @ f # D) C" and frame: "rx_frame Is f" and fits: "status_fits s f"
    and room: "length pre + user_room s f \<le> unat L" and n: "length Is < n"
  shows "\<exists>s' C'. read_frame_loop E L n (frame_control f AND DMA_MAX_LENGTH)
        (valid_data s (frame_control f AND DMA_MAX_LENGTH)) 0 pre s =
      after_frame E L (n - Suc (length Is)) (pre @ take (user_length s f) (frame_bytes Is f) @
        time_bytes E (events s) f (append_timestamp s \<noteq> 0)) s' \<and>
    rx_state fifo s' D C' \<and> user_rx_change s s' \<and>
    events s' = time_asked E (events s) f (append_timestamp s \<noteq> 0) @ events s"
proof -
  have frame': "list_all (\<lambda>f. \<not> rx_final f) Is" "rx_final f" "counted Is < held f"
    "held f \<le> counted Is + unat (data_size f)"
    using frame by (simp_all add: rx_frame_def)
  have "user_length s f \<le> held f" by (simp add: user_length_def)
  with read_frame_loop_reads [OF state frame'(1,2), of "frame_control f AND DMA_MAX_LENGTH" 0
      "valid_data s (frame_control f AND DMA_MAX_LENGTH)" "user_length s f" 0 "[]" pre pre L n E]
    frame'(3,4) unat_requirement(1) [OF fits] room n
  show ?thesis by (simp add: user_room_def frame_bytes_def held_def add.assoc)
qed

text \<open>Several frames: each is the descriptors before its last one, and the last one. They need
  room for what the user gets of each.\<close>

definition frames_of :: "(dma_frame list \<times> dma_frame) list \<Rightarrow> dma_frame list" where
  "frames_of Fs = concat (map (\<lambda>(Is, f). Is @ [f]) Fs)"

definition rooms :: "'a fscc_port_scheme \<Rightarrow> (dma_frame list \<times> dma_frame) list \<Rightarrow> nat" where
  "rooms s Fs = sum_list (map (\<lambda>(Is, f). user_room s f) Fs)"

definition well_cut :: "'a fscc_port_scheme \<Rightarrow> (dma_frame list \<times> dma_frame) list \<Rightarrow> bool" where
  "well_cut s Fs \<longleftrightarrow> list_all (\<lambda>(Is, f). rx_frame Is f \<and> status_fits s f) Fs"

lemma frames_of_simps [simp]:
  "frames_of [] = []" "frames_of ((Is, f) # Fs) = Is @ f # frames_of Fs"
  "rooms s [] = 0" "rooms s ((Is, f) # Fs) = user_room s f + rooms s Fs"
  "well_cut s []" "well_cut s ((Is, f) # Fs) \<longleftrightarrow> rx_frame Is f \<and> status_fits s f \<and> well_cut s Fs"
  by (simp_all add: frames_of_def rooms_def well_cut_def)

text \<open>What the user gets: of each frame its bytes, then its time if that is wanted. The clock
  is asked for a frame without a time, which \<open>h\<close> then records.\<close>

fun frames_read ::
  "env \<Rightarrow> 'a fscc_port_scheme \<Rightarrow> event list \<Rightarrow> (dma_frame list \<times> dma_frame) list \<Rightarrow> u8 list" where
  "frames_read E s h [] = []"
| "frames_read E s h ((Is, f) # Fs) = take (user_length s f) (frame_bytes Is f) @
     time_bytes E h f (append_timestamp s \<noteq> 0) @
     frames_read E s (time_asked E h f (append_timestamp s \<noteq> 0) @ h) Fs"

text \<open>Nothing more is read: no whole frame is at the front, or it does not fit into \<open>k\<close> bytes.\<close>

definition reading_ends :: "'a fscc_port_scheme \<Rightarrow> nat \<Rightarrow> dma_frame list \<Rightarrow> bool" where
  "reading_ends s k D \<longleftrightarrow> list_all (\<lambda>f. \<not> rx_final f) D \<or>
     (\<exists>Is f R. D = Is @ f # R \<and> list_all (\<lambda>f. \<not> rx_final f) Is \<and> rx_final f \<and> status_fits s f \<and> k < user_room s f)"

lemma user_rx_change_user:
  assumes "user_rx_change s s'"
  shows "user_length s' f = user_length s f" "user_room s' f = user_room s f" "rooms s' Fs = rooms s Fs"
    "status_fits s' f = status_fits s f" "well_cut s' Fs = well_cut s Fs" "reading_ends s' k D = reading_ends s k D"
    "frames_read E s' h Fs = frames_read E s h Fs"
proof -
  note keep = user_rx_change_sel(5,6) [OF assms]
  show 1: "user_length s' f = user_length s f" "user_room s' f = user_room s f" "status_fits s' f = status_fits s f" for f
    by (simp_all add: user_length_def user_room_def status_fits_def keep)
  show "rooms s' Fs = rooms s Fs" "well_cut s' Fs = well_cut s Fs" "reading_ends s' k D = reading_ends s k D"
    by (simp_all add: rooms_def well_cut_def reading_ends_def 1)
  show "frames_read E s' h Fs = frames_read E s h Fs"
    by (induction Fs arbitrary: h) (auto simp: 1 keep)
qed

lemma length_frame_bytes:
  assumes "rx_state fifo s (A @ Is @ f # D) C" "rx_frame Is f"
  shows "length (frame_bytes Is f) = held f"
proof -
  have "list_all frame_ok (Is @ [f])" "list_all rx_count_ok Is" using assms(1) by (simp_all add: rx_state_def)
  then show ?thesis using assms(2) length_waiting_bytes [of Is]
    by (auto simp: frame_bytes_def rx_frame_def frame_ok_def min_def)
qed

lemma length_user_bytes:
  assumes "rx_state fifo s (Is @ f # D) C" "rx_frame Is f"
  shows "length (take (user_length s f) (frame_bytes Is f) @ time_bytes E h f (append_timestamp s \<noteq> 0)) = user_room s f"
  using length_frame_bytes [of fifo s "[]"] assms by (simp add: user_room_def user_length_def)

lemma length_frames_read:
  "rx_state fifo t (A @ frames_of Fs @ D) C \<Longrightarrow> well_cut s Fs \<Longrightarrow> length (frames_read E s h Fs) = rooms s Fs"
proof (induction E s h Fs arbitrary: A rule: frames_read.induct)
  case (2 E s h Is f Fs)
  have "length (frame_bytes Is f) = held f"
    using "2.prems" by (intro length_frame_bytes [of fifo t A Is f "frames_of Fs @ D"]) simp_all
  with "2.IH" [of "A @ Is @ [f]"] "2.prems" show ?case by (simp add: user_room_def user_length_def)
qed simp

lemma no_frame_scan: "list_all (\<lambda>f. \<not> rx_final f) D \<Longrightarrow> \<not> fst (frame_scan D b)"
  by (induction D b rule: frame_scan.induct) auto

lemma unat_left:
  assumes "n \<le> unat (L :: u32)"
  shows "unat (L - of_nat n) = unat L - n"
proof -
  have "n < 2 ^ LENGTH(32)" using assms unsigned_less [of L] by (rule le_less_trans)
  then have "unat (of_nat n :: u32) = n" by (simp add: unat_of_nat)
  then show ?thesis using assms by (simp add: unat_sub word_le_nat_alt)
qed

lemma after_frame_ends:
  assumes state: "rx_state fifo s D C" and "rx_multiple s = 0 \<or> reading_ends s (unat L - length out) D"
    and "length out \<le> unat L"
  shows "after_frame E L n out s = Some (out, s)"
proof (cases "rx_multiple s = 0 \<or> list_all (\<lambda>f. \<not> rx_final f) D")
  case True
  with no_frame_scan [of D 0] next_read_size_eq [OF state] show ?thesis
    by (cases "frame_scan D 0") (auto simp: after_frame_def)
next
  case False
  with assms(2) obtain Is f R where D: "D = Is @ f # R" "list_all (\<lambda>f. \<not> rx_final f) Is" "rx_final f"
    "status_fits s f" "unat L - length out < user_room s f" by (auto simp: reading_ends_def)
  let ?sz = "frame_control f AND DMA_MAX_LENGTH"
  have "buffer_requirement s ?sz > L - of_nat (length out)"
    using D(5) unat_requirement(2) [OF D(4)] by (simp add: word_less_nat_alt unat_left [OF assms(3)])
  with frame_scan_whole [OF state [unfolded D(1)] D(2,3)] show ?thesis by (simp add: after_frame_def)
qed

lemma after_frame_reads:
  assumes "rx_state fifo s (frames_of Fs @ D) C" "rx_multiple s \<noteq> 0" "well_cut s Fs"
    and "length out + rooms s Fs \<le> unat L" "reading_ends s (unat L - (length out + rooms s Fs)) D"
    and "length (frames_of Fs) \<le> n"
  shows "\<exists>s' C' es. after_frame E L n out s = Some (out @ frames_read E s (events s) Fs, s') \<and>
    rx_state fifo s' D C' \<and> user_rx_change s s' \<and> events s' = rev es @ events s \<and> list_all quiet es"
  using assms
proof (induction Fs arbitrary: s C out n)
  case Nil
  with after_frame_ends [of fifo s D C L out E n] show ?case
    by (intro exI [of _ s] exI [of _ C] exI [of _ "[]"]) simp
next
  case (Cons F Fs)
  obtain Is f where F: "F = (Is, f)" by (cases F)
  let ?sz = "frame_control f AND DMA_MAX_LENGTH" and ?w = "append_timestamp s \<noteq> 0"
  let ?new = "take (user_length s f) (frame_bytes Is f) @ time_bytes E (events s) f ?w"
  have state: "rx_state fifo s (Is @ f # frames_of Fs @ D) C" using Cons.prems(1) F by simp
  have cut: "rx_frame Is f" "status_fits s f" "well_cut s Fs" using Cons.prems(3) F by simp_all
  have room: "length out + user_room s f \<le> unat L" using Cons.prems(4) F by simp
  have "\<not> buffer_requirement s ?sz > L - of_nat (length out)"
    using room unat_requirement(2) [OF cut(2)] unat_left [OF add_leD1 [OF room]] by (simp add: word_less_nat_alt)
  moreover have "fscc_user_next_read_size s = Some (True, ?sz)"
    using cut(1) by (intro frame_scan_whole [OF state]) (simp_all add: rx_frame_def)
  ultimately have run: "after_frame E L n out s = read_frame_loop E L n ?sz (valid_data s ?sz) 0 out s"
    using Cons.prems(2) by (simp add: after_frame_def)
  have "length Is < n" using Cons.prems(6) F by simp
  from read_one_frame [OF state cut(1,2) room this, of E] obtain s1 C1 where one:
    "read_frame_loop E L n ?sz (valid_data s ?sz) 0 out s = after_frame E L (n - Suc (length Is)) (out @ ?new) s1"
    "rx_state fifo s1 (frames_of Fs @ D) C1" "user_rx_change s s1"
    "events s1 = time_asked E (events s) f ?w @ events s" by auto
  note keep = user_rx_change_sel(7) [OF one(3)] user_rx_change_user [OF one(3)]
  have len: "length (out @ ?new) = length out + user_room s f"
    unfolding length_append [of out] length_user_bytes [OF state cut(1)] ..
  have "length (frames_of Fs) \<le> n - Suc (length Is)" "rx_multiple s1 \<noteq> 0" "well_cut s1 Fs"
    using Cons.prems(2,6) F cut(3) keep by simp_all
  moreover have "length (out @ ?new) + rooms s1 Fs \<le> unat L"
    "reading_ends s1 (unat L - (length (out @ ?new) + rooms s1 Fs)) D"
    unfolding len keep using Cons.prems(4,5) F by (simp_all add: add.assoc)
  ultimately obtain s' C' es where rest: "after_frame E L (n - Suc (length Is)) (out @ ?new) s1 =
      Some ((out @ ?new) @ frames_read E s (events s1) Fs, s')" "rx_state fifo s' D C'" "user_rx_change s1 s'"
    "events s' = rev es @ events s1" "list_all quiet es"
    using Cons.IH [OF one(2), of "out @ ?new" "n - Suc (length Is)"] unfolding keep by blast
  have "events s' = rev (rev (time_asked E (events s) f ?w) @ es) @ events s" using rest(4) one(4) by simp
  with rest run one(1,4) F user_rx_change_trans [OF one(3) rest(3)] show ?case
    by (intro exI [of _ s'] exI [of _ C'] exI [of _ "rev (time_asked E (events s) f ?w) @ es"]) simp
qed

lemma read_frames_result:
  assumes state: "rx_state fifo s (frames_of Fs @ D) C" and "Fs \<noteq> []" "well_cut s Fs"
    and room: "rooms s Fs \<le> unat L"
    and ends: "if rx_multiple s = 0 then length Fs = 1 else reading_ends s (unat L - rooms s Fs) D"
  shows "\<exists>s' C' es. fscc_user_read_frame E L s = Some (STATUS_SUCCESS, frames_read E s (events s) Fs, s') \<and>
    rx_state fifo s' D C' \<and> user_rx_change s s' \<and> events s' = rev es @ events s \<and> list_all quiet es"
proof -
  from assms(2) obtain Is f Gs where Fs: "Fs = (Is, f) # Gs" by (cases Fs) auto
  let ?sz = "frame_control f AND DMA_MAX_LENGTH" and ?w = "append_timestamp s \<noteq> 0"
  let ?new = "take (user_length s f) (frame_bytes Is f) @ time_bytes E (events s) f ?w"
  let ?n = "unat (rx_num (memory s))"
  have st: "rx_state fifo s (Is @ f # frames_of Gs @ D) C" using state Fs by simp
  have cut: "rx_frame Is f" "status_fits s f" "well_cut s Gs" using assms(3) Fs by simp_all
  have n: "length Is < ?n" "length (frames_of Gs) \<le> ?n - Suc (length Is)" using rx_state_num [OF st] by simp_all
  have len: "length ?new = user_room s f" by (rule length_user_bytes [OF st cut(1)])
  have r1: "length [] + user_room s f \<le> unat L" using room Fs by simp
  from read_one_frame [OF st cut(1,2) r1 n(1), of E] obtain s1 C1 where one:
    "read_frame_loop E L ?n ?sz (valid_data s ?sz) 0 [] s = after_frame E L (?n - Suc (length Is)) ?new s1"
    "rx_state fifo s1 (frames_of Gs @ D) C1" "user_rx_change s s1"
    "events s1 = time_asked E (events s) f ?w @ events s" by auto
  note keep = user_rx_change_sel(7) [OF one(3)] user_rx_change_user [OF one(3)]
  have "\<exists>s' C' es. after_frame E L (?n - Suc (length Is)) ?new s1 = Some (?new @ frames_read E s (events s1) Gs, s') \<and>
    rx_state fifo s' D C' \<and> user_rx_change s1 s' \<and> events s' = rev es @ events s1 \<and> list_all quiet es"
  proof (cases "rx_multiple s = 0")
    case True
    then have "Gs = []" using ends Fs by simp
    with after_frame_ends [of fifo s1 D C1 L ?new E "?n - Suc (length Is)"] one(2) keep(1) True room Fs len show ?thesis
      by (intro exI [of _ s1] exI [of _ C1] exI [of _ "[]"]) simp
  next
    case False
    with after_frame_reads [OF one(2), of ?new L "?n - Suc (length Is)" E] ends cut(3) room Fs keep len n(2) show ?thesis
      by simp
  qed
  then obtain s' C' es where rest: "after_frame E L (?n - Suc (length Is)) ?new s1 =
      Some (?new @ frames_read E s (events s1) Gs, s')" "rx_state fifo s' D C'" "user_rx_change s1 s'"
    "events s' = rev es @ events s1" "list_all quiet es" by blast
  have enough: "\<not> buffer_requirement s ?sz > L"
    using r1 unat_requirement(2) [OF cut(2)] by (simp add: word_less_nat_alt)
  have "fscc_user_next_read_size s = Some (True, ?sz)"
    using cut(1) by (intro frame_scan_whole [OF st]) (simp_all add: rx_frame_def)
  then have "fscc_user_read_frame E L s = Some (STATUS_SUCCESS, frames_read E s (events s) Fs, s')"
    using enough one(1,4) rest(1) Fs by (simp add: fscc_user_read_frame_def)
  moreover have "events s' = rev (rev (time_asked E (events s) f ?w) @ es) @ events s" using rest(4) one(4) by simp
  ultimately show ?thesis using rest(2,5) user_rx_change_trans [OF one(3) rest(3)]
    by (intro exI [of _ s'] exI [of _ C'] exI [of _ "rev (time_asked E (events s) f ?w) @ es"]) simp
qed

lemma read_frame_result:
  assumes "rx_state fifo s (Is @ f # D) C" "rx_frame Is f" "status_fits s f"
    and "user_room s f \<le> unat L" "rx_multiple s = 0"
  shows "\<exists>s' C' es. fscc_user_read_frame E L s = Some (STATUS_SUCCESS,
      take (user_length s f) (frame_bytes Is f) @ time_bytes E (events s) f (append_timestamp s \<noteq> 0), s') \<and>
    rx_state fifo s' D C' \<and> user_rx_change s s' \<and> events s' = rev es @ events s \<and> list_all quiet es"
  using read_frames_result [of fifo s "[(Is, f)]" D C L E] assms by simp

lemma read_frame_refused:
  assumes "rx_state fifo s D C"
    and "case frame_scan D 0 of (ready, n) \<Rightarrow> \<not> ready \<or> buffer_requirement s n > L"
  shows "fscc_user_read_frame E L s = Some (STATUS_BUFFER_TOO_SMALL, [], s)"
  using assms(2) next_read_size_eq [OF assms(1)]
  by (auto simp: fscc_user_read_frame_def split: prod.splits)

section \<open>The FIFO side\<close>

text \<open>The data words a history read from the FIFO.\<close>

definition fifo_word :: "fscc_card \<Rightarrow> event \<Rightarrow> u32 list" where
  "fifo_word c e = (case e of
     Io_read sp a v \<Rightarrow> if sp = card_space c 0 \<and> a = fscc_card_get_BAR c 0 + ucast FIFO_OFFSET then [v] else []
   | _ \<Rightarrow> [])"

definition fifo_reads :: "fscc_card \<Rightarrow> event list \<Rightarrow> u32 list" where
  "fifo_reads c es = concat (map (fifo_word c) es)"

lemma fifo_reads_simps [simp]:
  "fifo_reads c [] = []" "fifo_reads c (es @ es') = fifo_reads c es @ fifo_reads c es'"
  "fifo_reads c (Query_time t # es) = fifo_reads c es"
  "fifo_reads c (rd c 0 FIFO_OFFSET v # es) = v # fifo_reads c es"
  "fifo_reads c (rd c 0 BC_FIFO_L_OFFSET v # es) = fifo_reads c es"
  "fifo_reads c (rd c 0 FIFO_BC_OFFSET v # es) = fifo_reads c es"
  "fifo_reads c (rd c 0 FIFO_FC_OFFSET v # es) = fifo_reads c es"
  by (simp_all add: fifo_reads_def fifo_word_def rd_def)

lemma fifo_reads_words: "fifo_reads c (map (rd c 0 FIFO_OFFSET) ws) = ws"
  by (induction ws) simp_all

text \<open>The size the FIFO reports for its next frame, 0 when it holds no whole frame.\<close>

definition rfcnt_of :: "u32 \<Rightarrow> u32" where
  "rfcnt_of v = v AND 0x000003ff"

definition next_size :: "env \<Rightarrow> driver \<Rightarrow> u32" where
  "next_size E s =
     (let c = port_card s; v = hw_reg E c (events s) 0 FIFO_FC_OFFSET
      in if rfcnt_of v \<noteq> 0 then hw_reg E c (rd c 0 FIFO_FC_OFFSET v # events s) 0 BC_FIFO_L_OFFSET else 0)"

lemma refresh_eq:
  "\<exists>es. refresh_frame_size E s = emits es (s\<lparr>rx_frame_size :=
      (if rx_frame_size s = 0 then next_size E s else rx_frame_size s)\<rparr>) \<and>
    list_all quiet es \<and> fifo_reads (port_card s) es = []"
proof (cases "rx_frame_size s = 0")
  case True
  let ?c = "port_card s"
  let ?v = "hw_reg E ?c (events s) 0 FIFO_FC_OFFSET"
  let ?b = "hw_reg E ?c (rd ?c 0 FIFO_FC_OFFSET ?v # events s) 0 BC_FIFO_L_OFFSET"
  have same: "s\<lparr>rx_frame_size := 0\<rparr> = s" using True by simp
  show ?thesis
  proof (cases "rfcnt_of ?v = 0")
    case False
    then show ?thesis using True
      by (intro exI [of _ "[rd ?c 0 FIFO_FC_OFFSET ?v, rd ?c 0 BC_FIFO_L_OFFSET ?b]"])
        (simp add: refresh_frame_size_def fscc_io_get_RFCNT_def get_register_eq Let_def next_size_def
          rfcnt_of_def emits_emits emits_def)
  next
    case z: True
    then show ?thesis using True same
      by (intro exI [of _ "[rd ?c 0 FIFO_FC_OFFSET ?v]"])
        (simp add: refresh_frame_size_def fscc_io_get_RFCNT_def get_register_eq Let_def next_size_def
          rfcnt_of_def emits_emits)
  qed
next
  case False
  then show ?thesis by (intro exI [of _ "[]"]) (simp add: refresh_frame_size_def)
qed

lemma wanted_eq:
  "\<exists>w es. wanted_length E s = (w, emits es s) \<and> list_all quiet es \<and> fifo_reads (port_card s) es = [] \<and>
     (rx_frame_size s \<noteq> 0 \<longrightarrow> w = (if sint (rx_frame_size s) > sint (rx_bytes_in_frame s)
            then rx_frame_size s - rx_bytes_in_frame s else 0))"
proof (cases "rx_frame_size s = 0")
  case True
  let ?v = "hw_reg E (port_card s) (events s) 0 FIFO_BC_OFFSET"
  let ?r = "if ?v AND 0x00003FFF > 8192 then 0 else ?v AND 0x00003FFF"
  from True show ?thesis
    by (intro exI [of _ "?r - ?r mod 4"] exI [of _ "[rd (port_card s) 0 FIFO_BC_OFFSET ?v]"])
      (simp add: wanted_length_def fscc_io_get_RXCNT_def get_register_eq Let_def)
next
  case False
  then show ?thesis by (intro exI exI [of _ "[]"]) (simp add: wanted_length_def)
qed

lemma card_rep_eq:
  assumes "0 < n"
  obtains ws where "length ws = words_for n"
    "fscc_port_get_register_rep E 0 FIFO_OFFSET n s =
      (take n (concat (map u32_bytes ws)), emits (map (rd (port_card s) 0 FIFO_OFFSET) ws) s)"
  using fscc_card_get_register_rep_eq [of 0 n E FIFO_OFFSET s] assms
  by (auto simp: fscc_port_get_register_rep_def)

text \<open>Adding a count to the control word of an unfinished descriptor.\<close>

lemma control_add:
  assumes "rx_open f" "held f + unat rl < 2 ^ 29"
  shows "unat ((frame_control f + rl) AND DMA_MAX_LENGTH) = held f + unat rl"
    "\<not> bit (frame_control f + rl) 30" "\<not> bit (frame_control f + rl) 31"
proof -
  let ?c = "frame_control f"
  define hi :: u32 where "hi = (if bit ?c 29 then DESC_HI_BIT else 0)"
  have hi_bits: "bit hi n = (n = 29 \<and> bit ?c 29)" for n
    by (cases "bit ?c 29") (simp_all only: hi_def if_True if_False bit_mask_u32 simp_thms bit_0_eq bot_apply bot_bool_def)
  have disj: "hi AND w = 0" if "unat w < 2 ^ 29" for w :: u32
  proof -
    have "take_bit 29 w = w" by (rule unat_less_exp [OF that]) simp_all
    then have "\<not> bit w 29" by (metis bit_take_bit_iff less_irrefl)
    then show ?thesis by (intro bit_word_eqI) (auto simp: bit_and_iff hi_bits)
  qed
  have c: "?c = hi + take_bit 29 ?c"
  proof -
    have "hi AND take_bit 29 ?c = 0" using held_less [of f] by (intro disj) (simp add: held_def take_bit_29_and)
    then have "hi + take_bit 29 ?c = hi OR take_bit 29 ?c" by (rule disjunctive_add_eq_or)
    also have "\<dots> = ?c"
    proof (rule bit_word_eqI)
      fix n assume "n < LENGTH(32)"
      then have "n < 29 \<or> n = 29 \<or> n = 30 \<or> n = 31" by auto
      then show "bit (hi OR take_bit 29 ?c) n = bit ?c n"
        using assms(1) by (auto simp: bit_or_iff hi_bits bit_take_bit_iff rx_open_def)
    qed
    finally show ?thesis by simp
  qed
  let ?w = "take_bit 29 ?c + rl"
  have w: "unat ?w = held f + unat rl"
    using assms(2) by (simp add: unat_word_ariths held_def take_bit_29_and)
  have sum: "?c + rl = hi OR ?w"
  proof -
    have "?c + rl = hi + ?w" by (subst c) (simp add: add.assoc)
    also have "\<dots> = hi OR ?w" using disj [of ?w] w assms(2) by (intro disjunctive_add_eq_or) simp
    finally show ?thesis .
  qed
  have tw: "take_bit 29 ?w = ?w" by (rule unat_less_exp [where n = "2 ^ 29"]) (use w assms(2) in simp_all)
  then have no: "\<not> bit ?w 30" "\<not> bit ?w 31"
    using bit_take_bit_iff [of 29 ?w 30] bit_take_bit_iff [of 29 ?w 31] by simp_all
  show "\<not> bit (?c + rl) 30" "\<not> bit (?c + rl) 31"
    unfolding sum using no by (simp_all add: bit_or_iff hi_bits)
  have "take_bit 29 hi = 0" by (rule bit_word_eqI) (auto simp: bit_take_bit_iff hi_bits)
  then have "take_bit 29 (?c + rl) = ?w" unfolding sum by (simp only: take_bit_or tw) simp
  then show "unat ((?c + rl) AND DMA_MAX_LENGTH) = held f + unat rl"
    by (simp only: take_bit_29_and w)
qed

text \<open>What one pass of the loop does to the descriptor, given the frame size \<open>FS\<close> it worked
  with and the bytes it took from the FIFO.\<close>

definition frame_ends :: "u32 \<Rightarrow> u32 \<Rightarrow> bool" where
  "frame_ends FS B \<longleftrightarrow> sint FS > 0 \<and> sint B \<ge> sint FS"

definition fed :: "dma_frame \<Rightarrow> u32 \<Rightarrow> u32 \<Rightarrow> u8 list \<Rightarrow> dma_frame \<Rightarrow> bool" where
  "fed f FS B bytes f' \<longleftrightarrow> data_size f' = data_size f \<and>
     buffer f' = take (held f) (buffer f) @ bytes @ drop (held f + length bytes) (buffer f) \<and>
     (if frame_ends FS B
      then rx_final f' \<and> held f' = unat (FS AND DMA_MAX_LENGTH) \<and> frame_count f' = data_size f
      else if held f + length bytes = unat (data_size f)
      then rx_done f' \<and> \<not> rx_final f' \<and> frame_count f' = data_size f
      else rx_open f' \<and> held f' = held f + length bytes)"

lemma final_control:
  fixes FS :: u32
  shows "bit ((FS OR DESC_CSTOP_BIT) OR DESC_FE_BIT) 30" "bit ((FS OR DESC_CSTOP_BIT) OR DESC_FE_BIT) 31"
    "((FS OR DESC_CSTOP_BIT) OR DESC_FE_BIT) AND DMA_MAX_LENGTH = FS AND DMA_MAX_LENGTH"
proof -
  show "bit ((FS OR DESC_CSTOP_BIT) OR DESC_FE_BIT) 30" "bit ((FS OR DESC_CSTOP_BIT) OR DESC_FE_BIT) 31"
    by (simp_all only: bit_or_iff bit_mask_u32) simp_all
  have "take_bit 29 (DESC_CSTOP_BIT :: u32) = 0" "take_bit 29 (DESC_FE_BIT :: u32) = 0"
    by (simp_all add: take_bit_29_and [symmetric])
  then show "((FS OR DESC_CSTOP_BIT) OR DESC_FE_BIT) AND DMA_MAX_LENGTH = FS AND DMA_MAX_LENGTH"
    by (simp only: take_bit_29_and take_bit_or or.right_neutral)
qed

lemma full_control:
  assumes "\<not> bit (w :: u32) 31"
  shows "bit ((w AND NOT DMA_MAX_LENGTH) OR DESC_CSTOP_BIT) 30"
    "\<not> bit ((w AND NOT DMA_MAX_LENGTH) OR DESC_CSTOP_BIT) 31"
  using assms by (simp_all only: bit_or_iff bit_and_iff bit_mask_u32) simp_all

lemma stamp_emits:
  "\<exists>g es. stamp E f t = (g, emits es t) \<and> list_all quiet es \<and> fifo_reads c es = [] \<and>
     desc g = desc f \<and> buffer g = buffer f \<and> data_size g = data_size f"
  unfolding stamp_eq by (intro exI conjI, rule refl) simp_all

lemma le_antisym_eq: "(a :: nat) \<le> b \<Longrightarrow> (b \<le> a) = (a = b)"
  by auto

lemma fifo_read_step_result:
  assumes f: "frame_ok f" "rx_open f" "held f < unat (data_size f)"
    and FS: "FS = (if rx_frame_size s = 0 then next_size E s else rx_frame_size s)"
  shows "\<exists>bytes es f'. let B = rx_bytes_in_frame s + of_nat (length bytes);
        t = emits es (s\<lparr>rx_frame_size := if frame_ends FS B then 0 else FS,
          rx_bytes_in_frame := if frame_ends FS B then 0 else B\<rparr>);
        fin = (frame_ends FS B \<or> held f + length bytes = unat (data_size f)) in
      fifo_read_step E f s = Some (fin, if fin then step_fifo_rx f' t
        else t\<lparr>rx_descriptors := put_frame (rx_descriptors t) (fifo_rx_desc t) f'\<rparr>) \<and>
      held f + length bytes \<le> unat (data_size f) \<and> fed f FS B bytes f' \<and> list_all quiet es \<and>
      bytes = take (length bytes) (concat (map u32_bytes (fifo_reads (port_card s) es))) \<and>
      length (fifo_reads (port_card s) es) = words_for (length bytes) \<and>
      (FS \<noteq> 0 \<longrightarrow> length bytes = min (if sint FS > sint (rx_bytes_in_frame s)
         then unat (FS - rx_bytes_in_frame s) else 0) (unat (data_size f) - held f))"
proof -
  let ?c = "port_card s"
  from refresh_eq [of E s] obtain es1 where
    s1: "refresh_frame_size E s = emits es1 (s\<lparr>rx_frame_size := FS\<rparr>)" "list_all quiet es1"
    "fifo_reads ?c es1 = []" unfolding FS by blast
  let ?s1 = "emits es1 (s\<lparr>rx_frame_size := FS\<rparr>)"
  from wanted_eq [of E ?s1] obtain w es2 where
    s2: "wanted_length E ?s1 = (w, emits es2 ?s1)" "list_all quiet es2" "fifo_reads ?c es2 = []"
    "FS \<noteq> 0 \<Longrightarrow> w = (if sint FS > sint (rx_bytes_in_frame s) then FS - rx_bytes_in_frame s else 0)"
    by auto
  let ?s2 = "emits es2 ?s1"
  define rl where "rl = min w (data_size f - (frame_control f AND DMA_MAX_LENGTH))"
  have "unat (data_size f - (frame_control f AND DMA_MAX_LENGTH)) = unat (data_size f) - held f"
    using f(3) by (simp add: held_def unat_sub word_le_nat_alt)
  then have rl: "unat rl = min (unat w) (unat (data_size f) - held f)"
    by (simp add: rl_def min_def word_le_nat_alt)
  then have fit: "held f + unat rl \<le> unat (data_size f)" using f(3) by auto
  have small: "held f + unat rl < 2 ^ 29" using fit f(1) by (simp add: frame_ok_def)
  obtain bytes es3 where b: "length bytes = unat rl" "list_all quiet es3"
      "length (fifo_reads ?c es3) = words_for (length bytes)"
      "bytes = take (length bytes) (concat (map u32_bytes (fifo_reads ?c es3)))"
      "(if rl \<noteq> 0
           then (let (bytes, s3) = fscc_port_get_register_rep E 0 FIFO_OFFSET (unat rl) ?s2
                 in do { buf \<leftarrow> rtl_copy (buffer f) (unat (frame_control f AND DMA_MAX_LENGTH)) bytes
                                  (unat rl);
                         Some (buf, s3) })
           else Some (buffer f, ?s2)) =
        Some (take (held f) (buffer f) @ bytes @ drop (held f + unat rl) (buffer f), emits es3 ?s2)"
  proof (cases "rl = 0")
    case True
    then show ?thesis by (intro that [of "[]" "[]"]) (simp_all add: words_for_def)
  next
    case False
    then have "0 < unat rl" by (simp add: unat_gt_0)
    then obtain ws where ws: "length ws = words_for (unat rl)"
      "fscc_port_get_register_rep E 0 FIFO_OFFSET (unat rl) ?s2 =
        (take (unat rl) (concat (map u32_bytes ws)), emits (map (rd ?c 0 FIFO_OFFSET) ws) ?s2)"
      by (rule card_rep_eq [of "unat rl" E ?s2]) simp
    have len: "length (concat (map u32_bytes ws)) = 4 * words_for (unat rl)"
      using ws(1) by (simp add: length_concat o_def sum_list_triv)
    then have lb: "length (take (unat rl) (concat (map u32_bytes ws))) = unat rl"
      by (simp add: words_for_def)
    have "length (buffer f) = unat (data_size f)" using f(1) by (simp add: frame_ok_def)
    then have "rtl_copy (buffer f) (held f) (take (unat rl) (concat (map u32_bytes ws))) (unat rl) =
        Some (take (held f) (buffer f) @ take (unat rl) (concat (map u32_bytes ws)) @
          drop (held f + unat rl) (buffer f))"
      using fit lb by (subst rtl_copy_Some) simp_all
    with False ws lb show ?thesis
      by (intro that [of "take (unat rl) (concat (map u32_bytes ws))" "map (rd ?c 0 FIFO_OFFSET) ws"])
        (simp_all add: fifo_reads_words held_def)
  qed
  let ?buf = "take (held f) (buffer f) @ bytes @ drop (held f + unat rl) (buffer f)"
  define ctl where "ctl = frame_control f + rl"
  note ctl = control_add [OF f(2) small, folded ctl_def]
  have full: "(ctl AND DMA_MAX_LENGTH \<ge> data_size f) = (held f + unat rl = unat (data_size f))"
    unfolding word_le_nat_alt ctl(1) using le_antisym_eq [OF fit] by blast
  define B where "B = rx_bytes_in_frame s + rl"
  have B: "B = rx_bytes_in_frame s + of_nat (length bytes)" by (simp add: B_def b(1))
  let ?full = "held f + unat rl = unat (data_size f)"
  define ctl2 where "ctl2 = (if frame_ends FS B then (FS OR DESC_CSTOP_BIT) OR DESC_FE_BIT
    else if ?full then (ctl AND NOT DMA_MAX_LENGTH) OR DESC_CSTOP_BIT else ctl)"
  let ?fin = "frame_ends FS B \<or> ?full"
  have fin: "(ctl2 AND DESC_CSTOP_BIT \<noteq> 0) = ?fin"
    using final_control(1) [of FS] full_control [OF ctl(3)] ctl(2) by (simp add: ctl2_def bit_tests)
  let ?s5 = "s\<lparr>rx_frame_size := if frame_ends FS B then 0 else FS,
          rx_bytes_in_frame := if frame_ends FS B then 0 else B\<rparr>"
  let ?g = "f\<lparr>buffer := ?buf\<rparr>"
  obtain g es4 where st: "stamp E ?g (emits (es1 @ es2 @ es3) ?s5) = (g, emits es4 (emits (es1 @ es2 @ es3) ?s5))"
    "list_all quiet es4" "fifo_reads ?c es4 = []" "desc g = desc f" "buffer g = ?buf" "data_size g = data_size f"
    using stamp_emits [of E ?g "emits (es1 @ es2 @ es3) ?s5" ?c] by auto
  define f' where "f' = (if ?fin then set_control ctl2 (set_data_count (data_size f) g) else set_control ctl2 ?g)"
  let ?es = "es1 @ es2 @ es3 @ (if ?fin then es4 else [])"
  let ?t = "emits ?es ?s5"
  have run: "fifo_read_step E f s = Some (?fin, if ?fin then step_fifo_rx f' ?t
        else ?t\<lparr>rx_descriptors := put_frame (rx_descriptors ?t) (fifo_rx_desc ?t) f'\<rparr>)"
  proof -
    let ?s4 = "emits (es1 @ es2 @ es3) (s\<lparr>rx_frame_size := FS, rx_bytes_in_frame := B\<rparr>)"
    have s4: "(emits es3 ?s2)\<lparr>rx_bytes_in_frame := rx_bytes_in_frame (emits es3 ?s2) + rl\<rparr> = ?s4"
      by (simp add: emits_def B_def)
    have s5: "(if frame_ends FS B then ?s4\<lparr>rx_frame_size := 0, rx_bytes_in_frame := 0\<rparr> else ?s4) =
        emits (es1 @ es2 @ es3) ?s5"
      by (simp add: emits_def)
    have sel: "rx_frame_size ?s4 = FS" "rx_bytes_in_frame ?s4 = B" by (simp_all add: emits_def)
    have c2: "(if frame_ends FS B then (FS OR DESC_CSTOP_BIT) OR DESC_FE_BIT
        else if ctl AND DMA_MAX_LENGTH \<ge> data_size f
        then (ctl AND NOT DMA_MAX_LENGTH) OR DESC_CSTOP_BIT else ctl) = ctl2"
      by (simp only: ctl2_def full)
    have split: "(if p then (let (f, s6) = (g, t1); h = set_data_count (data_size f) f in (h, s6))
        else (f2, t2)) = (if p then set_data_count (data_size g) g else f2, if p then t1 else t2)" for p t1 t2 f2
      by simp
    show ?thesis
      unfolding fifo_read_step_def Let_def s1(1) s2(1) split_conv rl_def [symmetric] b(5) [unfolded Let_def]
        Option.bind.simps ctl_def [symmetric] s4 sel frame_ends_def [symmetric] c2 s5 fin
        dma_frame.simps st(1)
      by (simp add: f'_def emits_emits st(6))
  qed
  have "fed f FS B bytes f'"
    using final_control full_control [OF ctl(3)] ctl st(5,6) b(1)
    by (auto simp: fed_def f'_def ctl2_def rx_final_def rx_done_def rx_open_def held_def)
  moreover have "list_all quiet ?es" using s1(2) s2(2) b(2) st(2) by simp
  moreover have "fifo_reads ?c ?es = fifo_reads ?c es3" using s1(3) s2(3) st(3) by simp
  moreover have "FS \<noteq> 0 \<longrightarrow> unat rl = min (if sint FS > sint (rx_bytes_in_frame s)
         then unat (FS - rx_bytes_in_frame s) else 0) (unat (data_size f) - held f)"
    using rl s2(4) by simp
  ultimately show ?thesis
    by (intro exI [of _ bytes] exI [of _ ?es] exI [of _ f'], unfold Let_def, fold B, unfold b(1), intro conjI)
      (use run b(3,4) fit in \<open>simp_all only: b(1)\<close>)
qed

text \<open>What the FIFO side of reception may change, and what stays quiet.\<close>

definition fifo_rx_change :: "driver \<Rightarrow> driver \<Rightarrow> bool" where
  "fifo_rx_change s s' \<longleftrightarrow> s' = s\<lparr>rx_descriptors := rx_descriptors s', fifo_rx_desc := fifo_rx_desc s',
     rx_bytes_in_frame := rx_bytes_in_frame s', rx_frame_size := rx_frame_size s', events := events s'\<rparr>"

lemma fifo_rx_change_refl [simp]: "fifo_rx_change s s"
  by (simp add: fifo_rx_change_def)

lemma fifo_rx_change_trans: "fifo_rx_change s t \<Longrightarrow> fifo_rx_change t u \<Longrightarrow> fifo_rx_change s u"
proof -
  assume 1: "fifo_rx_change s t" and 2: "fifo_rx_change t u"
  have "t\<lparr>rx_descriptors := d, fifo_rx_desc := c, rx_bytes_in_frame := b, rx_frame_size := z, events := e\<rparr> =
      s\<lparr>rx_descriptors := d, fifo_rx_desc := c, rx_bytes_in_frame := b, rx_frame_size := z, events := e\<rparr>"
    for d c b z e by (subst 1 [unfolded fifo_rx_change_def]) simp
  with 2 show "fifo_rx_change s u" unfolding fifo_rx_change_def by simp
qed

lemma fifo_rx_change_steps [simp]:
  "fifo_rx_change s (step_fifo_rx f (emits es (s\<lparr>rx_frame_size := z, rx_bytes_in_frame := b\<rparr>)))"
  "fifo_rx_change s ((emits es (s\<lparr>rx_frame_size := z, rx_bytes_in_frame := b\<rparr>))\<lparr>rx_descriptors := d\<rparr>)"
  by (simp_all add: fifo_rx_change_def step_fifo_rx_def emits_def)

lemma fifo_rx_change_sel:
  assumes "fifo_rx_change s s'"
  shows "port_card s' = port_card s" "memory s' = memory s" "user_rx_desc s' = user_rx_desc s"
    "tx_descriptors s' = tx_descriptors s" "append_status s' = append_status s"
    "append_timestamp s' = append_timestamp s" "rx_multiple s' = rx_multiple s"
    "register_storage s' = register_storage s"
  by (subst assms [unfolded fifo_rx_change_def], simp)+

lemma fed_frame:
  assumes f: "frame_ok f" "rx_open f" and fed: "fed f FS B bytes f'"
    and fits: "held f + length bytes \<le> unat (data_size f)"
  shows "frame_ok f'"
    and "frame_ends FS B \<or> held f + length bytes = unat (data_size f) \<Longrightarrow> rx_done f' \<and> rx_count_ok f'"
    and "\<not> (frame_ends FS B \<or> held f + length bytes = unat (data_size f)) \<Longrightarrow>
      rx_open f' \<and> held f' = held f + length bytes \<and> held f' < unat (data_size f')"
  using f fed fits by (auto simp: frame_ok_def fed_def rx_count_ok_def rx_final_def rx_done_def split: if_splits)

text \<open>One pass on the ring: the descriptor is finished and the pass moves on, or it stays at
  the cursor and the loop ends.\<close>

definition fed_port :: "driver \<Rightarrow> u32 \<Rightarrow> u32 \<Rightarrow> event list \<Rightarrow> driver" where
  "fed_port s FS B es = emits es (s\<lparr>rx_frame_size := if frame_ends FS B then 0 else FS,
     rx_bytes_in_frame := if frame_ends FS B then 0 else B\<rparr>)"

definition rx_pass :: "driver \<Rightarrow> dma_frame \<Rightarrow> u32 \<Rightarrow> u8 list \<Rightarrow> event list \<Rightarrow> bool" where
  "rx_pass s f FS bytes es \<longleftrightarrow> list_all quiet es \<and> held f + length bytes \<le> unat (data_size f) \<and>
     bytes = take (length bytes) (concat (map u32_bytes (fifo_reads (port_card s) es))) \<and>
     length (fifo_reads (port_card s) es) = words_for (length bytes) \<and>
     (FS \<noteq> 0 \<longrightarrow> length bytes = min (if sint FS > sint (rx_bytes_in_frame s)
         then unat (FS - rx_bytes_in_frame s) else 0) (unat (data_size f) - held f))"

lemma fifo_read_step_ring:
  assumes state: "rx_state True s D (f # C)"
    and FS: "FS = (if rx_frame_size s = 0 then next_size E s else rx_frame_size s)"
  obtains (finished) bytes es f' B where "B = rx_bytes_in_frame s + of_nat (length bytes)"
      "rx_pass s f FS bytes es" "fed f FS B bytes f'"
      "frame_ends FS B \<or> held f + length bytes = unat (data_size f)"
      "fifo_read_step E f s = Some (True, step_fifo_rx f' (fed_port s FS B es))"
      "rx_state True (step_fifo_rx f' (fed_port s FS B es)) (D @ [f']) C"
  | (waiting) bytes es f' B t where "B = rx_bytes_in_frame s + of_nat (length bytes)"
      "rx_pass s f FS bytes es" "fed f FS B bytes f'"
      "\<not> (frame_ends FS B \<or> held f + length bytes = unat (data_size f))"
      "t = (fed_port s FS B es)\<lparr>rx_descriptors := put_frame (rx_descriptors s) (fifo_rx_desc s) f'\<rparr>"
      "fifo_read_step E f s = Some (False, t)" "rx_state True t D (f' # C)"
proof -
  have f: "frame_ok f" "rx_open f" "held f < unat (data_size f)"
    using state by (simp_all add: rx_state_def rx_free_ok_def)
  from fifo_read_step_result [OF f FS] obtain bytes es f' B fin where r:
    "B = rx_bytes_in_frame s + of_nat (length bytes)"
    "fin = (frame_ends FS B \<or> held f + length bytes = unat (data_size f))"
    "fifo_read_step E f s = Some (fin, if fin then step_fifo_rx f' (fed_port s FS B es)
        else (fed_port s FS B es)\<lparr>rx_descriptors := put_frame (rx_descriptors (fed_port s FS B es))
          (fifo_rx_desc (fed_port s FS B es)) f'\<rparr>)"
    "held f + length bytes \<le> unat (data_size f)" "fed f FS B bytes f'" "rx_pass s f FS bytes es"
    unfolding Let_def fed_port_def rx_pass_def by blast
  note f' = fed_frame [OF f(1,2) r(5) r(4), folded r(2)]
  let ?t = "fed_port s FS B es"
  have same: "rx_descriptors ?t = rx_descriptors s" "fifo_rx_desc ?t = fifo_rx_desc s"
    by (simp_all add: fed_port_def)
  have state_t: "rx_state True ?t D (f # C)" by (rule rx_state_cong [OF state]) (simp_all add: fed_port_def)
  have keep: "data_size f' = data_size f" using r(5) by (simp add: fed_def)
  show thesis
  proof (cases fin)
    case True
    have "rx_state True (step_fifo_rx f' ?t) (D @ [f']) C"
      using rx_state_finish [OF state_t _ f'(1)] f'(2) [OF True] by blast
    with True finished [OF r(1,6,5)] r(2,3) show thesis by simp
  next
    case False
    have "rx_free_ok (f' # C)"
      using f'(3) [OF False] state keep by (simp add: rx_state_def rx_free_ok_def)
    from rx_state_update [OF state_t this f'(1) refl] False waiting [OF r(1,6,5)] r(2,3) same
    show thesis by simp
  qed
qed

lemma fed_port_change [simp]:
  "fifo_rx_change s (step_fifo_rx f (fed_port s FS B es))"
  "fifo_rx_change s ((fed_port s FS B es)\<lparr>rx_descriptors := d\<rparr>)"
  "events (fed_port s FS B es) = rev es @ events s" "events (step_fifo_rx f t) = events t"
  by (simp_all add: fed_port_def) (simp add: step_fifo_rx_def)

lemma fifo_read_loop_ok:
  "rx_state True s D C \<Longrightarrow> \<exists>s' D' C' es. fifo_read_loop E n s = Some s' \<and> rx_state True s' (D @ D') C' \<and>
     fifo_rx_change s s' \<and> events s' = rev es @ events s \<and> list_all quiet es"
proof (induction n arbitrary: s D C)
  case 0
  then show ?case by (intro exI [of _ s] exI [of _ "[]"] exI [of _ C]) simp
next
  case (Suc n)
  show ?case
  proof (cases C)
    case Nil
    have num: "unat (rx_num (memory s)) = length D" using rx_state_num [OF Suc.prems] Nil by simp
    obtain g D2 where D: "D = g # D2"
      using num Suc.prems by (cases D) (auto simp: rx_state_def dest: ring_at_less)
    have ring: "ring_at (rx_descriptors s) (rx_num (memory s)) (user_rx_desc s)"
      using Suc.prems by (simp add: rx_state_def)
    have "fifo_rx_desc s = user_rx_desc s"
      using Suc.prems ring_at_less [OF ring] num by (simp add: rx_state_def word_unat_eq_iff)
    then have "frame_at (rx_descriptors s) (fifo_rx_desc s) = Some g" "rx_done g"
      using user_rx.frame_at_cursor [OF ring] Suc.prems D by (simp_all add: rx_state_def rx_view_def)
    with Suc.prems show ?thesis
      by (intro exI [of _ s] exI [of _ "[]"] exI [of _ C] exI [of _ "[]"]) (simp add: control_tests)
  next
    case (Cons f C2)
    note state = Suc.prems [unfolded Cons]
    note at = rx_state_at_fifo [OF state]
    have nd: "\<not> rx_done f" using state by (simp add: rx_state_def rx_free_ok_def rx_open_def rx_done_def)
    from state refl [of "if rx_frame_size s = 0 then next_size E s else rx_frame_size s"] show ?thesis
    proof (cases rule: fifo_read_step_ring [where E = E])
      case (finished bytes es f' B)
      let ?t = "step_fifo_rx f' (fed_port s (if rx_frame_size s = 0 then next_size E s else rx_frame_size s) B es)"
      from Suc.IH [OF finished(6)] obtain s' D' C' es' where IH:
        "fifo_read_loop E n ?t = Some s'" "rx_state True s' ((D @ [f']) @ D') C'"
        "fifo_rx_change ?t s'" "events s' = rev es' @ events ?t" "list_all quiet es'" by blast
      have "fifo_rx_change s s'" by (rule fifo_rx_change_trans [OF _ IH(3)]) simp
      moreover have "events s' = rev (es @ es') @ events s" using IH(4) by simp
      ultimately show ?thesis using IH(1,2,5) finished(2,5) at nd
        by (intro exI [of _ s'] exI [of _ "f' # D'"] exI [of _ C'] exI [of _ "es @ es'"])
          (simp add: control_tests rx_pass_def)
    next
      case (waiting bytes es f' B t)
      then show ?thesis using at nd
        by (intro exI [of _ t] exI [of _ "[]"] exI [of _ "f' # C2"] exI [of _ es])
          (simp add: control_tests rx_pass_def)
    qed
  qed
qed

section \<open>One frame\<close>

lemma sint_small: "unat (x :: u32) < 2 ^ 31 \<Longrightarrow> sint x = int (unat x)"
proof -
  assume "unat x < 2 ^ 31"
  then have "int (unat x) < int (2 ^ 31)" unfolding of_nat_less_iff .
  then have "uint x < 2 ^ 31" by (simp only: of_nat_unat of_nat_power of_nat_numeral)
  moreover have "- (2 ^ 31) \<le> uint x" by (rule order_trans [of _ 0]) simp_all
  ultimately have "signed_take_bit 31 (uint x) = uint x" by (intro signed_take_bit_int_eq_self)
  then show ?thesis by (simp add: sint_uint)
qed

lemma frame_ends_counts:
  assumes "0 < unat sz" "unat sz < 2 ^ 29" "n < 2 ^ 30"
  shows "frame_ends sz (of_nat n) = (unat sz \<le> n)"
proof -
  have "unat (of_nat n :: u32) = n" using assms(3) by (simp add: unsigned_of_nat take_bit_nat_eq_self)
  then show ?thesis using assms sint_small [of sz] sint_small [of "of_nat n"] by (simp add: frame_ends_def del: of_nat_unat)
qed

lemma pass_length:
  assumes "rx_pass s f sz bytes es" "rx_bytes_in_frame s = of_nat p" "p < unat sz" "unat sz < 2 ^ 29"
    "held f = 0"
  shows "length bytes = min (unat sz - p) (unat (data_size f))"
proof -
  have p: "unat (of_nat p :: u32) = p" using assms(3,4) by (simp add: unsigned_of_nat take_bit_nat_eq_self)
  have nz: "sz \<noteq> 0" using assms(3) by auto
  have "sint sz > sint (of_nat p :: u32)" using p assms(3,4) sint_small [of sz] sint_small [of "of_nat p"] by (simp del: of_nat_unat)
  moreover have "unat (sz - of_nat p) = unat sz - p" using p assms(3) by (simp add: unat_sub word_le_nat_alt)
  ultimately show ?thesis using assms(1,2,5) nz by (simp add: rx_pass_def)
qed

lemma words_for_mult4: "n mod 4 = 0 \<Longrightarrow> 4 * words_for n = n"
  unfolding words_for_split by auto

lemma fifo_read_loop_frame:
  assumes "rx_state True s D (f # C)" "(if rx_frame_size s = 0 then next_size E s else rx_frame_size s) = sz"
    "unat sz < 2 ^ 29" "rx_bytes_in_frame s = of_nat p" "p < unat sz" "held f = 0"
    "unat sz \<le> p + sum_list (map (\<lambda>f. unat (data_size f)) (f # C))" "length C < n"
  shows "\<exists>Is L C' s1 es n1. fifo_read_loop E n s = fifo_read_loop E n1 s1 \<and>
     rx_state True s1 (D @ Is @ [L]) C' \<and> fifo_rx_change s s1 \<and>
     events s1 = rev es @ events s \<and> list_all quiet es \<and>
     list_all (\<lambda>f. \<not> rx_final f) Is \<and> rx_final L \<and> held L = unat sz \<and>
     p + counted Is < unat sz \<and> unat sz \<le> p + counted Is + unat (data_size L) \<and>
     waiting_bytes Is @ take (unat sz - (p + counted Is)) (buffer L) =
       take (unat sz - p) (concat (map u32_bytes (fifo_reads (port_card s) es)))"
  using assms
proof (induction n arbitrary: s D f C p)
  case 0
  then show ?case by simp
next
  case (Suc n)
  note state = Suc.prems(1)
  note at = rx_state_at_fifo [OF state]
  have nd: "\<not> rx_done f" using state by (simp add: rx_state_def rx_free_ok_def rx_open_def rx_done_def)
  have fok: "unat (data_size f) mod 4 = 0" "unat (data_size f) < 2 ^ 29" "0 < unat (data_size f)"
      "length (buffer f) = unat (data_size f)"
    using state by (simp_all add: rx_state_def frame_ok_def)
  have step: "fifo_read_loop E (Suc n) s = fifo_read_loop E n t"
    if "fifo_read_step E f s = Some (True, t)" for t
    using at nd that by (simp add: control_tests)
  from state Suc.prems(2) [symmetric] show ?case
  proof (cases rule: fifo_read_step_ring)
    case (finished bytes es f' B)
    let ?t = "step_fifo_rx f' (fed_port s sz B es)"
    note len = pass_length [OF finished(2) Suc.prems(4,5,3,6)]
    have B: "B = of_nat (p + length bytes)" using finished(1) Suc.prems(4) by simp
    have "p + length bytes < 2 ^ 30" using len Suc.prems(3,5) by simp
    then have ends: "frame_ends sz B = (unat sz - p \<le> unat (data_size f))"
      unfolding B using frame_ends_counts [of sz "p + length bytes"] Suc.prems(3,5) len by linarith
    have h: "held f = 0" by (rule Suc.prems(6))
    have bytes: "bytes = take (length bytes) (concat (map u32_bytes (fifo_reads (port_card s) es)))"
      and words: "length (fifo_reads (port_card s) es) = words_for (length bytes)"
      and quiet: "list_all quiet es" using finished(2) by (simp_all add: rx_pass_def)
    have buf: "buffer f' = bytes @ drop (length bytes) (buffer f)" "data_size f' = data_size f"
      using finished(3) h by (simp_all add: fed_def)
    show ?thesis
    proof (cases "unat sz - p \<le> unat (data_size f)")
      case True
      have "unat (sz AND DMA_MAX_LENGTH) = unat sz"
        using Suc.prems(3) by (simp add: take_bit_29_and take_bit_nat_eq_self unsigned_take_bit_eq)
      then have "rx_final f'" "held f' = unat sz" using True ends finished(3) by (simp_all add: fed_def)
      moreover have "take (unat sz - p) (buffer f') = bytes" using buf(1) len True by simp
      moreover have "take (unat sz - p) (concat (map u32_bytes (fifo_reads (port_card s) es))) = bytes"
        using bytes len True by simp
      ultimately show ?thesis using step [OF finished(5)] finished(6) quiet True buf(2) Suc.prems(5)
        by (intro exI [of _ "[]"] exI [of _ f'] exI [of _ C] exI [of _ ?t] exI [of _ es] exI [of _ n])
          (simp add: counted_def waiting_bytes_def)
    next
      case False
      then have lb: "length bytes = unat (data_size f)" using len by simp
      have nf: "\<not> rx_final f'" "frame_count f' = data_size f" 
        using False ends finished(3) lb h by (simp_all add: fed_def)
      have full: "buffer f' = bytes" using buf(1) lb fok(4) by simp
      have "length (concat (map u32_bytes (fifo_reads (port_card s) es))) = 4 * words_for (length bytes)"
        using words by (simp add: length_concat o_def sum_list_triv)
      then have all: "concat (map u32_bytes (fifo_reads (port_card s) es)) = bytes"
        using bytes lb words_for_mult4 [OF fok(1)] by simp
      obtain f2 C2 where C: "C = f2 # C2" using False Suc.prems(5,7) by (cases C) auto
      have t: "(if rx_frame_size ?t = 0 then next_size E ?t else rx_frame_size ?t) = sz"
        "rx_bytes_in_frame ?t = of_nat (p + unat (data_size f))" "port_card ?t = port_card s"
        using False ends Suc.prems(5) B lb by (auto simp: fed_port_def step_fifo_rx_def)
      have rest: "held f2 = 0" "p + unat (data_size f) < unat sz"
        "unat sz \<le> p + unat (data_size f) + sum_list (map (\<lambda>f. unat (data_size f)) (f2 # C2))" "length C2 < n"
        using state C False Suc.prems(7,8) by (simp_all add: rx_state_def rx_free_ok_def)
      from Suc.IH [OF finished(6) [unfolded C] t(1) Suc.prems(3) t(2) rest(2,1,3,4)] t(3)
      obtain Is L C' s1 es' n1 where IH: "fifo_read_loop E n ?t = fifo_read_loop E n1 s1"
        "rx_state True s1 ((D @ [f']) @ Is @ [L]) C'" "fifo_rx_change ?t s1"
        "events s1 = rev es' @ events ?t" "list_all quiet es'" "list_all (\<lambda>f. \<not> rx_final f) Is"
        "rx_final L" "held L = unat sz" "p + unat (data_size f) + counted Is < unat sz"
        "unat sz \<le> p + unat (data_size f) + counted Is + unat (data_size L)"
        "waiting_bytes Is @ take (unat sz - (p + unat (data_size f) + counted Is)) (buffer L) =
           take (unat sz - (p + unat (data_size f))) (concat (map u32_bytes (fifo_reads (port_card s) es')))"
        by auto
      have "fifo_rx_change s s1" by (rule fifo_rx_change_trans [OF _ IH(3)]) simp
      moreover have "counted (f' # Is) = unat (data_size f) + counted Is"
        "waiting_bytes (f' # Is) = bytes @ waiting_bytes Is"
        using nf full lb by (simp_all add: counted_def waiting_bytes_Cons)
      ultimately show ?thesis using IH step [OF finished(5)] quiet nf(1) all lb False
        by (intro exI [of _ "f' # Is"] exI [of _ L] exI [of _ C'] exI [of _ s1] exI [of _ "es @ es'"] exI [of _ n1])
          (simp add: add.assoc)
    qed
  next
    case (waiting bytes es f' B t)
    note len = pass_length [OF waiting(2) Suc.prems(4,5,3,6)]
    have "p + length bytes < 2 ^ 30" using len Suc.prems(3,5) by simp
    then have "frame_ends sz B = (unat sz \<le> p + length bytes)"
      using frame_ends_counts [of sz "p + length bytes"] waiting(1) Suc.prems(3-5) by simp
    with waiting(4) have "unat sz > p + length bytes" "length bytes \<noteq> unat (data_size f)"
      using Suc.prems(6) by auto
    with len have False by linarith
    then show ?thesis ..
  qed
qed

section \<open>Properties\<close>

lemma rx_ring_stateE:
  assumes "rx_ring_ok fifo s" "rx_queue s = D"
  obtains C where "rx_state fifo s D C" "C = rx_free s"
  using rx_ring_ok_state [OF assms(1)] assms(2) by simp

text \<open>Property C9. Whatever the card answers, taking data out of the receive FIFO makes no
  access outside a buffer, keeps the receive ring and its FIFO cursor in step, changes nothing of
  the port but its receive side, answers no request, and only appends finished descriptors to the queue.\<close>

theorem fifo_read_keeps_ring:
  assumes "rx_ring_ok True s"
  shows "\<exists>s' D. fscc_fifo_read_data E s = Some (STATUS_SUCCESS, s') \<and> rx_ring_ok True s' \<and>
    rx_queue s' = rx_queue s @ D \<and> fifo_rx_change s s' \<and> list_all quiet (new_events s s')"
proof -
  from rx_ring_ok_state [OF assms] fifo_read_loop_ok [of s "rx_queue s" "rx_free s" E "unat (rx_num (memory s))"]
  obtain s' D C es where r: "fifo_read_loop E (unat (rx_num (memory s))) s = Some s'"
    "rx_state True s' (rx_queue s @ D) C" "fifo_rx_change s s'" "events s' = rev es @ events s" "list_all quiet es"
    by blast
  then show ?thesis using rx_state_queue [OF r(2)] new_events_eq [OF r(4)]
    by (intro exI [of _ s'] exI [of _ D]) (simp add: fscc_fifo_read_data_def)
qed

lemma fifo_read_receives:
  assumes "rx_ring_ok True s" "rx_frame_size s = 0" "rx_bytes_in_frame s = 0"
    and "0 < unat (next_size E s)" "unat (next_size E s) < 2 ^ 29"
    and "list_all (\<lambda>f. held f = 0) (rx_free s)"
    and "unat (next_size E s) \<le> sum_list (map (\<lambda>f. unat (data_size f)) (rx_free s))"
  shows "\<exists>s' Is L D. fscc_fifo_read_data E s = Some (STATUS_SUCCESS, s') \<and> rx_ring_ok True s' \<and>
    rx_queue s' = rx_queue s @ Is @ L # D \<and> rx_frame Is L \<and> held L = unat (next_size E s) \<and>
    frame_bytes Is L = take (unat (next_size E s))
      (concat (map u32_bytes (fifo_reads (port_card s) (new_events s s')))) \<and>
    fifo_rx_change s s' \<and> list_all quiet (new_events s s')"
proof -
  let ?sz = "next_size E s"
  note state = rx_ring_ok_state [OF assms(1)]
  obtain f C where C: "rx_free s = f # C" using assms(4,7) by (cases "rx_free s") auto
  have num: "length C < unat (rx_num (memory s))" using rx_state_num [OF state] C by simp
  from fifo_read_loop_frame [OF state [unfolded C], of E ?sz 0, OF _ assms(5) _ assms(4) _ _ num]
  obtain Is L C' s1 es n1 where r: "fifo_read_loop E (unat (rx_num (memory s))) s = fifo_read_loop E n1 s1"
    "rx_state True s1 (rx_queue s @ Is @ [L]) C'" "fifo_rx_change s s1" "events s1 = rev es @ events s"
    "list_all quiet es" "list_all (\<lambda>f. \<not> rx_final f) Is" "rx_final L" "held L = unat ?sz"
    "counted Is < unat ?sz" "unat ?sz \<le> counted Is + unat (data_size L)"
    "waiting_bytes Is @ take (unat ?sz - counted Is) (buffer L) =
       take (unat ?sz) (concat (map u32_bytes (fifo_reads (port_card s) es)))"
    using assms(2,3,6,7) C by auto
  from fifo_read_loop_ok [OF r(2), of E n1] obtain s' D C2 es2 where q:
    "fifo_read_loop E n1 s1 = Some s'" "rx_state True s' ((rx_queue s @ Is @ [L]) @ D) C2" "fifo_rx_change s1 s'"
    "events s' = rev es2 @ events s1" "list_all quiet es2" by blast
  have new: "new_events s s' = es @ es2" by (rule new_events_eq) (simp add: q(4) r(4))
  have "list_all frame_ok (Is @ [L])" "list_all rx_count_ok Is" using r(2) by (simp_all add: rx_state_def)
  then have "length (waiting_bytes Is @ take (unat ?sz - counted Is) (buffer L)) = unat ?sz"
    using r(9,10) length_waiting_bytes [of Is] by (simp add: frame_ok_def)
  then have "unat ?sz \<le> length (concat (map u32_bytes (fifo_reads (port_card s) es)))"
    unfolding r(11) by simp
  then have bytes: "frame_bytes Is L = take (unat ?sz)
      (concat (map u32_bytes (fifo_reads (port_card s) (new_events s s'))))"
    using r(8,11) by (simp add: frame_bytes_def new)
  have "rx_frame Is L" using r(6-10) by (simp add: rx_frame_def)
  moreover have "fifo_rx_change s s'" by (rule fifo_rx_change_trans [OF r(3) q(3)])
  ultimately show ?thesis using q(1,5) r(1,5,8) rx_state_queue [OF q(2)] bytes new
    by (intro exI [of _ s'] exI [of _ Is] exI [of _ L] exI [of _ D]) (simp add: fscc_fifo_read_data_def)
qed

text \<open>Property C10. A frame the FIFO holds completely, and for which the unfinished
  descriptors have room, ends up in the queue: some full descriptors and one that ends the frame,
  carries its size, and with them exactly the bytes of the words read from the FIFO.\<close>

theorem fifo_read_receives_frame:
  assumes "rx_ring_ok True s" "rx_frame_size s = 0" "rx_bytes_in_frame s = 0"
    and "0 < unat (next_size E s)" "unat (next_size E s) < 2 ^ 29"
    and "list_all (\<lambda>f. held f = 0) (rx_free s)"
    and "unat (next_size E s) \<le> sum_list (map (\<lambda>f. unat (data_size f)) (rx_free s))"
  shows "\<exists>s' Is L D. fscc_fifo_read_data E s = Some (STATUS_SUCCESS, s') \<and> rx_ring_ok True s' \<and>
    rx_queue s' = rx_queue s @ Is @ L # D \<and> rx_frame Is L \<and> held L = unat (next_size E s) \<and>
    frame_bytes Is L = take (unat (next_size E s))
      (concat (map u32_bytes (fifo_reads (port_card s) (new_events s s')))) \<and>
    fifo_rx_change s s' \<and> list_all quiet (new_events s s')"
  by (rule fifo_read_receives [OF assms])

text \<open>What fits: the longest run of frames at the front that the buffer has room for.\<close>

lemma frames_that_fit:
  assumes "well_cut s Fs" "list_all (\<lambda>f. \<not> rx_final f) D"
  shows "\<exists>Gs Hs. Fs = Gs @ Hs \<and> rooms s Gs \<le> k \<and> reading_ends s (k - rooms s Gs) (frames_of Hs @ D) \<and>
    (\<forall>Is f Fs'. Fs = (Is, f) # Fs' \<longrightarrow> user_room s f \<le> k \<longrightarrow> Gs \<noteq> [])"
  using assms(1)
proof (induction Fs arbitrary: k)
  case Nil
  from assms(2) show ?case by (intro exI [of _ "[]"]) (simp add: reading_ends_def)
next
  case (Cons F Fs)
  obtain Is f where F: "F = (Is, f)" by (cases F)
  show ?case
  proof (cases "user_room s f \<le> k")
    case True
    from Cons.IH [of "k - user_room s f"] Cons.prems F obtain Gs Hs where
      "Fs = Gs @ Hs" "rooms s Gs \<le> k - user_room s f"
      "reading_ends s (k - user_room s f - rooms s Gs) (frames_of Hs @ D)" by auto
    with True F show ?thesis by (intro exI [of _ "F # Gs"] exI [of _ Hs]) (simp add: diff_diff_left)
  next
    case False
    have "reading_ends s k (Is @ f # frames_of Fs @ D)"
      using False Cons.prems F unfolding reading_ends_def
      by (intro disjI2 exI [of _ Is] exI [of _ f] exI [of _ "frames_of Fs @ D"]) (simp add: rx_frame_def)
    with False F show ?thesis by (intro exI [of _ "[]"] exI [of _ "F # Fs"]) auto
  qed
qed

lemma frames_of_append [simp]: "frames_of (Gs @ Hs) = frames_of Gs @ frames_of Hs"
  by (simp add: frames_of_def)

lemma well_cut_append [simp]: "well_cut s (Gs @ Hs) = (well_cut s Gs \<and> well_cut s Hs)"
  by (simp add: well_cut_def)

text \<open>Reading whole frames, with \<open>D\<close> behind them: it always succeeds when the first one fits.\<close>

lemma read_frames_fitting:
  assumes state: "rx_state fifo s (frames_of ((Is, f) # Fs) @ D) C" and cut: "well_cut s ((Is, f) # Fs)"
    and "rx_multiple s = 0 \<or> list_all (\<lambda>f. \<not> rx_final f) D" and fits: "user_room s f \<le> unat L"
  shows "\<exists>Gs Hs s' C' es. Fs = Gs @ Hs \<and> rooms s ((Is, f) # Gs) \<le> unat L \<and>
    fscc_user_read_frame E L s = Some (STATUS_SUCCESS, frames_read E s (events s) ((Is, f) # Gs), s') \<and>
    rx_state fifo s' (frames_of Hs @ D) C' \<and> user_rx_change s s' \<and> events s' = rev es @ events s \<and> list_all quiet es"
proof (cases "rx_multiple s = 0")
  case True
  from read_frames_result [of fifo s "[(Is, f)]" "frames_of Fs @ D" C L E] state cut fits True show ?thesis
    by (intro exI [of _ "[]"] exI [of _ Fs]) simp
next
  case False
  from frames_that_fit [OF cut, of D "unat L"] assms(3) False fits obtain Gs Hs where g:
    "(Is, f) # Fs = Gs @ Hs" "rooms s Gs \<le> unat L" "reading_ends s (unat L - rooms s Gs) (frames_of Hs @ D)" "Gs \<noteq> []"
    by auto
  then obtain Gs' where Gs: "Gs = (Is, f) # Gs'" by (cases Gs) auto
  have "rx_state fifo s (frames_of Gs @ frames_of Hs @ D) C" using state unfolding g(1) by simp
  from read_frames_result [OF this g(4), of L E] g cut Gs False show ?thesis
    by (intro exI [of _ Gs'] exI [of _ Hs]) auto
qed

text \<open>Property C11. The user reads the frames at the front of the queue: one, or with
  \<open>rx_multiple\<close> every one that still fits. Let \<open>Fs\<close> be whole frames at the front of the
  queue, as the FIFO side or the DMA engine cuts them (full descriptors, and one that ends the frame and
  holds at least one of its bytes), none shorter than the two status bytes if these are taken off,
  that together fit into the user's buffer; without \<open>rx_multiple\<close> just one, with it up to the
  point where no whole frame follows or the next one does not fit. Then the read succeeds with
  exactly their bytes in order, of each frame less the two status bytes unless they are wanted,
  and then its time if that is wanted. The descriptors of these frames are free again, the rest of
  the queue is untouched, and nothing else of the port changes.\<close>

theorem read_frame_delivers:
  assumes "rx_ring_ok fifo s" "rx_queue s = frames_of Fs @ D" "Fs \<noteq> []" "well_cut s Fs"
    and "rooms s Fs \<le> unat L"
    and "if rx_multiple s = 0 then length Fs = 1 else reading_ends s (unat L - rooms s Fs) D"
  shows "\<exists>s'. fscc_user_read_frame E L s = Some (STATUS_SUCCESS, frames_read E s (events s) Fs, s') \<and>
    rx_ring_ok fifo s' \<and> rx_queue s' = D \<and> user_rx_change s s' \<and> list_all quiet (new_events s s')"
proof -
  have "rx_state fifo s (frames_of Fs @ D) (rx_free s)" using rx_ring_ok_state [OF assms(1)] assms(2) by simp
  from read_frames_result [OF this assms(3-6), of E] obtain s' C' es where r:
    "fscc_user_read_frame E L s = Some (STATUS_SUCCESS, frames_read E s (events s) Fs, s')"
    "rx_state fifo s' D C'" "user_rx_change s s'" "events s' = rev es @ events s" "list_all quiet es" by blast
  with rx_state_queue [OF r(2)] new_events_eq [OF r(4)] show ?thesis by (intro exI [of _ s']) simp
qed

text \<open>Property C34. A frame is never delivered in part. When the queue holds whole frames,
  none shorter than the two status bytes if these are taken off, and perhaps the beginning of
  another, a read fails exactly when there is no whole frame or the user's buffer is shorter than the bytes it
  would get of the first one: those of the frame, less the two status bytes unless they are wanted, and eight
  for the time if that is wanted. It then reports \<open>STATUS_BUFFER_TOO_SMALL\<close>, copies
  nothing, and leaves the port as it is. Otherwise it delivers the first frame, alone or followed by other whole
  frames, and stays within the buffer.\<close>

theorem read_frame_refuses:
  assumes "rx_ring_ok fifo s" "rx_queue s = frames_of Fs @ D" "well_cut s Fs" "list_all (\<lambda>f. \<not> rx_final f) D"
  shows "if Fs = [] \<or> unat L < length (take (held (snd (hd Fs)) - (if append_status s \<noteq> 0 then 0 else 2))
        (frame_bytes (fst (hd Fs)) (snd (hd Fs)))) + (if append_timestamp s \<noteq> 0 then 8 else 0)
    then fscc_user_read_frame E L s = Some (STATUS_BUFFER_TOO_SMALL, [], s)
    else \<exists>Gs Hs s'. Fs = Gs @ Hs \<and> Gs \<noteq> [] \<and>
      fscc_user_read_frame E L s = Some (STATUS_SUCCESS, frames_read E s (events s) Gs, s') \<and>
      length (frames_read E s (events s) Gs) \<le> unat L"
proof (cases Fs)
  case Nil
  with no_frame_scan [OF assms(4), of 0] assms(2)
  have "case frame_scan (rx_queue s) 0 of (ready, n) \<Rightarrow> \<not> ready \<or> buffer_requirement s n > L"
    by (cases "frame_scan D 0") simp
  with Nil show ?thesis using read_frame_refused [OF rx_ring_ok_state [OF assms(1)]] by simp
next
  case (Cons F Fs')
  obtain Is f where F: "F = (Is, f)" by (cases F)
  have state: "rx_state fifo s (frames_of ((Is, f) # Fs') @ D) (rx_free s)"
    using rx_ring_ok_state [OF assms(1)] assms(2) Cons F by simp
  have cut: "rx_frame Is f" "status_fits s f" "well_cut s ((Is, f) # Fs')" using assms(3) Cons F by simp_all
  have st: "rx_state fifo s (Is @ f # frames_of Fs' @ D) (rx_free s)" using state by simp
  have room: "length (take (held f - (if append_status s \<noteq> 0 then 0 else 2)) (frame_bytes Is f)) +
      (if append_timestamp s \<noteq> 0 then 8 else 0) = user_room s f"
    using length_frame_bytes [of fifo s "[]"] st cut(1) by (simp add: user_room_def user_length_def)
  show ?thesis
  proof (cases "unat L < user_room s f")
    case True
    then have "buffer_requirement s (frame_control f AND DMA_MAX_LENGTH) > L"
      by (simp add: word_less_nat_alt unat_requirement(2) [OF cut(2)])
    moreover have "fscc_user_next_read_size s = Some (True, frame_control f AND DMA_MAX_LENGTH)"
      using cut(1) by (intro frame_scan_whole [OF st]) (simp_all add: rx_frame_def)
    ultimately show ?thesis using True Cons F room by (simp add: fscc_user_read_frame_def)
  next
    case False
    from read_frames_fitting [OF state cut(3), of L E] assms(4) False obtain Gs Hs s' C' where r:
      "Fs' = Gs @ Hs" "rooms s ((Is, f) # Gs) \<le> unat L" "fscc_user_read_frame E L s =
        Some (STATUS_SUCCESS, frames_read E s (events s) ((Is, f) # Gs), s')" by auto
    have "rx_state fifo s (frames_of ((Is, f) # Gs) @ frames_of Hs @ D) (rx_free s)" using state r(1) by simp
    moreover have "well_cut s ((Is, f) # Gs)" using cut(3) r(1) by simp
    ultimately have "length (frames_read E s (events s) ((Is, f) # Gs)) = rooms s ((Is, f) # Gs)"
      by (intro length_frames_read [of fifo s "[]" _ "frames_of Hs @ D"]) simp_all
    with r(2) have "length (frames_read E s (events s) ((Is, f) # Gs)) \<le> unat L" by simp
    with r(1,3) have "\<exists>Gs Hs s'. Fs = Gs @ Hs \<and> Gs \<noteq> [] \<and>
      fscc_user_read_frame E L s = Some (STATUS_SUCCESS, frames_read E s (events s) Gs, s') \<and>
      length (frames_read E s (events s) Gs) \<le> unat L" using Cons F
      by (intro exI [of _ "(Is, f) # Gs"] exI [of _ Hs] exI [of _ s']) simp
    with False Cons F room show ?thesis by simp
  qed
qed

text \<open>Property C12. A stream is read in order and without loss: the user gets the first bytes
  waiting, as many as the buffer takes, and exactly the others are waiting afterwards.\<close>

theorem read_stream_takes_prefix:
  assumes "rx_ring_ok fifo s"
  shows "\<exists>s'. fscc_user_read_stream L s =
      Some (STATUS_SUCCESS, take (unat L) (waiting_bytes (rx_queue s)), s') \<and> rx_ring_ok fifo s' \<and>
    waiting_bytes (rx_queue s') = drop (unat L) (waiting_bytes (rx_queue s)) \<and>
    user_rx_change s s' \<and> events s' = events s"
proof -
  from read_stream_result [OF rx_ring_ok_state [OF assms]] obtain s' D C where r:
    "fscc_user_read_stream L s = Some (STATUS_SUCCESS, take (unat L) (waiting_bytes (rx_queue s)), s')"
    "rx_state fifo s' D C" "waiting_bytes D = drop (unat L) (waiting_bytes (rx_queue s))"
    "user_rx_change s s'" "events s' = events s" by blast
  with rx_state_queue [OF r(2)] show ?thesis by (intro exI [of _ s']) simp
qed

lemma read_frame_front:
  assumes "rx_ring_ok fifo s" "rx_queue s = Is @ f # D" "rx_frame Is f" "status_fits s f"
    and "user_room s f \<le> unat L" "rx_multiple s = 0"
  shows "\<exists>s'. fscc_user_read_frame E L s = Some (STATUS_SUCCESS,
      take (user_length s f) (frame_bytes Is f) @ time_bytes E (events s) f (append_timestamp s \<noteq> 0), s') \<and>
    rx_ring_ok fifo s'"
proof -
  obtain C where "rx_state fifo s (Is @ f # D) C" by (rule rx_ring_stateE [OF assms(1,2)])
  from read_frame_result [OF this assms(3-6), of E] show ?thesis using rx_state_queue(3) by blast
qed

text \<open>Property C5. End to end: a frame the FIFO holds completely, received into an empty ring
  with room for it and then read by the user, arrives as the bytes the FIFO delivered, in order
  and without loss, less the status bytes unless they are wanted, and followed by the time stamp if
  that is wanted. The frame is longer than the status bytes it loses and shorter than 2^29 bytes,
  the user's buffer holds its size and eight bytes more, and a read returns one frame (rx_multiple
  is off).\<close>

theorem receive_end_to_end:
  assumes "rx_ring_ok True s" "rx_queue s = []" "rx_frame_size s = 0" "rx_bytes_in_frame s = 0"
    and "(if append_status s \<noteq> 0 then 0 else 2) < unat (next_size E s)" "unat (next_size E s) < 2 ^ 29"
    and "list_all (\<lambda>f. held f = 0) (rx_free s)"
    and "unat (next_size E s) \<le> sum_list (map (\<lambda>f. unat (data_size f)) (rx_free s))"
    and "unat (next_size E s) + 8 \<le> unat L" "rx_multiple s = 0"
  shows "\<exists>s' s'' ts. fscc_fifo_read_data E s = Some (STATUS_SUCCESS, s') \<and>
    fscc_user_read_frame E L s' = Some (STATUS_SUCCESS,
      take (unat (next_size E s) - (if append_status s \<noteq> 0 then 0 else 2))
        (concat (map u32_bytes (fifo_reads (port_card s) (new_events s s')))) @
      (if append_timestamp s \<noteq> 0 then timestamp_bytes ts else []), s'') \<and> rx_ring_ok True s''"
proof -
  have "0 < unat (next_size E s)" using assms(5) by (cases "append_status s = 0") simp_all
  from fifo_read_receives [OF assms(1,3,4) this assms(6-8)] assms(2) obtain s' Is f D where r:
    "fscc_fifo_read_data E s = Some (STATUS_SUCCESS, s')" "rx_ring_ok True s'" "rx_queue s' = Is @ f # D"
    "rx_frame Is f" "held f = unat (next_size E s)"
    "frame_bytes Is f = take (unat (next_size E s))
      (concat (map u32_bytes (fifo_reads (port_card s) (new_events s s'))))"
    "fifo_rx_change s s'" by auto
  note keep = fifo_rx_change_sel [OF r(7)]
  have fits: "status_fits s' f" using assms(5) by (auto simp: status_fits_def r(5) keep)
  have "user_room s' f \<le> unat L" using assms(9) by (auto simp: user_room_def user_length_def r(5) keep)
  from read_frame_front [OF r(2-4) fits this, of E] assms(10) obtain s'' where u:
    "fscc_user_read_frame E L s' = Some (STATUS_SUCCESS, take (user_length s' f) (frame_bytes Is f) @
        time_bytes E (events s') f (append_timestamp s' \<noteq> 0), s'')" "rx_ring_ok True s''"
    unfolding keep by blast
  then show ?thesis using r(1)
    by (intro exI [of _ s'] exI [of _ s''] exI [of _ "frame_time E (events s') f"])
      (simp add: user_length_def r(5,6) keep min_def time_bytes_def)
qed

section \<open>The read request\<close>

text \<open>What the read routine needs of the queue: the port streams, or no whole frame is waiting, or the
  frames it may read are cut well: the first one, or with \<open>rx_multiple\<close> all whole ones.\<close>

definition readable :: "driver \<Rightarrow> bool" where
  "readable s \<longleftrightarrow> fscc_io_is_streaming s \<noteq> 0 \<or> \<not> fst (frame_scan (rx_queue s) 0) \<or>
     (\<exists>F Fs D. rx_queue s = frames_of (F # Fs) @ D \<and> well_cut s (F # Fs) \<and>
       (rx_multiple s = 0 \<or> list_all (\<lambda>f. \<not> rx_final f) D))"

lemma streaming_emits: "fscc_io_is_streaming (emits es s) = fscc_io_is_streaming s"
  by (simp add: fscc_io_is_streaming_def)

lemma emits_ring:
  "rx_ring_ok fifo (emits es s) = rx_ring_ok fifo s" "rx_queue (emits es s) = rx_queue s"
  by (simp_all add: rx_ring_ok_def rx_queue_def rx_free_def rx_view_def)

lemma readable_emits [simp]: "readable (emits es s) = readable s"
proof -
  have "user_rx_change s (emits es s)" by (simp add: user_rx_change_def emits_def)
  then show ?thesis by (simp add: readable_def emits_ring streaming_emits user_rx_change_user)
qed

lemma read_frame_outcome:
  assumes "rx_ring_ok fifo s" "readable s" "fscc_io_is_streaming s = 0"
  shows "\<exists>st out s' es. fscc_user_read_frame E L s = Some (st, out, s') \<and> rx_ring_ok fifo s' \<and>
    events s' = rev es @ events s \<and> list_all quiet es \<and> user_rx_change s s'"
proof (cases "case frame_scan (rx_queue s) 0 of (ready, n) \<Rightarrow> \<not> ready \<or> buffer_requirement s n > L")
  case True
  from read_frame_refused [OF rx_ring_ok_state [OF assms(1)] this, of E] assms(1) show ?thesis
    by (intro exI [of _ STATUS_BUFFER_TOO_SMALL] exI [of _ "[]"] exI [of _ s] exI [of _ "[]"]) simp
next
  case False
  then have "fst (frame_scan (rx_queue s) 0)" by (auto split: prod.splits)
  with assms(2,3) obtain Is f Fs D where q: "rx_queue s = frames_of ((Is, f) # Fs) @ D" "well_cut s ((Is, f) # Fs)"
      "rx_multiple s = 0 \<or> list_all (\<lambda>f. \<not> rx_final f) D"
    by (auto simp: readable_def)
  have state: "rx_state fifo s (frames_of ((Is, f) # Fs) @ D) (rx_free s)"
    using rx_ring_ok_state [OF assms(1)] q(1) by simp
  have cut: "rx_frame Is f" "status_fits s f" using q(2) by simp_all
  have "fscc_user_next_read_size s = Some (True, frame_control f AND DMA_MAX_LENGTH)"
    using cut(1) state by (intro frame_scan_whole [of fifo s Is f "frames_of Fs @ D"]) (simp_all add: rx_frame_def)
  then have "frame_scan (rx_queue s) 0 = (True, frame_control f AND DMA_MAX_LENGTH)"
    using next_read_size_eq [OF rx_ring_ok_state [OF assms(1)]] by simp
  with False have "user_room s f \<le> unat L" using unat_requirement(2) [OF cut(2)] by (simp add: word_less_nat_alt)
  from read_frames_fitting [OF state q(2,3) this, of E] show ?thesis using rx_state_queue(3) by blast
qed

lemma read_outcome:
  assumes "rx_ring_ok fifo s" "readable s"
  shows "\<exists>st out s' es. (if fscc_io_is_streaming s \<noteq> 0 then fscc_user_read_stream L s
      else fscc_user_read_frame E L s) = Some (st, out, s') \<and> rx_ring_ok fifo s' \<and>
    events s' = rev es @ events s \<and> list_all quiet es \<and> user_rx_change s s'"
proof (cases "fscc_io_is_streaming s = 0")
  case True
  with read_frame_outcome [OF assms True, of E L] show ?thesis by simp
next
  case False
  from read_stream_result [OF rx_ring_ok_state [OF assms(1)], of L] obtain s' D C where r:
    "fscc_user_read_stream L s = Some (STATUS_SUCCESS, take (unat L) (waiting_bytes (rx_queue s)), s')"
    "rx_state fifo s' D C" "user_rx_change s s'" "events s' = events s" by blast
  then show ?thesis using False rx_state_queue(3) [OF r(2)]
    by (intro exI [of _ STATUS_SUCCESS] exI [of _ "take (unat L) (waiting_bytes (rx_queue s))"]
        exI [of _ s'] exI [of _ "[]"]) simp
qed

text \<open>The requests a history takes out of a queue, and the ones it completes.\<close>

definition taken :: "event list \<Rightarrow> request list" where
  "taken es = concat (map (\<lambda>e. case e of
     Queue_retrieve q st r \<Rightarrow> if NT_SUCCESS st then [r] else [] | _ \<Rightarrow> []) es)"

definition completed :: "event list \<Rightarrow> request list" where
  "completed es = concat (map (\<lambda>e. case e of Request_complete r st n \<Rightarrow> [r] | _ \<Rightarrow> []) es)"

lemma taken_simps [simp]:
  "taken [] = []" "taken (es @ es') = taken es @ taken es'"
  "taken (Queue_retrieve q st r # es) = (if NT_SUCCESS st then [r] else []) @ taken es"
  "taken (Request_complete r st n # es) = taken es" "taken (Request_output r bs # es) = taken es"
  by (simp_all add: taken_def)

lemma completed_simps [simp]:
  "completed [] = []" "completed (es @ es') = completed es @ completed es'"
  "completed (Queue_retrieve q st r # es) = completed es"
  "completed (Request_complete r st n # es) = r # completed es"
  "completed (Request_output r bs # es) = completed es"
  by (simp_all add: completed_def)

lemma taken_quiet: "list_all quiet es \<Longrightarrow> taken es = [] \<and> completed es = []"
  by (induction es) (auto simp: taken_def completed_def split: event.splits)

text \<open>Property C26. On a readable port, the read routine takes at most one request, and completes
  exactly the requests it takes, each once, on every path, whatever the queue and the buffers of the
  requests answer; it takes one only when data is waiting, and it makes no invalid access. A port is
  readable when it is streaming, when no whole frame waits, or when the frames the read is to deliver
  (the first one or, with rx_multiple, all whole ones) are cut into descriptors as the driver cuts a
  frame of known size. On a port that is not readable the code can make an invalid access: the lemmas
  phantom_frame_overreads and short_frame_overruns are two such cases.\<close>

theorem process_read_answered_once:
  assumes "rx_ring_ok fifo s" "readable s"
  shows "case FsccProcessRead E s of
      None \<Rightarrow> False
    | Some s' \<Rightarrow> rx_ring_ok fifo s' \<and> user_rx_change s s' \<and>
        completed (new_events s s') = taken (new_events s s') \<and> length (taken (new_events s s')) \<le> 1 \<and>
        (snd (frame_scan (rx_queue s) 0) = 0 \<longrightarrow> s' = s)"
proof -
  have scan: "fscc_user_next_read_size s = Some (frame_scan (rx_queue s) 0)"
    by (rule next_read_size_eq [OF rx_ring_ok_state [OF assms(1)]])
  obtain ready n where rn: "frame_scan (rx_queue s) 0 = (ready, n)" by fastforce
  show ?thesis
  proof (cases "n = 0 \<or> (fscc_io_is_streaming s = 0 \<and> \<not> ready)")
    case True
    then have "FsccProcessRead E s = Some s"
      by (auto simp: FsccProcessRead_def scan rn Let_def)
    with assms(1) new_events_eq [of s "[]" s] show ?thesis by simp
  next
    case False
    obtain st req where rq: "retrieve_next E (events s) read_queue2 = (st, req)" by fastforce
    let ?e = "Queue_retrieve read_queue2 st req"
    let ?s1 = "emits [?e] s"
    let ?len = "of_nat (request_length E req) :: u32"
    have same: "readable ?s1 = readable s" "rx_ring_ok fifo ?s1 = rx_ring_ok fifo s"
      by (simp_all add: emits_ring)
    obtain st2 out s2 es where r: "(if fscc_io_is_streaming s \<noteq> 0 then fscc_user_read_stream ?len ?s1
        else fscc_user_read_frame E ?len ?s1) = Some (st2, out, s2)" "rx_ring_ok fifo s2"
      "events s2 = rev es @ events ?s1" "list_all quiet es" "user_rx_change ?s1 s2"
      using read_outcome [of fifo ?s1 ?len E] assms same by (simp only: streaming_emits) blast
    have change: "user_rx_change s (emits es' s2)" "user_rx_change s (emits es' s)" for es'
      by (rule user_rx_change_trans [of _ ?s1], simp add: user_rx_change_def emits_def,
          rule user_rx_change_trans [OF r(5)]) (simp_all add: user_rx_change_def emits_def)
    have hist: "new_events s (emits es' s2) = ?e # es @ es'" for es'
      by (rule new_events_eq) (simp add: r(3))
    note q = taken_quiet [OF r(4)]
    have run: "FsccProcessRead E s =
      (if \<not> NT_SUCCESS st then Some ?s1
       else if \<not> NT_SUCCESS (output_buffer E req (unat ?len))
       then Some (emits [?e, Request_complete req (output_buffer E req (unat ?len)) 0] s)
       else if \<not> NT_SUCCESS st2 then Some (emits [Request_complete req st2 0] s2)
       else Some (emits [Request_output req out, Request_complete req st2 (length out)] s2))"
      using False r(1)
      by (cases "fscc_io_is_streaming s = 0"; cases "NT_SUCCESS st") (simp_all add: FsccProcessRead_def scan rn Let_def rq emit_emits emits_emits complete_read_def)
    show ?thesis
      using assms(1) r(2) q change hist rn False
      by (simp add: run emits_ring split del: if_split) (simp add: emits_ring)
  qed
qed

section \<open>On concrete ports\<close>

text \<open>A ring whose first descriptor is full and whose second one ends a frame of ten bytes,
  and a card that holds a frame of ten bytes and then nothing.\<close>

definition received_port :: driver where
  "received_port = example_port [example_frame 0x100 0x40000000 8, example_frame 0x200 0xC000000A 8] []"

definition frame_env :: env where
  "frame_env = example_env\<lparr>hw_read := (\<lambda>h sp a.
     if a = 0x1010 then (if h = [] then 1 else 0)
     else if a = 0x1004 then 10
     else if a = 0x1000 then 0x04030201 + of_nat (length h) else 0)\<rparr>"

lemmas rx_ring_defs = rx_ring_ok_def ring_at_def rx_free_def rx_view_def view_from_def rx_queue_def
  frame_ok_def rx_count_ok_def rx_done_def rx_free_ok_def rx_open_def held_def

lemma free_port_rx: "rx_ring_ok fifo free_port" "rx_queue free_port = []"
  "rx_free free_port = [example_frame 0x100 0 8, example_frame 0x200 DESC_HI_BIT 8]"
  by (simp_all add: rx_ring_defs example_defs ring_view_def)

lemma received_port_rx: "rx_ring_ok fifo received_port"
  "rx_queue received_port = [example_frame 0x100 0x40000000 8] @ example_frame 0x200 0xC000000A 8 # []"
  by (simp_all add: rx_ring_defs received_port_def example_defs ring_view_def)

lemma next_size_frame_env: "next_size frame_env free_port = 10"
  by (simp add: next_size_def frame_env_def example_defs hw_reg_def Let_def rfcnt_of_def
      fscc_card_get_BAR_def card_space_def rd_def)

lemma fifo_read_keeps_ring_witness:
  "\<exists>s' D. fscc_fifo_read_data example_env received_port = Some (STATUS_SUCCESS, s') \<and> rx_ring_ok True s' \<and>
    rx_queue s' = rx_queue received_port @ D \<and> fifo_rx_change received_port s' \<and>
    list_all quiet (new_events received_port s')"
  by (rule fifo_read_keeps_ring) (rule received_port_rx)

lemma fifo_read_receives_frame_witness:
  "\<exists>s' Is L D. fscc_fifo_read_data frame_env free_port = Some (STATUS_SUCCESS, s') \<and> rx_ring_ok True s' \<and>
    rx_queue s' = rx_queue free_port @ Is @ L # D \<and> rx_frame Is L \<and>
    held L = unat (next_size frame_env free_port) \<and>
    frame_bytes Is L = take (unat (next_size frame_env free_port))
      (concat (map u32_bytes (fifo_reads (port_card free_port) (new_events free_port s')))) \<and>
    fifo_rx_change free_port s' \<and> list_all quiet (new_events free_port s')"
  by (rule fifo_read_receives_frame)
    (simp_all add: free_port_rx next_size_frame_env, simp_all add: example_defs held_def)

text \<open>Two frames, of ten and of four bytes, with several frames to a read: both fit into 14
  bytes.\<close>

definition two_frames :: "(dma_frame list \<times> dma_frame) list" where
  "two_frames = [([example_frame 0x100 0x40000000 8], example_frame 0x200 0xC000000A 8), ([], example_frame 0x300 0xC0000004 8)]"

definition two_frames_port :: driver where
  "two_frames_port = (example_port [example_frame 0x100 0x40000000 8, example_frame 0x200 0xC000000A 8,
     example_frame 0x300 0xC0000004 8] [])\<lparr>rx_multiple := 1\<rparr>"

lemma two_frames_port_rx: "rx_ring_ok fifo two_frames_port" "rx_queue two_frames_port = frames_of two_frames @ []"
  by (simp_all add: rx_ring_defs two_frames_port_def two_frames_def example_defs ring_view_def)

lemma two_frames_cut: "well_cut two_frames_port two_frames" "rooms two_frames_port two_frames = 14"
  by (simp_all add: two_frames_def rx_frame_def rx_final_def held_def counted_def status_fits_def user_room_def
      user_length_def two_frames_port_def example_defs)

lemma read_frame_delivers_witness:
  "\<exists>s'. fscc_user_read_frame example_env 14 two_frames_port = Some (STATUS_SUCCESS,
      frames_read example_env two_frames_port (events two_frames_port) two_frames, s') \<and>
    rx_ring_ok True s' \<and> rx_queue s' = [] \<and> user_rx_change two_frames_port s' \<and>
    list_all quiet (new_events two_frames_port s')"
  by (rule read_frame_delivers [OF two_frames_port_rx _ two_frames_cut(1)])
    (simp_all add: two_frames_cut(2) reading_ends_def, simp_all add: two_frames_def two_frames_port_def)

lemma read_frame_refuses_witness:
  "if two_frames = [] \<or> unat (7 :: u32) < length (take (held (snd (hd two_frames)) - (if append_status two_frames_port \<noteq> 0 then 0 else 2))
        (frame_bytes (fst (hd two_frames)) (snd (hd two_frames)))) + (if append_timestamp two_frames_port \<noteq> 0 then 8 else 0)
    then fscc_user_read_frame example_env 7 two_frames_port = Some (STATUS_BUFFER_TOO_SMALL, [], two_frames_port)
    else \<exists>Gs Hs s'. two_frames = Gs @ Hs \<and> Gs \<noteq> [] \<and>
      fscc_user_read_frame example_env 7 two_frames_port = Some (STATUS_SUCCESS,
        frames_read example_env two_frames_port (events two_frames_port) Gs, s') \<and>
      length (frames_read example_env two_frames_port (events two_frames_port) Gs) \<le> unat (7 :: u32)"
  by (rule read_frame_refuses [OF two_frames_port_rx two_frames_cut(1)]) simp

lemma read_stream_takes_prefix_witness:
  "\<exists>s'. fscc_user_read_stream 5 received_port =
      Some (STATUS_SUCCESS, take (unat (5 :: u32)) (waiting_bytes (rx_queue received_port)), s') \<and> rx_ring_ok True s' \<and>
    waiting_bytes (rx_queue s') = drop (unat (5 :: u32)) (waiting_bytes (rx_queue received_port)) \<and>
    user_rx_change received_port s' \<and> events s' = events received_port"
  by (rule read_stream_takes_prefix [OF received_port_rx(1)])

lemma receive_end_to_end_witness:
  "\<exists>s' s'' ts. fscc_fifo_read_data frame_env free_port = Some (STATUS_SUCCESS, s') \<and>
    fscc_user_read_frame frame_env 100 s' = Some (STATUS_SUCCESS,
      take (unat (next_size frame_env free_port) - (if append_status free_port \<noteq> 0 then 0 else 2))
        (concat (map u32_bytes (fifo_reads (port_card free_port) (new_events free_port s')))) @
      (if append_timestamp free_port \<noteq> 0 then timestamp_bytes ts else []), s'') \<and> rx_ring_ok True s''"
  by (rule receive_end_to_end)
    (simp_all add: free_port_rx next_size_frame_env, simp_all add: example_defs held_def)

lemma process_read_answered_once_witness:
  "case FsccProcessRead example_env received_port of
      None \<Rightarrow> False
    | Some s' \<Rightarrow> rx_ring_ok True s' \<and> user_rx_change received_port s' \<and>
        completed (new_events received_port s') = taken (new_events received_port s') \<and>
        length (taken (new_events received_port s')) \<le> 1 \<and>
        (snd (frame_scan (rx_queue received_port) 0) = 0 \<longrightarrow> s' = received_port)"
proof (rule process_read_answered_once [OF received_port_rx(1)])
  have "rx_queue received_port = frames_of (([example_frame 0x100 0x40000000 8], example_frame 0x200 0xC000000A 8) # []) @ []"
    using received_port_rx(2) by simp
  moreover have "well_cut received_port (([example_frame 0x100 0x40000000 8], example_frame 0x200 0xC000000A 8) # [])"
    by (simp add: rx_frame_def rx_final_def held_def counted_def status_fits_def received_port_def example_defs)
  moreover have "rx_multiple received_port = 0" by (simp add: received_port_def example_defs)
  ultimately show "readable received_port" unfolding readable_def by blast
qed

end
