(* ===== verification/Fscc_Memory.thy ===== *)
theory Fscc_Memory
  imports Fscc_Transmit Fscc_Receive
begin

text \<open>
  The life of the descriptor rings (\<open>io.c\<close>): what the constructors build is a well-formed
  empty ring whose descriptors are linked in a circle, a purge brings a receive ring back to
  that state, and what was allocated for a ring, and nothing else, is freed with it.
\<close>

section \<open>Construction and purge\<close>

lemma fresh_rx_frame:
  "fresh_frame bytes c f \<Longrightarrow> rx_open f \<and> held f = 0"
  by (auto simp: fresh_frame_def rx_open_def held_def bit_tests)

lemma empty_rx_ring:
  assumes "rx_descriptors s = Some fs" "unat (rx_num (memory s)) = length fs" "fs \<noteq> []"
    "list_all frame_ok fs" "list_all (\<lambda>f. rx_open f \<and> held f = 0) fs" "user_rx_desc s = 0" "fifo_rx_desc s = 0"
  shows "rx_ring_ok fifo s" "rx_queue s = []" "rx_free s = fs"
proof -
  have "rx_free_ok fs"
    using assms(3-5) by (cases fs) (auto simp: rx_free_ok_def frame_ok_def list_all_iff)
  then have "rx_state fifo s [] fs"
    using assms by (auto simp: rx_state_def rx_view_def view_from_def ring_at_def)
  then show "rx_ring_ok fifo s" "rx_queue s = []" "rx_free s = fs" by (simp_all add: rx_state_queue)
qed

lemma reset_rx_frame_simps:
  "frame_ok (reset_rx_frame f) = frame_ok f" "rx_open (reset_rx_frame f)" "held (reset_rx_frame f) = 0"
  by (simp_all add: reset_rx_frame_def frame_ok_def rx_open_def held_def bit_tests)

text \<open>Without DMA, the events of a purge: reception is disabled in \<open>CCR0\<close>, the reset command is
  sent if the clock check passes, the read queues are purged, and \<open>CCR0\<close> is restored.\<close>

definition purge_rx_run :: "driver \<Rightarrow> bool \<Rightarrow> u32 list \<Rightarrow> event list" where
  "purge_rx_run s late vs =
     (let c = port_card s; ccr0 = ucast (register_storage s ! reg_CCR0) :: u32
      in wr c 0 CCR0_OFFSET (ccr0 OR 0x02000000) # map (rd c 0 STAR_OFFSET) vs @
         (if late then [] else [wr c 0 CMDR_OFFSET 0x00020000]) @
         [Queue_purge read_queue, Queue_purge read_queue2, Queue_start read_queue, Queue_start read_queue2,
          wr c 0 CCR0_OFFSET ccr0])"

lemma purge_rx_events:
  assumes "rx_descriptors s = Some fs" "unat (rx_num (memory s)) = length fs" "fscc_port_uses_dma s = 0"
    and purge: "fscc_io_purge_rx E s = Some (st, s')"
  shows "\<exists>late vs. (if ignore_timeout s = 0 then clock_check late 20 vs else vs = [] \<and> \<not> late) \<and>
    events s' = rev (purge_rx_run s late vs) @ events s"
proof -
  let ?c = "port_card s" and ?ccr0 = "ucast (register_storage s ! reg_CCR0) :: u32"
  let ?w = "wr ?c 0 CCR0_OFFSET (?ccr0 OR 0x02000000)"
  let ?s0 = "store_register 0 CCR0_OFFSET (?ccr0 OR 0x02000000) (emits [?w] s)"
  have set0: "fscc_port_set_register E 0 CCR0_OFFSET (?ccr0 OR 0x02000000) s = (STATUS_SUCCESS, ?s0)"
    by (simp add: set_register_plain)
  have s0: "port_card ?s0 = ?c" "ignore_timeout ?s0 = ignore_timeout s" "fscc_port_uses_dma ?s0 = 0"
    "events ?s0 = ?w # events s" "rx_descriptors ?s0 = Some fs" "unat (rx_num (memory ?s0)) = length fs"
    using assms(1-3) by (simp_all add: store_register_def fscc_port_uses_dma_def split: if_splits)
  obtain st1 s1 where cmd: "fscc_port_set_register E 0 CMDR_OFFSET 0x00020000 ?s0 = (st1, s1)" by fastforce
  from set_register_command [OF this] obtain vs where vs:
    "if ignore_timeout s = 0 then clock_check (st1 = STATUS_IO_TIMEOUT) 20 vs else vs = [] \<and> st1 \<noteq> STATUS_IO_TIMEOUT"
    "s1 = (if st1 = STATUS_IO_TIMEOUT then emits (map (rd ?c 0 STAR_OFFSET) vs) ?s0
       else store_register 0 CMDR_OFFSET 0x00020000 (emits (map (rd ?c 0 STAR_OFFSET) vs
         @ [wr ?c 0 CMDR_OFFSET 0x00020000]) ?s0))"
    unfolding s0 port_offset_simps by blast
  have step: "io_step ?s0 s1" by (rule set_register_io_step [OF cmd])
  have mode: "fscc_port_uses_dma s1 = fscc_port_uses_dma ?s0"
    by (simp only: fscc_port_uses_dma_def io_stepD [OF step])
  have s1: "port_card s1 = ?c" "fscc_port_uses_dma s1 = 0" "rx_descriptors s1 = Some fs"
    "unat (rx_num (memory s1)) = length fs"
    "events s1 = rev (?w # map (rd ?c 0 STAR_OFFSET) vs @
      (if st1 = STATUS_IO_TIMEOUT then [] else [wr ?c 0 CMDR_OFFSET 0x00020000])) @ events s"
    using s0 mode by (simp_all add: io_stepD [OF step]) (simp add: vs(2) store_register_def)
  have dma: "fscc_dma_command E v t = (STATUS_SUCCESS, t)" if "fscc_port_uses_dma t = 0" for v t
    using that by (simp add: fscc_dma_command_def)
  let ?s2 = "s1\<lparr>rx_descriptors := Some (map reset_rx_frame fs), user_rx_desc := 0, fifo_rx_desc := 0,
    rx_bytes_in_frame := 0, rx_frame_size := 0\<rparr>"
  have "fscc_io_reset_rx E ?s0 = Some (st1, ?s2)"
    using s1(3,4) map_frames_all [of "rx_descriptors s1" fs "unat (rx_num (memory s1))" reset_rx_frame]
    by (simp add: fscc_io_reset_rx_def fscc_io_execute_RRES_def cmd dma s0 s1 Let_def
        fscc_dma_execute_STOP_R_def fscc_dma_execute_RST_R_def)
  moreover have "fscc_port_uses_dma ?s2 = 0" using s1(2) by (simp add: fscc_port_uses_dma_def split: if_splits)
  ultimately have "s' = snd (fscc_port_set_register E 0 CCR0_OFFSET ?ccr0 (emits [Queue_purge read_queue,
      Queue_purge read_queue2, Queue_start read_queue, Queue_start read_queue2] ?s2))"
    using purge by (simp add: fscc_io_purge_rx_def set0 Let_def)
  then have "events s' = rev (purge_rx_run s (st1 = STATUS_IO_TIMEOUT) vs) @ events s"
    using s1(1,5) by (simp add: set_register_plain store_register_def purge_rx_run_def Let_def)
  with vs(1) show ?thesis by (intro exI [of _ "st1 = STATUS_IO_TIMEOUT"] exI [of _ vs]) (simp split: if_splits)
qed

text \<open>Property C32. Purging the receive side drops everything that was received: whatever state
  the descriptors and cursors were in, the purge accesses no invalid memory and leaves a
  well-formed ring with an empty queue and every descriptor open and empty; the transmit side
  is untouched. Without DMA the card sees exactly this: reception disabled, the reset command
  if the clock check passes, and \<open>CCR0\<close> restored, and the read requests that wait are cancelled.
  The status is always a success, also when the check fails and the card is
  not reset; \<open>docs/purge.md\<close> documents \<open>ERROR_SEM_TIMEOUT\<close> for that case, which the code never
  reports.\<close>

theorem purge_rx_empties:
  assumes "rx_descriptors s = Some fs" "unat (rx_num (memory s)) = length fs" "fs \<noteq> []"
    and "list_all frame_ok fs"
  shows "case fscc_io_purge_rx E s of
      None \<Rightarrow> False
    | Some (st, s') \<Rightarrow> st = STATUS_SUCCESS \<and> rx_ring_ok True s' \<and> rx_queue s' = [] \<and>
        rx_free s' = map reset_rx_frame fs \<and> tx_descriptors s' = tx_descriptors s \<and>
        (fscc_port_uses_dma s = 0 \<longrightarrow>
          (\<exists>late vs. (if ignore_timeout s = 0 then clock_check late 20 vs else vs = [] \<and> \<not> late) \<and>
             new_events s s' = purge_rx_run s late vs))"
proof -
  from purge_rx_result [OF assms(1-3)] obtain s1 s' where run: "io_step s s1"
    "fscc_io_purge_rx E s = Some (STATUS_SUCCESS, s')"
    "io_step (s1\<lparr>rx_descriptors := Some (map reset_rx_frame fs), user_rx_desc := 0,
      fifo_rx_desc := 0, rx_bytes_in_frame := 0, rx_frame_size := 0\<rparr>) s'" by blast
  have num: "unat (rx_num (memory s1)) = length fs" using assms(2) by (simp add: io_stepD [OF run(1)])
  have ring: "rx_ring_ok True s'" "rx_queue s' = []" "rx_free s' = map reset_rx_frame fs"
    using num assms(3,4) empty_rx_ring [of s' "map reset_rx_frame fs"]
    by (simp_all add: io_stepD [OF run(3)] list_all_iff reset_rx_frame_simps)
  have "\<exists>late vs. (if ignore_timeout s = 0 then clock_check late 20 vs else vs = [] \<and> \<not> late) \<and>
      new_events s s' = purge_rx_run s late vs" if "fscc_port_uses_dma s = 0"
    using purge_rx_events [OF assms(1,2) that run(2)] new_events_eq by metis
  with ring run(2) show ?thesis by (simp add: io_stepD [OF run(3)] io_stepD [OF run(1)])
qed

lemma purge_rx_empties_witness:
  "case fscc_io_purge_rx example_env received_port of
      None \<Rightarrow> False
    | Some (st, s') \<Rightarrow> st = STATUS_SUCCESS \<and> rx_ring_ok True s' \<and> rx_queue s' = [] \<and>
        rx_free s' = map reset_rx_frame
          [example_frame 0x100 0x40000000 8, example_frame 0x200 0xC000000A 8] \<and>
        tx_descriptors s' = tx_descriptors received_port \<and>
        (fscc_port_uses_dma received_port = 0 \<longrightarrow>
          (\<exists>late vs. (if ignore_timeout received_port = 0 then clock_check late 20 vs else vs = [] \<and> \<not> late) \<and>
             new_events received_port s' = purge_rx_run received_port late vs))"
  by (rule purge_rx_empties) (simp_all add: received_port_def example_defs frame_ok_def)

lemma create_frames_emits:
  "create_frames E count bytes i n s = (fs, s') \<Longrightarrow> \<exists>es. s' = emits es s"
proof (induction n arbitrary: i s fs s')
  case 0
  then show ?case by (auto intro: exI [of _ "[]"])
next
  case (Suc n)
  obtain r s1 where one: "fscc_io_create_frame E bytes s = (r, s1)" by fastforce
  from create_frame_emits [OF this] obtain es1 where es1: "s1 = emits es1 s" by blast
  obtain fs' s2 where rec: "create_frames E count bytes (i + 1) n s1 = (fs', s2)" by fastforce
  from Suc.IH [OF this] Suc.prems one es1 rec show ?case
    by (cases r) (auto simp: emits_emits Let_def)
qed

lemma create_rx_cursors:
  assumes "fscc_io_create_rx E number bytes s = (st, s')"
  shows "user_rx_desc s' = user_rx_desc s" "fifo_rx_desc s' = fifo_rx_desc s"
  using assms
  by (auto simp: fscc_io_create_rx_def pool_alloc_def emit_emits Let_def split: if_splits prod.splits
      dest!: create_frames_emits)

text \<open>A receive ring that could be allocated is linked in a circle and, unless not even the first frame
  could be created, well formed, with an empty queue and every descriptor of the asked size,
  rounded up to whole words. A ring that could not be allocated has no frames. The framework gives
  buffers of the length asked for (\<open>buffers_as_asked\<close>).\<close>

lemma create_rx_ring:
  assumes "buffers_as_asked E" "0 < unat bytes" "unat bytes + 3 < 2 ^ 29"
    and "user_rx_desc s = 0" "fifo_rx_desc s = 0" "fscc_io_create_rx E number bytes s = (st, s')"
  shows "(st = STATUS_UNSUCCESSFUL \<and> rx_descriptors s' = None \<and> rx_num (memory s') = 0) \<or>
    (st = STATUS_SUCCESS \<and> (\<exists>fs. rx_descriptors s' = Some fs \<and> linked fs \<and>
       unat (rx_num (memory s')) = length fs \<and> length fs \<le> max 2 (unat number) \<and>
       (fs = [] \<or> (rx_ring_ok True s' \<and> rx_queue s' = [] \<and> rx_free s' = fs)) \<and>
       list_all (\<lambda>f. data_size f = round_size bytes \<and> unat bytes \<le> unat (data_size f)) fs))"
proof -
  from round_size_mult4 [of bytes] assms(2,3) have size: "unat (round_size bytes) mod 4 = 0"
    "unat bytes \<le> unat (round_size bytes)" "0 < unat (round_size bytes)" "unat (round_size bytes) < 2 ^ 29"
    by simp_all
  have cur: "user_rx_desc s' = 0" "fifo_rx_desc s' = 0"
    using create_rx_cursors [OF assms(6)] assms(4,5) by simp_all
  from create_rx_result [OF assms(1,6)] consider
      "st = STATUS_UNSUCCESSFUL" "rx_descriptors s' = None" "rx_num (memory s') = 0"
    | fs where "st = STATUS_SUCCESS" "rx_descriptors s' = Some fs" "unat (rx_num (memory s')) = length fs"
      "length fs \<le> max 2 (unat number)" "linked fs"
      "list_all (fresh_frame (round_size bytes) (round_size bytes)) fs" by auto
  then show ?thesis
  proof cases
    case 2
    then have "list_all frame_ok fs" "list_all (\<lambda>f. rx_open f \<and> held f = 0) fs"
      "list_all (\<lambda>f. data_size f = round_size bytes \<and> unat bytes \<le> unat (data_size f)) fs"
      using fresh_frame_ok size fresh_rx_frame by (auto simp: list_all_iff fresh_frame_def)
    with 2 empty_rx_ring [OF 2(2,3) _ this(1,2) cur] show ?thesis by blast
  qed simp
qed

lemma empty_tx_ring:
  assumes "tx_descriptors s = Some fs" "unat (tx_num (memory s)) = length fs" "fs \<noteq> []"
    "list_all frame_ok fs" "list_all (\<lambda>f. \<not> tx_filled f) fs" "user_tx_desc s = 0" "fifo_tx_desc s = 0"
  shows "tx_ring_ok fifo s" "tx_queue s = []" "tx_free s = fs"
proof -
  have "tx_state fifo s [] fs"
    using assms by (auto simp: tx_state_def tx_view_def view_from_def ring_at_def list_all_iff)
  then show "tx_ring_ok fifo s" "tx_queue s = []" "tx_free s = fs" by (simp_all add: tx_state_queue)
qed

lemma purge_tx_empty:
  assumes "tx_descriptors s = Some fs" "unat (tx_num (memory s)) = length fs" "fs \<noteq> []"
    and "list_all frame_ok fs"
  shows "\<exists>s'. fscc_io_purge_tx E s = Some (STATUS_SUCCESS, s') \<and> tx_ring_ok True s' \<and> tx_queue s' = [] \<and>
    tx_free s' = map reset_tx_frame fs"
proof -
  from purge_tx_result [OF assms(1-3)] obtain s1 s' where run: "io_step s s1"
    "fscc_io_purge_tx E s = Some (STATUS_SUCCESS, s')"
    "io_step (s1\<lparr>tx_descriptors := Some (map reset_tx_frame fs), user_tx_desc := 0,
      fifo_tx_desc := 0, tx_bytes_in_frame := 0, tx_frame_size := 0\<rparr>) s'" by blast
  have num: "unat (tx_num (memory s1)) = length fs" using assms(2) by (simp add: io_stepD [OF run(1)])
  have "tx_ring_ok True s'" "tx_queue s' = []" "tx_free s' = map reset_tx_frame fs"
    using num assms(3,4) empty_tx_ring [of s' "map reset_tx_frame fs"]
    by (simp_all add: io_stepD [OF run(3)] list_all_iff reset_tx_frame_simps)
  with run(2) show ?thesis by blast
qed

lemma fresh_frames_ok:
  assumes "list_all (fresh_frame (round_size bytes) c) fs" "0 < unat bytes" "unat bytes + 3 < 2 ^ 29"
  shows "list_all frame_ok fs"
    "list_all (\<lambda>f. data_size f = round_size bytes \<and> unat bytes \<le> unat (data_size f)) fs"
  using assms round_size_mult4 [of bytes] fresh_frame_ok
  by (auto simp: list_all_iff fresh_frame_def)

text \<open>A transmit ring that could be allocated is linked in a circle, every
  descriptor of the asked size rounded up to whole words; the purge that follows its creation
  makes it a well-formed ring with an empty queue and every descriptor free, unless not even
  the first frame could be created. A ring that could not be allocated has no frames.\<close>

lemma create_tx_then_purge:
  assumes "buffers_as_asked E" "0 < unat bytes" "unat bytes + 3 < 2 ^ 29"
  shows "case fscc_io_create_tx E number bytes s of (st, s1) \<Rightarrow>
    (st = STATUS_UNSUCCESSFUL \<and> tx_descriptors s1 = None \<and> tx_num (memory s1) = 0) \<or>
    (st = STATUS_SUCCESS \<and> (\<exists>fs. tx_descriptors s1 = Some fs \<and> linked fs \<and>
       unat (tx_num (memory s1)) = length fs \<and> length fs \<le> max 2 (unat number) \<and>
       list_all (\<lambda>f. data_size f = round_size bytes \<and> unat bytes \<le> unat (data_size f)) fs \<and>
       (fs = [] \<or> (\<exists>s2. fscc_io_purge_tx E s1 = Some (STATUS_SUCCESS, s2) \<and> tx_ring_ok True s2 \<and>
          tx_queue s2 = [] \<and> tx_free s2 = map reset_tx_frame fs))))"
proof -
  obtain st s1 where run: "fscc_io_create_tx E number bytes s = (st, s1)" by fastforce
  from create_tx_result [OF assms(1) this] consider
      "st = STATUS_UNSUCCESSFUL" "tx_descriptors s1 = None" "tx_num (memory s1) = 0"
    | fs where "st = STATUS_SUCCESS" "tx_descriptors s1 = Some fs" "unat (tx_num (memory s1)) = length fs"
      "length fs \<le> max 2 (unat number)" "linked fs"
      "list_all (fresh_frame (round_size bytes) 0) fs" by auto
  then show ?thesis
  proof cases
    case (2 fs)
    from 2 purge_tx_empty [OF 2(2,3) _ fresh_frames_ok(1) [OF 2(6) assms(2,3)], of E]
      fresh_frames_ok(2) [OF 2(6) assms(2,3)] show ?thesis by (auto simp: run)
  qed (simp add: run)
qed

section \<open>What is allocated is freed\<close>

text \<open>\<open>s'\<close> has \<open>p\<close> pool blocks and \<open>b\<close> common buffers more than \<open>s\<close>.\<close>

definition grows :: "driver \<Rightarrow> int \<Rightarrow> int \<Rightarrow> driver \<Rightarrow> bool" where
  "grows s p b s' \<longleftrightarrow> pool_live (events s') = pool_live (events s) + p \<and>
     buffers_live (events s') = buffers_live (events s) + b"

lemma grows_trans: "grows s p b t \<Longrightarrow> grows t q c u \<Longrightarrow> grows s (p + q) (b + c) u"
  by (simp add: grows_def)

lemma grows_io_step: "io_step s t \<Longrightarrow> grows s 0 0 t"
  by (auto simp: grows_def dest!: io_step_events live_quiet)

lemma create_frame_grows:
  "fscc_io_create_frame E bytes s = (r, s') \<Longrightarrow>
   grows s (case r of None \<Rightarrow> 0 | Some f \<Rightarrow> 1) (case r of None \<Rightarrow> 0 | Some f \<Rightarrow> 2) s'"
  by (auto simp: fscc_io_create_frame_def pool_alloc_def wdf_common_buffer_create_def Let_def
      emit_def grows_def split: if_splits prod.splits)

lemma create_frames_grows:
  "create_frames E count bytes i n s = (fs, s') \<Longrightarrow> grows s (int (length fs)) (2 * int (length fs)) s'"
proof (induction n arbitrary: i s fs s')
  case 0
  then show ?case by (simp add: grows_def)
next
  case (Suc n)
  obtain r s1 where one: "fscc_io_create_frame E bytes s = (r, s1)" by fastforce
  obtain fs' s2 where rec: "create_frames E count bytes (i + 1) n s1 = (fs', s2)" by fastforce
  from Suc.IH [OF rec] create_frame_grows [OF one] Suc.prems one rec show ?case
    by (cases r) (auto simp: Let_def grows_def)
qed

lemma destroy_frames_grows:
  "grows s (- int (length fs)) (- 2 * int (length fs)) (fold (\<lambda>_. fscc_io_destroy_frame) fs s)"
  by (induction fs arbitrary: s) (simp_all add: fscc_io_destroy_frame_def emit_def grows_def)

lemma destroy_frames_same [simp]:
  "rx_descriptors (fold (\<lambda>_. fscc_io_destroy_frame) fs s) = rx_descriptors s"
  "tx_descriptors (fold (\<lambda>_. fscc_io_destroy_frame) fs s) = tx_descriptors s"
  "memory (fold (\<lambda>_. fscc_io_destroy_frame) fs s) = memory s"
  "port_card (fold (\<lambda>_. fscc_io_destroy_frame) fs s) = port_card s"
  by (induction fs arbitrary: s) (simp_all add: fscc_io_destroy_frame_def emit_def)

lemma create_rx_grows:
  assumes "fscc_io_create_rx E number bytes s = (STATUS_SUCCESS, s')" "rx_descriptors s' = Some fs"
  shows "grows s (1 + int (length fs)) (2 * int (length fs)) s'"
  using assms
  by (auto simp: fscc_io_create_rx_def pool_alloc_def Let_def grows_def emit_def
      split: if_splits prod.splits dest!: create_frames_grows)

lemma create_tx_grows:
  assumes "fscc_io_create_tx E number bytes s = (STATUS_SUCCESS, s')" "tx_descriptors s' = Some fs"
  shows "grows s (1 + int (length fs)) (2 * int (length fs)) s'"
  using assms
  by (auto simp: fscc_io_create_tx_def pool_alloc_def Let_def grows_def emit_def
      split: if_splits prod.splits dest!: create_frames_grows)

lemma create_frames_length:
  "create_frames E count bytes i n s = (fs, s') \<Longrightarrow> length fs \<le> n"
  by (induction n arbitrary: i s fs s') (auto simp: Let_def split: option.splits prod.splits)

lemma create_rx_shape:
  assumes "fscc_io_create_rx E number bytes s = (st, s1)"
  shows "(rx_descriptors s1 = None \<and> grows s 0 0 s1) \<or>
    (\<exists>fs. rx_descriptors s1 = Some fs \<and> unat (rx_num (memory s1)) = length fs \<and>
       grows s (1 + int (length fs)) (2 * int (length fs)) s1)"
proof -
  let ?n = "if number < 2 then 2 else number"
  obtain ok t where a: "pool_alloc E (SIZEOF_POINTER * unat ?n) s = (ok, t)" by fastforce
  show ?thesis
  proof (cases ok)
    case False
    with assms a show ?thesis
      by (auto simp: fscc_io_create_rx_def Let_def pool_alloc_def grows_def emit_def)
  next
    case True
    obtain frames s2 where f: "create_frames E data_size (round_size bytes) 0 (unat ?n) t = (frames, s2)"
      by fastforce
    with assms a True have res: "st = STATUS_SUCCESS" "rx_descriptors s1 = Some (fscc_io_link_desc frames)"
      "rx_num (memory s1) = of_nat (length frames)" by (auto simp: fscc_io_create_rx_def Let_def)
    have "unat (of_nat (length frames) :: u32) = length frames"
      by (rule frames_counted [OF create_frames_length [OF f]])
    with res create_rx_grows [OF assms [unfolded res(1)] res(2)] show ?thesis by simp
  qed
qed

lemma create_tx_shape:
  assumes "fscc_io_create_tx E number bytes s = (st, s1)"
  shows "(tx_descriptors s1 = None \<and> grows s 0 0 s1) \<or>
    (\<exists>fs. tx_descriptors s1 = Some fs \<and> unat (tx_num (memory s1)) = length fs \<and>
       grows s (1 + int (length fs)) (2 * int (length fs)) s1)"
proof -
  let ?n = "if number < 2 then 2 else number"
  obtain ok t where a: "pool_alloc E (SIZEOF_POINTER * unat ?n) s = (ok, t)" by fastforce
  show ?thesis
  proof (cases ok)
    case False
    with assms a show ?thesis
      by (auto simp: fscc_io_create_tx_def Let_def pool_alloc_def grows_def emit_def)
  next
    case True
    obtain frames s2 where f: "create_frames E (\<lambda>_. 0) (round_size bytes) 0 (unat ?n) t = (frames, s2)"
      by fastforce
    with assms a True have res: "st = STATUS_SUCCESS" "tx_descriptors s1 = Some (fscc_io_link_desc frames)"
      "tx_num (memory s1) = of_nat (length frames)" by (auto simp: fscc_io_create_tx_def Let_def)
    have "unat (of_nat (length frames) :: u32) = length frames"
      by (rule frames_counted [OF create_frames_length [OF f]])
    with res create_tx_grows [OF assms [unfolded res(1)] res(2)] show ?thesis by simp
  qed
qed

text \<open>Up to the frames, destroying a ring only accesses registers.\<close>

lemma destroy_rx_result:
  assumes "rx_descriptors s = None \<or> rx_descriptors s = Some fs \<and> unat (rx_num (memory s)) = length fs"
  shows "\<exists>s'. fscc_io_destroy_rx E s = Some s' \<and> rx_descriptors s' = None \<and>
    tx_descriptors s' = tx_descriptors s \<and> memory s' = memory s \<and> port_card s' = port_card s \<and>
    grows s (if rx_descriptors s = None then 0 else - 1 - int (length fs))
      (if rx_descriptors s = None then 0 else - 2 * int (length fs)) s'"
proof -
  let ?s2 = "snd (fscc_dma_execute_RST_R E (snd (fscc_dma_execute_STOP_R E s)))"
  define s3 where "s3 = (if fscc_port_uses_dma ?s2 \<noteq> 0
    then snd (fscc_port_set_register E 2 DMA_RX_BASE_OFFSET 0 ?s2) else ?s2)"
  have step2: "io_step s ?s2" using io_step_trans [OF dma_execute_io_step(1,5)] .
  have step: "io_step s s3" using step2 io_step_trans [OF step2 set_register_snd_io_step] by (simp add: s3_def)
  then have g3: "grows s 0 0 s3" by (rule grows_io_step)
  have run: "fscc_io_destroy_rx E s = (if rx_descriptors s3 = None then Some s3
         else do {
           frames \<leftarrow> frames_in (rx_descriptors s3) (unat (rx_num (memory s3)));
           Some ((emit Pool_free (fold (\<lambda>_. fscc_io_destroy_frame) frames s3))
             \<lparr>rx_descriptors := None\<rparr>) })"
    unfolding fscc_io_destroy_rx_def Let_def s3_def ..
  show ?thesis
  proof (cases "rx_descriptors s = None")
    case True
    with g3 run io_stepD [OF step] show ?thesis by simp
  next
    case False
    then have "rx_descriptors s = Some fs \<and> unat (rx_num (memory s)) = length fs" using assms by argo
    moreover from this have "fscc_io_destroy_rx E s =
        Some ((emit Pool_free (fold (\<lambda>_. fscc_io_destroy_frame) fs s3))\<lparr>rx_descriptors := None\<rparr>)"
      by (simp add: run frames_in_def io_stepD [OF step])
    moreover have "grows s (- 1 - int (length fs)) (- 2 * int (length fs))
        ((emit Pool_free (fold (\<lambda>_. fscc_io_destroy_frame) fs s3))\<lparr>rx_descriptors := None\<rparr>)"
      using grows_trans [OF g3 destroy_frames_grows [of s3 fs]] by (simp add: grows_def emit_def)
    ultimately show ?thesis by (simp add: emit_def io_stepD [OF step])
  qed
qed

lemma destroy_tx_result:
  assumes "tx_descriptors s = None \<or> tx_descriptors s = Some fs \<and> unat (tx_num (memory s)) = length fs"
  shows "\<exists>s'. fscc_io_destroy_tx E s = Some s' \<and> tx_descriptors s' = None \<and>
    rx_descriptors s' = rx_descriptors s \<and> memory s' = memory s \<and> port_card s' = port_card s \<and>
    grows s (if tx_descriptors s = None then 0 else - 1 - int (length fs))
      (if tx_descriptors s = None then 0 else - 2 * int (length fs)) s'"
proof -
  let ?s2 = "snd (fscc_dma_execute_RST_T E (snd (fscc_dma_execute_STOP_T E s)))"
  define s3 where "s3 = (if fscc_port_uses_dma ?s2 \<noteq> 0
    then snd (fscc_port_set_register E 2 DMA_TX_BASE_OFFSET 0 ?s2) else ?s2)"
  have step2: "io_step s ?s2" using io_step_trans [OF dma_execute_io_step(2,6)] .
  have step: "io_step s s3" using step2 io_step_trans [OF step2 set_register_snd_io_step] by (simp add: s3_def)
  then have g3: "grows s 0 0 s3" by (rule grows_io_step)
  have run: "fscc_io_destroy_tx E s = (if tx_descriptors s3 = None then Some s3
         else do {
           frames \<leftarrow> frames_in (tx_descriptors s3) (unat (tx_num (memory s3)));
           Some ((emit Pool_free (fold (\<lambda>_. fscc_io_destroy_frame) frames s3))
             \<lparr>tx_descriptors := None\<rparr>) })"
    unfolding fscc_io_destroy_tx_def Let_def s3_def ..
  show ?thesis
  proof (cases "tx_descriptors s = None")
    case True
    with g3 run io_stepD [OF step] show ?thesis by simp
  next
    case False
    then have "tx_descriptors s = Some fs \<and> unat (tx_num (memory s)) = length fs" using assms by argo
    moreover from this have "fscc_io_destroy_tx E s =
        Some ((emit Pool_free (fold (\<lambda>_. fscc_io_destroy_frame) fs s3))\<lparr>tx_descriptors := None\<rparr>)"
      by (simp add: run frames_in_def io_stepD [OF step])
    moreover have "grows s (- 1 - int (length fs)) (- 2 * int (length fs))
        ((emit Pool_free (fold (\<lambda>_. fscc_io_destroy_frame) fs s3))\<lparr>tx_descriptors := None\<rparr>)"
      using grows_trans [OF g3 destroy_frames_grows [of s3 fs]] by (simp add: grows_def emit_def)
    ultimately show ?thesis by (simp add: emit_def io_stepD [OF step])
  qed
qed

section \<open>Keeping the rings\<close>

text \<open>What every handler of a running port owes the others: the card, the number and size of the
  frames and the choice between FIFO and DMA stay, a well-formed ring stays well-formed, and a
  FIFO cursor in step stays in step.\<close>

definition same_engine :: "driver \<Rightarrow> driver \<Rightarrow> bool" where
  "same_engine s s' \<longleftrightarrow> force_fifo s' = force_fifo s \<and> has_dma s' = has_dma s"

lemma same_engine_uses_dma: "same_engine s s' \<Longrightarrow> fscc_port_uses_dma s' = fscc_port_uses_dma s"
  by (simp add: same_engine_def fscc_port_uses_dma_def)

definition rings_kept :: "driver \<Rightarrow> driver \<Rightarrow> bool" where
  "rings_kept s s' \<longleftrightarrow> port_card s' = port_card s \<and> memory s' = memory s \<and> same_engine s s' \<and>
     (\<forall>fifo. (rx_ring_ok fifo s \<longrightarrow> rx_ring_ok fifo s') \<and> (tx_ring_ok fifo s \<longrightarrow> tx_ring_ok fifo s'))"

lemma rings_kept_refl [simp]: "rings_kept s s"
  by (simp add: rings_kept_def same_engine_def)

lemma rings_kept_trans [trans]: "rings_kept s t \<Longrightarrow> rings_kept t u \<Longrightarrow> rings_kept s u"
  by (simp add: rings_kept_def same_engine_def)

lemma rx_ring_same:
  "rx_descriptors t = rx_descriptors s \<Longrightarrow> memory t = memory s \<Longrightarrow> user_rx_desc t = user_rx_desc s \<Longrightarrow>
   fifo_rx_desc t = fifo_rx_desc s \<Longrightarrow> rx_ring_ok fifo t = rx_ring_ok fifo s"
  by (simp add: rx_ring_ok_def rx_queue_def rx_free_def rx_view_def)

lemma tx_ring_same:
  "tx_descriptors t = tx_descriptors s \<Longrightarrow> memory t = memory s \<Longrightarrow> user_tx_desc t = user_tx_desc s \<Longrightarrow>
   fifo_tx_desc t = fifo_tx_desc s \<Longrightarrow> tx_ring_ok fifo t = tx_ring_ok fifo s"
  by (simp add: tx_ring_ok_def tx_queue_def tx_free_def tx_view_def)

lemma rings_kept_same:
  assumes "rx_descriptors t = rx_descriptors s" "memory t = memory s" "user_rx_desc t = user_rx_desc s"
    "fifo_rx_desc t = fifo_rx_desc s" "tx_descriptors t = tx_descriptors s" "user_tx_desc t = user_tx_desc s"
    "fifo_tx_desc t = fifo_tx_desc s" "port_card t = port_card s"
    "force_fifo t = force_fifo s" "has_dma t = has_dma s"
  shows "rings_kept s t"
  using rx_ring_same [OF assms(1-4)] tx_ring_same [OF assms(5,2,6,7)] assms(2,8-)
  by (simp add: rings_kept_def same_engine_def)

lemma rings_kept_emits [simp]: "rings_kept s (emits es s)" "rings_kept s (emit e s)"
  by (simp_all add: rings_kept_same)

lemma rings_kept_io_step: "io_step s t \<Longrightarrow> rings_kept s t"
  by (rule rings_kept_same) (simp_all add: io_stepD)

text \<open>Being in step is more than being well formed; a routine that keeps a ring as good as it is
  keeps it in either sense.\<close>

lemma ring_in_step: "rx_ring_ok True s \<Longrightarrow> rx_ring_ok fifo s" "tx_ring_ok True s \<Longrightarrow> tx_ring_ok fifo s"
  by (simp_all add: rx_ring_ok_def tx_ring_ok_def)

lemma ring_as_good:
  "rx_ring_ok fifo s \<Longrightarrow> rx_ring_ok (rx_ring_ok True s) s"
  "tx_ring_ok fifo s \<Longrightarrow> tx_ring_ok (tx_ring_ok True s) s"
  by (auto simp: rx_ring_ok_def tx_ring_ok_def)

lemma kept_as_good:
  "rx_ring_ok (rx_ring_ok True s) t \<Longrightarrow> rx_ring_ok fifo s \<Longrightarrow> rx_ring_ok fifo t"
  "tx_ring_ok (tx_ring_ok True s) t \<Longrightarrow> tx_ring_ok fifo s \<Longrightarrow> tx_ring_ok fifo t"
  by (auto simp: rx_ring_ok_def tx_ring_ok_def)

lemma rings_kept_tx_step:
  assumes "tx_step s t" "tx_ring_ok (tx_ring_ok True s) t"
  shows "rings_kept s t"
proof -
  have "rx_ring_ok fifo t = rx_ring_ok fifo s" for fifo by (rule rx_ring_same) (simp_all add: tx_stepD [OF assms(1)])
  moreover have "memory t = memory s" "port_card t = port_card s" "same_engine s t"
    by (simp_all add: tx_stepD [OF assms(1)] same_engine_def)
  ultimately show ?thesis using kept_as_good(2) [OF assms(2)] unfolding rings_kept_def by metis
qed

lemma rings_kept_user_rx:
  assumes "user_rx_change s t" "rx_ring_ok (rx_ring_ok True s) t"
  shows "rings_kept s t"
proof -
  obtain d c e where t: "t = s\<lparr>rx_descriptors := d, user_rx_desc := c, events := e\<rparr>"
    using assms(1) unfolding user_rx_change_def by blast
  have "tx_ring_ok fifo t = tx_ring_ok fifo s" for fifo by (rule tx_ring_same) (simp_all add: t)
  moreover have "memory t = memory s" "port_card t = port_card s" "same_engine s t"
    by (simp_all add: t same_engine_def)
  ultimately show ?thesis using kept_as_good(1) [OF assms(2)] unfolding rings_kept_def by metis
qed

lemma rings_kept_fifo_rx:
  assumes "fifo_rx_change s t" "rx_ring_ok True t"
  shows "rings_kept s t"
proof -
  obtain d c b z e where t: "t = s\<lparr>rx_descriptors := d, fifo_rx_desc := c, rx_bytes_in_frame := b,
      rx_frame_size := z, events := e\<rparr>"
    using assms(1) unfolding fifo_rx_change_def by blast
  have "tx_ring_ok fifo t = tx_ring_ok fifo s" for fifo by (rule tx_ring_same) (simp_all add: t)
  moreover have "memory t = memory s" "port_card t = port_card s" "same_engine s t"
    by (simp_all add: t same_engine_def)
  ultimately show ?thesis using ring_in_step(1) [OF assms(2)] unfolding rings_kept_def by metis
qed

lemma ring_frames_ok:
  assumes "rx_descriptors s = Some fs" "rx_ring_ok fifo s"
  shows "list_all frame_ok fs"
  using assms by (simp add: rx_ring_ok_def rx_view_def view_from_def list_all_iff)

lemma tx_ring_frames_ok:
  assumes "tx_descriptors s = Some fs" "tx_ring_ok fifo s"
  shows "list_all frame_ok fs"
  using assms by (simp add: tx_ring_ok_def tx_view_def view_from_def list_all_iff)

lemma purge_rx_keeps:
  assumes "rx_descriptors s = Some fs" "unat (rx_num (memory s)) = length fs" "fs \<noteq> []"
  shows "\<exists>s' es. fscc_io_purge_rx E s = Some (STATUS_SUCCESS, s') \<and> rings_kept s s' \<and>
    events s' = rev es @ events s \<and> list_all quiet es"
proof -
  from purge_rx_result [OF assms] obtain s1 s' where run: "io_step s s1"
    "fscc_io_purge_rx E s = Some (STATUS_SUCCESS, s')"
    "io_step (s1\<lparr>rx_descriptors := Some (map reset_rx_frame fs), user_rx_desc := 0,
      fifo_rx_desc := 0, rx_bytes_in_frame := 0, rx_frame_size := 0\<rparr>) s'" by blast
  note sel = io_stepD [OF run(1)] io_stepD [OF run(3)]
  have "rx_ring_ok fifo s'" if "rx_ring_ok fifo s" for fifo
    using ring_frames_ok [OF assms(1) that] assms empty_rx_ring [of s' "map reset_rx_frame fs"]
    by (simp add: sel list_all_iff reset_rx_frame_simps)
  moreover have "tx_ring_ok fifo s' = tx_ring_ok fifo s" for fifo by (rule tx_ring_same) (simp_all add: sel)
  ultimately have "rings_kept s s'" by (simp add: rings_kept_def same_engine_def sel)
  moreover obtain es es' where "events s1 = rev es @ events s" "list_all quiet es"
    "events s' = rev es' @ events s1" "list_all quiet es'"
    using io_step_events [OF run(1)] io_step_events [OF run(3)] by auto
  ultimately show ?thesis using run(2)
    by (intro exI [of _ s'] exI [of _ "es @ es'"]) simp
qed

lemma purge_tx_keeps:
  assumes "tx_descriptors s = Some fs" "unat (tx_num (memory s)) = length fs" "fs \<noteq> []"
  shows "\<exists>s' es. fscc_io_purge_tx E s = Some (STATUS_SUCCESS, s') \<and> rings_kept s s' \<and>
    events s' = rev es @ events s \<and> list_all quiet es"
proof -
  from purge_tx_result [OF assms] obtain s1 s' where run: "io_step s s1"
    "fscc_io_purge_tx E s = Some (STATUS_SUCCESS, s')"
    "io_step (s1\<lparr>tx_descriptors := Some (map reset_tx_frame fs), user_tx_desc := 0,
      fifo_tx_desc := 0, tx_bytes_in_frame := 0, tx_frame_size := 0\<rparr>) s'" by blast
  note sel = io_stepD [OF run(1)] io_stepD [OF run(3)]
  have "tx_ring_ok fifo s'" if "tx_ring_ok fifo s" for fifo
    using tx_ring_frames_ok [OF assms(1) that] assms empty_tx_ring [of s' "map reset_tx_frame fs"]
    by (simp add: sel list_all_iff reset_tx_frame_simps)
  moreover have "rx_ring_ok fifo s' = rx_ring_ok fifo s" for fifo by (rule rx_ring_same) (simp_all add: sel)
  ultimately have "rings_kept s s'" by (simp add: rings_kept_def same_engine_def sel)
  moreover obtain es es' where "events s1 = rev es @ events s" "list_all quiet es"
    "events s' = rev es' @ events s1" "list_all quiet es'"
    using io_step_events [OF run(1)] io_step_events [OF run(3)] by auto
  ultimately show ?thesis using run(2)
    by (intro exI [of _ s'] exI [of _ "es @ es'"]) simp
qed

text \<open>A handler that answers its request once, on every path, and keeps the rings.\<close>

definition handled :: "request \<Rightarrow> driver \<Rightarrow> driver option \<Rightarrow> bool" where
  "handled req s r \<longleftrightarrow> (\<exists>s' es. r = Some s' \<and> events s' = rev es @ events s \<and> answers_once req es \<and> rings_kept s s')"

lemma handled_emits: "answers_once req es \<Longrightarrow> handled req s (Some (emits es s))"
  by (auto simp: handled_def)

lemma io_write_handled:
  assumes "tx_ring_ok fifo s" "inputs_as_asked E" "len < 2 ^ 29"
  shows "handled req s (FsccEvtIoWrite E req len s)"
proof -
  from io_write_result [OF tx_ring_ok_state [OF ring_as_good(2) [OF assms(1)]] assms(2,3), of req] obtain t es P' F' where r:
    "FsccEvtIoWrite E req len s = Some (emits es t)" "answers_once req es" "tx_step s t" "tx_state (tx_ring_ok True s) t P' F'" by blast
  obtain es0 where es0: "events t = rev es0 @ events s" "list_all quiet es0" by (rule tx_step_events [OF r(3)])
  have "rings_kept s (emits es t)"
    using rings_kept_trans [OF rings_kept_tx_step [OF r(3)] rings_kept_emits(1)] tx_state_queue [OF r(4)] by blast
  moreover have "answers_once req (es0 @ es)"
    using r(2) answers_quiet [OF es0(2)] only_about_quiet [OF es0(2)] live_quiet [OF es0(2)] by (simp add: answers_once_def)
  ultimately show ?thesis using r(1) es0(1) by (auto simp: handled_def intro!: exI [of _ "es0 @ es"])
qed

lemma io_read_handled: "handled req s (Some (FsccEvtIoRead E req len s))"
proof -
  let ?st = "forward_to_queue E (events s) req read_queue2"
  let ?es = "if len = 0 then [Request_complete req STATUS_SUCCESS 0]
    else [Request_forward req read_queue2 ?st,
      if NT_SUCCESS ?st then Dpc_enqueue process_read_dpc else Request_complete req ?st 0]"
  have "FsccEvtIoRead E req len s = emits ?es s" by (simp add: FsccEvtIoRead_def Let_def emit_emits emits_emits)
  moreover have "answers_once req ?es" by (simp add: answers_once_def)
  ultimately show ?thesis using handled_emits [of req ?es s] by presburger
qed

end
