(* ===== verification/Fscc_Reads.thy ===== *)
theory Fscc_Reads
  imports Fscc_Memory
begin

text \<open>
  What reading and stamping do to the receive ring in any of its well-formed states, also
  those in which a frame is not cut the way the FIFO side normally cuts it, or in which
  several frames are read at once: whenever they return, the ring is well-formed again.
\<close>

section \<open>Reading keeps the ring\<close>

definition planned_size :: "dma_frame \<Rightarrow> u32 \<Rightarrow> u32" where
  "planned_size f fl = (if rx_final f then (frame_control f AND DMA_MAX_LENGTH) - fl else frame_count f)"

lemma read_frame_step_gives:
  assumes state: "rx_state fifo s (f # D) C"
    and step: "read_frame_step E L bs tv fl out s = Some (bs', tv', fl', out', s')"
  shows "\<exists>es. s' = step_user_rx (given_back f) (emits es s) \<and> list_all quiet es"
    "bs' = (if planned_size f fl > bs then 0 else bs - planned_size f fl)"
    "fl' = fl + (if planned_size f fl > tv then tv else planned_size f fl)"
proof -
  have "frame_ok f" using state by (simp add: rx_state_def)
  note at = rx_state_give_back(1) [OF state given_back_simps [OF this]]
  let ?ts = "if timestamp_is_empty (timestamp f) then [Query_time (system_time E (events s))] else []"
  note step' = step [unfolded read_frame_step_def at Option.bind.simps Let_def rx_final_tests
      planned_size_def [symmetric] stamp_eq given_back_def [symmetric] split_conv]
  show "\<exists>es. s' = step_user_rx (given_back f) (emits es s) \<and> list_all quiet es"
    using step' by (auto simp: given_back_def bind_eq_Some_conv split: if_splits
        intro: exI [of _ "[]"] exI [of _ ?ts])
  show "bs' = (if planned_size f fl > bs then 0 else bs - planned_size f fl)"
    "fl' = fl + (if planned_size f fl > tv then tv else planned_size f fl)"
    using step' by (auto simp: bind_eq_Some_conv split: if_splits)
qed

text \<open>A frame is at the front of the queue, and what is left to read of it, with what was copied,
  is within its size.\<close>

definition frame_ahead :: "dma_frame list \<Rightarrow> u32 \<Rightarrow> u32 \<Rightarrow> bool" where
  "frame_ahead D bs fl \<longleftrightarrow> (\<exists>Is f R. D = Is @ f # R \<and> list_all (\<lambda>f. \<not> rx_final f) Is \<and> rx_final f \<and>
     unat bs + unat fl \<le> held f)"

lemma frame_scan_ready:
  assumes "list_all rx_done D" "frame_scan D b = (True, n)"
  shows "frame_ahead D n 0"
  using assms
proof (induction D arbitrary: b)
  case (Cons f D)
  have "\<not> rx_open f" using Cons.prems(1) by (simp add: rx_done_open)
  show ?case
  proof (cases "rx_final f")
    case True
    with Cons.prems \<open>\<not> rx_open f\<close> show ?thesis unfolding frame_ahead_def
      by (intro exI [of _ "[]"]) (simp add: held_def)
  next
    case False
    with Cons \<open>\<not> rx_open f\<close> have "frame_ahead D n 0" by simp
    then obtain Is g R where "D = Is @ g # R" "list_all (\<lambda>f. \<not> rx_final f) Is" "rx_final g" "unat n \<le> held g"
      by (auto simp: frame_ahead_def)
    with False show ?thesis unfolding frame_ahead_def by (intro exI [of _ "f # Is"]) simp
  qed
qed simp

lemma frame_ahead_next:
  assumes "frame_ahead (f # D) bs fl" "bs' = (if planned_size f fl > bs then 0 else bs - planned_size f fl)"
    "fl' = fl + (if planned_size f fl > tv then tv else planned_size f fl)" "bs' \<noteq> 0"
  shows "frame_ahead D bs' fl'"
proof -
  from assms(1) obtain Is g R where g: "f # D = Is @ g # R" "list_all (\<lambda>f. \<not> rx_final f) Is" "rx_final g"
    "unat bs + unat fl \<le> held g" by (auto simp: frame_ahead_def)
  have le: "\<not> planned_size f fl > bs" "bs' = bs - planned_size f fl" using assms(2,4) by (auto split: if_splits)
  then have lt: "unat (planned_size f fl) \<le> unat bs" by (simp add: word_le_nat_alt not_less)
  have bs': "unat bs' = unat bs - unat (planned_size f fl)"
    unfolding le(2) using lt by (simp add: unat_sub word_le_nat_alt)
  show ?thesis
  proof (cases Is)
    case Nil
    then have "planned_size f fl = (frame_control g AND DMA_MAX_LENGTH) - fl" using g by (simp add: planned_size_def)
    then have "unat (planned_size f fl) = held g - unat fl"
      using g(4) by (simp add: held_def unat_sub word_le_nat_alt)
    then have "unat bs' = 0" using bs' g(4) by simp
    with assms(4) show ?thesis by (simp add: word_unat_eq_iff)
  next
    case (Cons h Is2)
    define real where "real = (if planned_size f fl > tv then tv else planned_size f fl)"
    have "unat real \<le> unat (planned_size f fl)" by (auto simp: real_def word_less_nat_alt)
    moreover have "unat (fl + real) \<le> unat fl + unat real" by (simp add: unat_word_ariths)
    moreover have "fl' = fl + real" using assms(3) by (simp only: real_def)
    ultimately have "unat bs' + unat fl' \<le> held g" using bs' lt g(4) by simp
    with g Cons show ?thesis unfolding frame_ahead_def by (intro exI [of _ Is2] exI [of _ g] exI [of _ R]) auto
  qed
qed

text \<open>What a read that returned left behind.\<close>

definition read_left :: "bool \<Rightarrow> driver \<Rightarrow> driver \<Rightarrow> bool" where
  "read_left fifo s s' \<longleftrightarrow> rx_ring_ok fifo s' \<and> user_rx_change s s' \<and> (\<exists>es. events s' = rev es @ events s \<and> list_all quiet es)"

lemma read_left_step:
  assumes "rx_state fifo s (f # D) C" "s' = step_user_rx (given_back f) (emits es s)" "list_all quiet es"
  shows "rx_state fifo s' D (C @ [given_back f])" "read_left fifo s s'"
proof -
  show "rx_state fifo s' D (C @ [given_back f])" using given_back_step [OF assms(1), of es] by (simp add: assms(2))
  then have "rx_ring_ok fifo s'" by (rule rx_state_queue)
  moreover have "events s' = rev es @ events s" by (simp add: assms(2) step_user_rx_def)
  ultimately show "read_left fifo s s'" using assms(3) by (auto simp: read_left_def assms(2))
qed

lemma read_left_trans: "read_left fifo s t \<Longrightarrow> read_left fifo t u \<Longrightarrow> read_left fifo s u"
  by (auto simp: read_left_def intro: user_rx_change_trans) (metis append.assoc list_all_append rev_append)

lemma read_left_refl: "rx_state fifo s D C \<Longrightarrow> read_left fifo s s"
  by (auto simp: read_left_def rx_state_queue intro: exI [of _ "[]"])

lemma read_frame_loop_left:
  assumes "rx_state fifo s D C" "frame_ahead D bs fl" "read_frame_loop E L n bs tv fl out s = Some (out', s')"
  shows "read_left fifo s s'"
  using assms
proof (induction n arbitrary: s D C bs tv fl out)
  case 0
  then show ?case by (simp add: read_left_refl)
next
  case (Suc n)
  from Suc.prems(2) obtain f D2 where D: "D = f # D2" by (cases D) (auto simp: frame_ahead_def)
  note state = Suc.prems(1) [unfolded D]
  from Suc.prems(3) obtain bs1 tv1 fl1 out1 s1 where step:
    "read_frame_step E L bs tv fl out s = Some (bs1, tv1, fl1, out1, s1)"
    and rest: "(if bs1 \<noteq> 0 then read_frame_loop E L n bs1 tv1 fl1 out1 s1
        else if rx_multiple s1 = 0 then Some (out1, s1)
        else do { (frame_ready, b) \<leftarrow> fscc_user_next_read_size s1;
            if \<not> frame_ready then Some (out1, s1)
            else if buffer_requirement s1 b > L - of_nat (length out1) then Some (out1, s1)
            else read_frame_loop E L n b (valid_data s1 b) 0 out1 s1 }) = Some (out', s')"
    by (auto simp: bind_eq_Some_conv)
  note gives = read_frame_step_gives [OF state step]
  from gives(1) obtain es where s1: "s1 = step_user_rx (given_back f) (emits es s)" "list_all quiet es" by blast
  note left = read_left_step [OF state s1]
  have later: "read_left fifo s s'" if "frame_ahead D2 b fl'" "read_frame_loop E L n b tv' fl' out1 s1 = Some (out', s')"
    for b fl' tv' using read_left_trans [OF left(2) Suc.IH [OF left(1) that]] .
  show ?case
  proof (cases "bs1 = 0")
    case False
    with frame_ahead_next [OF Suc.prems(2) [unfolded D] gives(2,3)] rest show ?thesis by (intro later) auto
  next
    case True
    have scan: "fscc_user_next_read_size s1 = Some (frame_scan D2 0)" by (rule next_read_size_eq [OF left(1)])
    have finished: "list_all rx_done D2" using left(1) by (simp add: rx_state_def)
    obtain ready b where b: "frame_scan D2 0 = (ready, b)" by fastforce
    show ?thesis
    proof (cases "s' = s1")
      case same: True
      then show ?thesis using left(2) by simp
    next
      case diff: False
      with rest True scan b have "ready" "read_frame_loop E L n b (valid_data s1 b) 0 out1 s1 = Some (out', s')"
        by (auto split: if_splits)
      with frame_scan_ready [OF finished, of 0 b] b show ?thesis by (intro later) simp_all
    qed
  qed
qed

lemma read_left_any:
  assumes "rx_ring_ok fifo s" "(if streaming then fscc_user_read_stream L s else fscc_user_read_frame E L s) = Some (st, out, s')"
  shows "read_left fifo s s'"
proof -
  note state = rx_ring_ok_state [OF assms(1)]
  obtain ready b where b: "frame_scan (rx_queue s) 0 = (ready, b)" by fastforce
  have scan: "fscc_user_next_read_size s = Some (ready, b)" using next_read_size_eq [OF state] b by simp
  have queue: "list_all rx_done (rx_queue s)" using state by (simp add: rx_state_def)
  show ?thesis
  proof (cases streaming)
    case True
    with assms(2) read_stream_result [OF state, of L] rx_state_queue(3) show ?thesis
      by (auto simp: read_left_def intro: exI [of _ "[]"])
  next
    case False
    with assms(2) scan consider "s' = s"
      | out' where "ready" "read_frame_loop E L (unat (rx_num (memory s))) b (valid_data s b) 0 [] s = Some (out', s')"
      by (auto simp: fscc_user_read_frame_def bind_eq_Some_conv split: if_splits)
    then show ?thesis
    proof cases
      case 1
      with read_left_refl [OF state] show ?thesis by simp
    next
      case 2
      with b have "frame_ahead (rx_queue s) b 0" by (intro frame_scan_ready [OF queue]) simp
      from read_frame_loop_left [OF state this 2(2)] show ?thesis .
    qed
  qed
qed

section \<open>The read routine\<close>

text \<open>The routine's events: it may take a request out of the queue, and then completes it.\<close>

definition read_run :: "NTSTATUS \<Rightarrow> request \<Rightarrow> event list \<Rightarrow> bool" where
  "read_run st req es \<longleftrightarrow> (\<exists>inner fin. es = Queue_retrieve read_queue2 st req # inner @ fin \<and> list_all quiet inner \<and>
     (if NT_SUCCESS st then answers_once req fin else fin = []))"

lemma read_runI:
  "\<not> NT_SUCCESS st \<Longrightarrow> read_run st req [Queue_retrieve read_queue2 st req]"
  "NT_SUCCESS st \<Longrightarrow> list_all quiet inner \<Longrightarrow>
   read_run st req (Queue_retrieve read_queue2 st req # inner @ [Request_complete req st2 n])"
  "NT_SUCCESS st \<Longrightarrow> list_all quiet inner \<Longrightarrow>
   read_run st req (Queue_retrieve read_queue2 st req # inner @ [Request_output req bs, Request_complete req st2 n])"
proof -
  have one: "answers_once req [Request_complete req st2 n]"
    "answers_once req [Request_output req bs, Request_complete req st2 n]"
    by (simp_all add: answers_once_def answers_def)
  show "\<not> NT_SUCCESS st \<Longrightarrow> read_run st req [Queue_retrieve read_queue2 st req]"
    unfolding read_run_def by (intro exI [of _ "[]"]) simp
  show "NT_SUCCESS st \<Longrightarrow> list_all quiet inner \<Longrightarrow>
     read_run st req (Queue_retrieve read_queue2 st req # inner @ [Request_complete req st2 n])"
    unfolding read_run_def using one by (intro exI [of _ inner] exI) simp
  show "NT_SUCCESS st \<Longrightarrow> list_all quiet inner \<Longrightarrow>
     read_run st req (Queue_retrieve read_queue2 st req # inner @ [Request_output req bs, Request_complete req st2 n])"
    unfolding read_run_def using one by (intro exI [of _ inner] exI) simp
qed

lemma process_read_outcomes:
  assumes "rx_ring_ok fifo s" "FsccProcessRead E s = Some s'" "retrieve_next E (events s) read_queue2 = (st, req)"
  shows "let s1 = emits [Queue_retrieve read_queue2 st req] s; len = of_nat (request_length E req) :: u32 in
    s' = s \<or> \<not> NT_SUCCESS st \<and> s' = s1 \<or>
    (\<exists>bst. NT_SUCCESS st \<and> s' = emits [Request_complete req bst 0] s1) \<or>
    (\<exists>st2 out s2. NT_SUCCESS st \<and> (if fscc_io_is_streaming s \<noteq> 0 then fscc_user_read_stream len s1
          else fscc_user_read_frame E len s1) = Some (st2, out, s2) \<and>
        (s' = emits [Request_complete req st2 0] s2 \<or>
         s' = emits [Request_output req out, Request_complete req st2 (length out)] s2))"
proof -
  let ?s1 = "emits [Queue_retrieve read_queue2 st req] s"
  let ?len = "of_nat (request_length E req) :: u32"
  obtain ready n where scan: "fscc_user_next_read_size s = Some (ready, n)"
    using next_read_size_eq [OF rx_ring_ok_state [OF assms(1)]] by (metis prod.collapse)
  define r where "r = (if fscc_io_is_streaming s \<noteq> 0 then fscc_user_read_stream ?len ?s1
    else fscc_user_read_frame E ?len ?s1)"
  have "FsccProcessRead E s = (if n = 0 then Some s else if fscc_io_is_streaming s = 0 \<and> \<not> ready then Some s
      else if \<not> NT_SUCCESS st then Some ?s1
      else if \<not> NT_SUCCESS (output_buffer E req (unat ?len))
        then Some (emits [Request_complete req (output_buffer E req (unat ?len)) 0] ?s1)
      else do { (st2, out, s2) \<leftarrow> r;
        if \<not> NT_SUCCESS st2 then Some (emit (Request_complete req st2 0) s2)
        else Some (complete_read req st2 out s2) })"
    by (simp add: FsccProcessRead_def scan assms(3) Let_def emit_emits [of "Queue_retrieve q x r" for q x r]
        emit_emits [of _ "emits es s" for es] r_def)
  with assms(2) show ?thesis unfolding Let_def r_def [symmetric]
    by (cases r) (auto simp: emit_emits [of _ t for t] complete_read_def split: if_splits)
qed

lemma process_read_left:
  assumes "rx_ring_ok fifo s" "FsccProcessRead E s = Some s'" "retrieve_next E (events s) read_queue2 = (st, req)"
  shows "rings_kept s s'" "s' = s \<or> (\<exists>es. events s' = rev es @ events s \<and> read_run st req es)"
proof -
  let ?s1 = "emits [Queue_retrieve read_queue2 st req] s"
  let ?len = "of_nat (request_length E req) :: u32"
  have ok1: "rx_ring_ok (rx_ring_ok True ?s1) ?s1" by (rule ring_as_good(1)) (use assms(1) emits_ring in simp)
  have "rings_kept s s' \<and> (s' = s \<or> (\<exists>es. events s' = rev es @ events s \<and> read_run st req es))"
  proof -
    consider "s' = s" | "\<not> NT_SUCCESS st" "s' = ?s1"
      | bst where "NT_SUCCESS st" "s' = emits [Request_complete req bst 0] ?s1"
      | st2 out s2 where "NT_SUCCESS st" "(if fscc_io_is_streaming s \<noteq> 0 then fscc_user_read_stream ?len ?s1
          else fscc_user_read_frame E ?len ?s1) = Some (st2, out, s2)"
        "s' = emits [Request_complete req st2 0] s2 \<or>
         s' = emits [Request_output req out, Request_complete req st2 (length out)] s2"
      using process_read_outcomes [OF assms] by metis
    then show ?thesis
    proof cases
      case 2
      with read_runI(1) [of st req] show ?thesis by (intro conjI disjI2) (auto intro: exI)
    next
      case (3 bst)
      with read_runI(2) [OF 3(1), of "[]" req bst 0] show ?thesis
        by (intro conjI disjI2 exI [of _ "[Queue_retrieve read_queue2 st req, Request_complete req bst 0]"])
          (auto simp: emits_emits)
    next
      case (4 st2 out s2)
      from read_left_any [OF ok1 4(2)] obtain es where left: "rx_ring_ok (rx_ring_ok True ?s1) s2" "user_rx_change ?s1 s2"
        "events s2 = rev es @ events ?s1" "list_all quiet es" by (auto simp: read_left_def)
      have kept: "rings_kept s (emits fin s2)" for fin
        using rings_kept_trans [OF rings_kept_trans [OF rings_kept_emits(1) rings_kept_user_rx [OF left(2,1)]]
            rings_kept_emits(1)] .
      have hist: "events (emits fin s2) = rev (Queue_retrieve read_queue2 st req # es @ fin) @ events s" for fin
        by (simp add: left(3))
      from 4(3) kept hist read_runI(2,3) [OF 4(1) left(4)] show ?thesis by metis
    qed simp
  qed
  then show "rings_kept s s'" "s' = s \<or> (\<exists>es. events s' = rev es @ events s \<and> read_run st req es)" by simp_all
qed

section \<open>Stamping keeps the queue\<close>

lemma rx_state_replace:
  assumes state: "rx_state fifo s (A @ f # B) C" and f': "rx_done f'" "frame_ok f'" "rx_count_ok f'"
    and at: "unat cur = (unat (user_rx_desc s) + length A) mod unat (rx_num (memory s))"
  shows "frame_at (rx_descriptors s) cur = Some f"
    "rx_state fifo (s\<lparr>rx_descriptors := put_frame (rx_descriptors s) cur f'\<rparr>) (A @ f' # B) C"
proof -
  have ring: "ring_at (rx_descriptors s) (rx_num (memory s)) (user_rx_desc s)"
    and view: "view_from (rx_descriptors s) (user_rx_desc s) = A @ f # B @ C"
    using state by (simp_all add: rx_state_def rx_view_def)
  have k: "length A < unat (rx_num (memory s))" using rx_state_num [OF state] by simp
  from view_from_put [OF ring at k] view state f'
  show "frame_at (rx_descriptors s) cur = Some f"
    "rx_state fifo (s\<lparr>rx_descriptors := put_frame (rx_descriptors s) cur f'\<rparr>) (A @ f' # B) C"
    by (simp_all add: rx_state_def rx_view_def)
qed

text \<open>A frame but for its time.\<close>

definition untimed :: "dma_frame \<Rightarrow> dma_frame" where
  "untimed f = f\<lparr>timestamp := clear_timestamp\<rparr>"

lemma untimed_stamp [simp]: "untimed (f\<lparr>timestamp := t\<rparr>) = untimed f"
  by (simp add: untimed_def)

lemma timestamp_frame [simp]:
  "rx_done (f\<lparr>timestamp := t\<rparr>) = rx_done f" "frame_ok (f\<lparr>timestamp := t\<rparr>) = frame_ok f"
  "rx_count_ok (f\<lparr>timestamp := t\<rparr>) = rx_count_ok f"
  by (simp_all add: rx_done_def frame_ok_def rx_count_ok_def)

text \<open>Stamping changes no time that is set.\<close>

definition stamped :: "dma_frame \<Rightarrow> dma_frame \<Rightarrow> bool" where
  "stamped f f' \<longleftrightarrow> untimed f' = untimed f \<and> (\<not> timestamp_is_empty (timestamp f) \<longrightarrow> f' = f)"

lemma apply_timestamps_loop_stamps:
  assumes "rx_state fifo s (A @ B) C" "n \<le> length (B @ C)"
    and "unat cur = (unat (user_rx_desc s) + length A) mod unat (rx_num (memory s))"
  shows "\<exists>s' B' es. apply_timestamps_loop E n cur s = Some s' \<and> rx_state fifo s' (A @ B') C \<and> list_all2 stamped B B' \<and>
    user_rx_change s s' \<and> events s' = rev es @ events s \<and> list_all quiet es"
  using assms
proof (induction n arbitrary: s A B cur)
  case 0
  then show ?case by (intro exI [of _ s] exI [of _ B] exI [of _ "[]"]) (simp add: stamped_def list_all2_refl)
next
  case (Suc n)
  show ?case
  proof (cases B)
    case Nil
    then obtain f C2 where C: "C = f # C2" using Suc.prems(2) by (cases C) auto
    have "ring_at (rx_descriptors s) (rx_num (memory s)) (user_rx_desc s)"
      "view_from (rx_descriptors s) (user_rx_desc s) = A @ f # C2" "rx_open f"
      using Suc.prems(1) Nil C by (simp_all add: rx_state_def rx_view_def rx_free_ok_def)
    moreover have "length A < unat (rx_num (memory s))" using rx_state_num [OF Suc.prems(1)] Nil C by simp
    ultimately have "frame_at (rx_descriptors s) cur = Some f" "rx_open f"
      using view_from_put(3) Suc.prems(3) by force+
    with Suc.prems(1) Nil show ?thesis
      by (intro exI [of _ s] exI [of _ "[]"] exI [of _ "[]"]) (simp add: control_tests)
  next
    case (Cons f B2)
    note state = Suc.prems(1) [unfolded Cons]
    have f: "rx_done f" "frame_ok f" "rx_count_ok f" using state by (simp_all add: rx_state_def)
    let ?f = "f\<lparr>timestamp := if timestamp_is_empty (timestamp f) then system_time E (events s) else timestamp f\<rparr>"
    let ?es = "if timestamp_is_empty (timestamp f) then [Query_time (system_time E (events s))] else []"
    let ?t = "(emits ?es s)\<lparr>rx_descriptors := put_frame (rx_descriptors s) cur ?f\<rparr>"
    have state1: "rx_state fifo (emits ?es s) (A @ f # B2) C" by (rule rx_state_cong [OF state]) simp_all
    have f': "rx_done ?f" "frame_ok ?f" "rx_count_ok ?f" using f by simp_all
    have "rx_state fifo ?t ((A @ [?f]) @ B2) C" using rx_state_replace(2) [OF state1 f'] Suc.prems(3) by simp
    moreover have "n \<le> length (B2 @ C)" using Suc.prems(2) Cons by simp
    moreover have "unat (next_desc (rx_num (memory s)) cur) =
        (unat (user_rx_desc s) + length (A @ [?f])) mod unat (rx_num (memory s))"
    proof -
      have "0 < unat (rx_num (memory s))" using rx_state_num [OF state] by simp
      then have lt: "unat cur < unat (rx_num (memory s))" using Suc.prems(3) by simp
      then show ?thesis by (simp add: unat_next_desc next_slot_mod) (simp add: Suc.prems(3) mod_simps)
    qed
    ultimately obtain s' B' es where IH: "apply_timestamps_loop E n (next_desc (rx_num (memory s)) cur) ?t = Some s'"
      "rx_state fifo s' ((A @ [?f]) @ B') C" "list_all2 stamped B2 B'" "user_rx_change ?t s'"
      "events s' = rev es @ events ?t" "list_all quiet es"
      using Suc.IH [of ?t "A @ [?f]" B2 "next_desc (rx_num (memory s)) cur"] by auto
    have "\<not> rx_open f" using f(1) by (rule rx_done_open)
    then have run: "apply_timestamps_loop E (Suc n) cur s =
        apply_timestamps_loop E n (next_desc (rx_num (memory s)) cur) ?t"
      using rx_state_replace(1) [OF state f Suc.prems(3)] by (simp add: control_tests stamp_eq Let_def)
    have "user_rx_change s ?t" by (simp add: user_rx_change_def emits_def)
    moreover have "stamped f ?f" by (simp add: stamped_def)
    ultimately show ?thesis using user_rx_change_trans [OF _ IH(4)] run IH Cons
      by (intro exI [of _ s'] exI [of _ "?f # B'"] exI [of _ "?es @ es"]) (simp del: apply_timestamps_loop.simps)
  qed
qed

text \<open>The routine that stamps what the DMA engine received never makes an invalid access, and
  changes nothing but the times that were not set.\<close>

lemma apply_timestamps_keeps:
  assumes "rx_ring_ok fifo s"
  shows "\<exists>s' es. fscc_dma_apply_timestamps E s = Some s' \<and> rx_ring_ok fifo s' \<and> list_all2 stamped (rx_queue s) (rx_queue s') \<and>
    user_rx_change s s' \<and> events s' = rev es @ events s \<and> list_all quiet es"
proof -
  note state = rx_ring_ok_state [OF assms]
  have ring: "ring_at (rx_descriptors s) (rx_num (memory s)) (user_rx_desc s)" using state by (simp add: rx_state_def)
  have num: "unat (rx_num (memory s)) \<le> length (rx_queue s @ rx_free s)" using rx_state_num [OF state] by simp
  have at: "unat (user_rx_desc s) = (unat (user_rx_desc s) + length []) mod unat (rx_num (memory s))"
    using ring_at_less [OF ring] by simp
  from apply_timestamps_loop_stamps [of fifo s "[]" "rx_queue s" "rx_free s" "unat (rx_num (memory s))" "user_rx_desc s" E] state num at
  obtain s' B' es where "apply_timestamps_loop E (unat (rx_num (memory s))) (user_rx_desc s) s = Some s'"
    "rx_state fifo s' B' (rx_free s)" "list_all2 stamped (rx_queue s) B'" "user_rx_change s s'"
    "events s' = rev es @ events s" "list_all quiet es" by auto
  then show ?thesis using rx_state_queue by (auto simp: fscc_dma_apply_timestamps_def)
qed

section \<open>A phantom frame\<close>

text \<open>A frame of 16 bytes on descriptors of eight, whose size is reported only after its data was
  taken: the FIFO side closes two full descriptors without ending the frame, and ends it in a
  third, empty one. Reading the frame gives back the two descriptors that hold it, and leaves
  the third at the front of the queue.\<close>

definition phantom_env :: env where
  "phantom_env = example_env\<lparr>hw_read := (\<lambda>h sp a.
     if a = 0x1010 then (if length h < 8 then 0 else 1)
     else if a = 0x100C then (if length h < 4 then 16 else 8)
     else if a = 0x1004 then 16 else 0)\<rparr>"

definition phantom_port :: driver where
  "phantom_port = example_port [example_frame 0x100 0 8, example_frame 0x200 DESC_HI_BIT 8, example_frame 0x300 0 8] []"

lemma phantom_frame_overreads:
  "do { (st1, s1) \<leftarrow> fscc_fifo_read_data phantom_env phantom_port;
        (st2, out, s2) \<leftarrow> fscc_user_read_frame phantom_env 100 s1;
        waiting \<leftarrow> fscc_user_next_read_size s2;
        Some (st2, length out, waiting, fscc_user_read_frame phantom_env 100 s2) } =
   Some (STATUS_SUCCESS, 16, (True, 16), None)"
  by code_simp

text \<open>A frame of one byte, read without its status and with a time stamp: the requirement wraps around
  to seven bytes, and the time stamp is copied past the end of a buffer of seven.\<close>

definition short_frame_port :: driver where
  "short_frame_port = (example_port [example_frame 0x100 (DESC_FE_BIT OR DESC_CSTOP_BIT OR 1) 1] [])
     \<lparr>append_status := 0, append_timestamp := 1\<rparr>"

lemma short_frame_overruns:
  "buffer_requirement short_frame_port 1 = 7" "fscc_user_read_frame example_env 7 short_frame_port = None"
  by code_simp+

end
