(* ===== verification/Fscc_Settings.thy ===== *)
theory Fscc_Settings
  imports Fscc_Frames
begin

text \<open>
  The port's settings (\<open>port.c\<close>): six flags, the transmit modifiers and the choice
  between the FIFO and the DMA engine. The flags have one interface, the locale
  \<open>setting\<close>: what is set is read back as a truth value, while the setting applies.
\<close>

section \<open>Flags\<close>

definition fscc_port_set_append_status :: "BOOLEAN \<Rightarrow> driver \<Rightarrow> driver" where
  "fscc_port_set_append_status value s = s\<lparr>append_status := (if value \<noteq> 0 then 1 else 0)\<rparr>"
definition fscc_port_get_append_status :: "driver \<Rightarrow> BOOLEAN" where
  "fscc_port_get_append_status s = (if fscc_io_is_streaming s = 0 \<and> append_status s \<noteq> 0 then 1 else 0)"

definition fscc_port_set_append_timestamp :: "BOOLEAN \<Rightarrow> driver \<Rightarrow> driver" where
  "fscc_port_set_append_timestamp value s = s\<lparr>append_timestamp := (if value \<noteq> 0 then 1 else 0)\<rparr>"
definition fscc_port_get_append_timestamp :: "driver \<Rightarrow> BOOLEAN" where
  "fscc_port_get_append_timestamp s =
     (if fscc_io_is_streaming s = 0 \<and> append_timestamp s \<noteq> 0 then 1 else 0)"

definition fscc_port_set_ignore_timeout :: "BOOLEAN \<Rightarrow> driver \<Rightarrow> driver" where
  "fscc_port_set_ignore_timeout value s = s\<lparr>ignore_timeout := (if value \<noteq> 0 then TRUE else FALSE)\<rparr>"
definition fscc_port_get_ignore_timeout :: "driver \<Rightarrow> BOOLEAN" where
  "fscc_port_get_ignore_timeout s = ignore_timeout s"

definition fscc_port_set_rx_multiple :: "BOOLEAN \<Rightarrow> driver \<Rightarrow> driver" where
  "fscc_port_set_rx_multiple value s = s\<lparr>rx_multiple := (if value \<noteq> 0 then 1 else 0)\<rparr>"
definition fscc_port_get_rx_multiple :: "driver \<Rightarrow> BOOLEAN" where
  "fscc_port_get_rx_multiple s = rx_multiple s"

definition fscc_port_set_wait_on_write :: "BOOLEAN \<Rightarrow> driver \<Rightarrow> driver" where
  "fscc_port_set_wait_on_write value s = s\<lparr>wait_on_write := (if value \<noteq> 0 then 1 else 0)\<rparr>"
definition fscc_port_get_wait_on_write :: "driver \<Rightarrow> BOOLEAN" where
  "fscc_port_get_wait_on_write s = wait_on_write s"

definition fscc_port_set_blocking_write :: "BOOLEAN \<Rightarrow> driver \<Rightarrow> driver" where
  "fscc_port_set_blocking_write value s = s\<lparr>blocking_write := (if value \<noteq> 0 then 1 else 0)\<rparr>"
definition fscc_port_get_blocking_write :: "driver \<Rightarrow> BOOLEAN" where
  "fscc_port_get_blocking_write s = blocking_write s"

section \<open>Modifiers and engine\<close>

definition fscc_port_set_tx_modifiers :: "i32 \<Rightarrow> driver \<Rightarrow> NTSTATUS \<times> driver" where
  "fscc_port_set_tx_modifiers value s =
     (if value \<in> {XF, XF OR TXT, XF OR TXEXT, XREP, XREP OR TXT, XREP OR TXEXT}
      then (STATUS_SUCCESS, s\<lparr>tx_modifiers := value\<rparr>)
      else (STATUS_INVALID_PARAMETER, s))"
definition fscc_port_get_tx_modifiers :: "driver \<Rightarrow> u32" where
  "fscc_port_get_tx_modifiers s = tx_modifiers s"

definition fscc_port_set_force_fifo :: "env \<Rightarrow> BOOLEAN \<Rightarrow> driver \<Rightarrow> NTSTATUS \<times> driver" where
  "fscc_port_set_force_fifo E value s =
     (if value = 0 \<and> has_dma s = 0 then (STATUS_NOT_SUPPORTED, s)
      else if force_fifo s \<noteq> value \<and> has_dma s \<noteq> 0
        then (let s1 = s\<lparr>force_fifo := (if value \<noteq> 0 then TRUE else FALSE)\<rparr>
              in (STATUS_SUCCESS, if force_fifo s1 \<noteq> 0 then snd (fscc_dma_port_disable E s1)
                                  else snd (fscc_dma_port_enable E s1)))
      else (STATUS_SUCCESS, s))"
definition fscc_port_get_force_fifo :: "driver \<Rightarrow> BOOLEAN" where
  "fscc_port_get_force_fifo s = force_fifo s"

definition fscc_port_reset_timer :: "driver \<Rightarrow> driver" where
  "fscc_port_reset_timer s = emit Timer_start s"

section \<open>The interface of a flag\<close>

locale setting =
  fixes set_flag :: "BOOLEAN \<Rightarrow> driver \<Rightarrow> driver"
    and get_flag :: "driver \<Rightarrow> BOOLEAN"
    and applies :: "driver \<Rightarrow> bool"
  assumes get_set: "get_flag (set_flag v s) = (if applies s \<and> v \<noteq> 0 then 1 else 0)"
    and applies_set: "applies (set_flag v s) = applies s"
    and set_set: "set_flag v (set_flag w s) = set_flag v s"
    and set_quiet: "events (set_flag v s) = events s"
    and set_rings: "rx_descriptors (set_flag v s) = rx_descriptors s \<and> memory (set_flag v s) = memory s \<and>
      user_rx_desc (set_flag v s) = user_rx_desc s \<and> fifo_rx_desc (set_flag v s) = fifo_rx_desc s \<and>
      port_card (set_flag v s) = port_card s \<and> force_fifo (set_flag v s) = force_fifo s \<and>
      has_dma (set_flag v s) = has_dma s"
    and set_tx_rings: "tx_descriptors (set_flag v s) = tx_descriptors s \<and>
      user_tx_desc (set_flag v s) = user_tx_desc s \<and> fifo_tx_desc (set_flag v s) = fifo_tx_desc s"
begin

text \<open>Setting what is read back changes nothing more.\<close>

lemma enabled_stays: "applies s \<Longrightarrow> get_flag (set_flag (get_flag (set_flag v s)) (set_flag w s)) =
    get_flag (set_flag v s)"
  by (simp add: get_set applies_set)

lemma last_set_wins: "get_flag (fold set_flag vs (set_flag v s)) =
    (if applies s \<and> last (v # vs) \<noteq> 0 then 1 else 0)"
proof (induction vs arbitrary: v s)
  case (Cons w vs)
  from Cons.IH [of w "set_flag v s"] show ?case by (simp add: applies_set)
qed (simp add: get_set)

end

lemma streaming_storage: "register_storage s = register_storage t \<Longrightarrow>
    fscc_io_is_streaming s = fscc_io_is_streaming t"
  by (simp add: fscc_io_is_streaming_def)

lemmas setting_defs = fscc_port_set_append_status_def fscc_port_get_append_status_def
  fscc_port_set_append_timestamp_def fscc_port_get_append_timestamp_def
  fscc_port_set_ignore_timeout_def fscc_port_get_ignore_timeout_def
  fscc_port_set_rx_multiple_def fscc_port_get_rx_multiple_def
  fscc_port_set_wait_on_write_def fscc_port_get_wait_on_write_def
  fscc_port_set_blocking_write_def fscc_port_get_blocking_write_def

interpretation append_status: setting fscc_port_set_append_status fscc_port_get_append_status
  "\<lambda>s. fscc_io_is_streaming s = 0"
  by unfold_locales (simp_all add: setting_defs fscc_io_is_streaming_def)

interpretation append_timestamp: setting fscc_port_set_append_timestamp fscc_port_get_append_timestamp
  "\<lambda>s. fscc_io_is_streaming s = 0"
  by unfold_locales (simp_all add: setting_defs fscc_io_is_streaming_def)

interpretation ignore_timeout: setting fscc_port_set_ignore_timeout fscc_port_get_ignore_timeout "\<lambda>s. True"
  by unfold_locales (simp_all add: setting_defs)

interpretation rx_multiple: setting fscc_port_set_rx_multiple fscc_port_get_rx_multiple "\<lambda>s. True"
  by unfold_locales (simp_all add: setting_defs)

interpretation wait_on_write: setting fscc_port_set_wait_on_write fscc_port_get_wait_on_write "\<lambda>s. True"
  by unfold_locales (simp_all add: setting_defs)

interpretation blocking_write: setting fscc_port_set_blocking_write fscc_port_get_blocking_write "\<lambda>s. True"
  by unfold_locales (simp_all add: setting_defs)

section \<open>Properties\<close>

lemma small_modifier:
  assumes "(v :: i32) AND NOT 7 = 0"
  shows "v \<in> {0, 1, 2, 3, 4, 5, 6, 7}"
proof -
  have "v = (v AND 7) OR (v AND NOT 7)" by (rule bit_word_eqI) (auto simp: bit_simps)
  then have "v = take_bit 3 v" using assms by (simp add: take_bit_eq_mask mask_eq_exp_minus_1)
  then have "unat v = unat (take_bit 3 v)" by (rule arg_cong)
  also have "\<dots> = take_bit 3 (unat v)" by (rule unsigned_take_bit_eq)
  also have "\<dots> < 2 ^ 3" by (rule take_bit_nat_less_exp)
  finally have "unat v < 8" by simp
  then have "unat v = 0 \<or> unat v = 1 \<or> unat v = 2 \<or> unat v = 3 \<or> unat v = 4 \<or> unat v = 5 \<or>
      unat v = 6 \<or> unat v = 7" by linarith
  moreover have "v = of_nat (unat v)" by simp
  ultimately have "v = of_nat 0 \<or> v = of_nat 1 \<or> v = of_nat 2 \<or> v = of_nat 3 \<or> v = of_nat 4 \<or>
      v = of_nat 5 \<or> v = of_nat 6 \<or> v = of_nat 7" by metis
  then show ?thesis by simp
qed

text \<open>Only the combinations of the repeat bit with at most one of the two trigger
  bits are accepted as transmit modifiers; any other value is refused and leaves the port
  unchanged.\<close>

lemma tx_modifiers_checked:
  "fscc_port_set_tx_modifiers value s =
     (if value AND NOT 7 = 0 \<and> \<not> (bit value 1 \<and> bit value 2)
      then (STATUS_SUCCESS, s\<lparr>tx_modifiers := value\<rparr>)
      else (STATUS_INVALID_PARAMETER, s))"
proof -
  have "(value AND NOT 7 = 0 \<and> \<not> (bit value 1 \<and> bit value 2)) = (value \<in> {0, 1, 2, 3, 4, 5})"
  proof (cases "value AND NOT 7 = 0")
    case True
    then show ?thesis using small_modifier [OF True] by auto
  next
    case False
    then show ?thesis by auto
  qed
  moreover have "(value \<in> {XF, XF OR TXT, XF OR TXEXT, XREP, XREP OR TXT, XREP OR TXEXT}) =
      (value \<in> {0, 1, 2, 3, 4, 5})" by auto
  ultimately show ?thesis by (simp only: fscc_port_set_tx_modifiers_def)
qed

end
