(* ===== verification/Fscc_Isr.thy ===== *)
theory Fscc_Isr
  imports Fscc_Memory Fscc_Settings
begin

text \<open>
  The interrupt routine, the deferred routines it schedules, and the timer (\<open>isr.c\<close>).
  Scheduling a deferred routine is an event of the history. The two loops over request
  queues may not end if the framework keeps handing out requests; they are partial
  functions, and that they end is part of what is proved, for a framework whose queues work
  as documented (\<open>queue_works\<close>).
\<close>

section \<open>The interrupt routine\<close>

definition enqueue_if :: "bool \<Rightarrow> dpc \<Rightarrow> driver \<Rightarrow> driver" where
  "enqueue_if b d s = (if b then emit (Dpc_enqueue d) s else s)"

definition fscc_isr :: "env \<Rightarrow> driver \<Rightarrow> BOOLEAN \<times> driver" where
  "fscc_isr E s =
     (let (isr_value, s1) = fscc_port_get_register E 0 ISR_OFFSET s
      in if isr_value = 0 then (FALSE, s1)
      else (let s2 = s1\<lparr>last_isr_value := last_isr_value s1 OR isr_value\<rparr>;
                s3 = (if fscc_port_uses_dma s2 \<noteq> 0
                  then enqueue_if (isr_value AND (DR_HI OR DR_FE OR RFT OR RFS OR RFE) \<noteq> 0) process_read_dpc
                        (enqueue_if (isr_value AND RFE \<noteq> 0) timestamp_dpc s2)
                  else enqueue_if (isr_value AND (TFT OR TDU OR ALLS) \<noteq> 0) oframe_dpc
                        (enqueue_if (isr_value AND (RFE OR RFT OR RFS OR RFO OR RDO) \<noteq> 0) iframe_dpc s2));
                s4 = enqueue_if (isr_value AND ALLS \<noteq> 0) alls_dpc s3
            in (TRUE, emit (Dpc_enqueue isr_alert_dpc) s4)))"

section \<open>The deferred routines\<close>

partial_function (option) isr_alert_loop ::
  "env \<Rightarrow> u32 \<Rightarrow> request option \<Rightarrow> driver \<Rightarrow> driver option" where
  "isr_alert_loop E isr_value prevTagRequest s =
     (let status_tag = find_request E (events s) isr_queue prevTagRequest;
          status = fst status_tag; tagRequest = snd status_tag;
          s1 = emit (Queue_find isr_queue prevTagRequest status tagRequest) s
      in if status = STATUS_NO_MORE_ENTRIES then Some s1
      else if status = STATUS_NOT_FOUND then isr_alert_loop E isr_value None s1
      else if \<not> NT_SUCCESS status then Some s1
      else (let mask_buffer = input_buffer E tagRequest 4
      in if \<not> NT_SUCCESS (fst mask_buffer) then Some s1
      else if \<not> NT_SUCCESS (output_buffer E tagRequest 4) then Some s1
      else do {
        mask \<leftarrow> chars_to_u32 (snd mask_buffer);
        if isr_value AND mask \<noteq> 0
         then (let status = retrieve_found E (events s1) isr_queue tagRequest;
                   s2 = emit (Queue_retrieve_found isr_queue tagRequest status) s1
               in if status = STATUS_NOT_FOUND then isr_alert_loop E isr_value None s2
               else if \<not> NT_SUCCESS status then Some s2
               else isr_alert_loop E isr_value None
                      (emits [Request_output tagRequest (u32_bytes (isr_value AND mask)),
                              Request_complete tagRequest status 4] s2))
         else isr_alert_loop E isr_value (Some tagRequest) s1 }))"

definition isr_alert_worker :: "env \<Rightarrow> driver \<Rightarrow> driver option" where
  "isr_alert_worker E s = isr_alert_loop E (last_isr_value s) None (s\<lparr>last_isr_value := 0\<rparr>)"

definition timestamp_worker :: "env \<Rightarrow> driver \<Rightarrow> driver option" where
  "timestamp_worker E s = (if fscc_port_uses_dma s = 0 then Some s else fscc_dma_apply_timestamps E s)"

definition iframe_worker :: "env \<Rightarrow> driver \<Rightarrow> driver option" where
  "iframe_worker E s =
     (if fscc_port_uses_dma s \<noteq> 0 then Some s
      else do { (status, s1) \<leftarrow> fscc_fifo_read_data E s; Some (emit (Dpc_enqueue process_read_dpc) s1) })"

definition oframe_worker :: "env \<Rightarrow> driver \<Rightarrow> driver option" where
  "oframe_worker E s =
     (if fscc_port_uses_dma s \<noteq> 0 then Some s
      else do { (result, s1) \<leftarrow> fscc_io_transmit_frame E s; Some s1 })"

partial_function (option) alls_loop :: "env \<Rightarrow> driver \<Rightarrow> driver option" where
  "alls_loop E s =
     (let status_request = retrieve_next E (events s) write_queue2;
          status = fst status_request; request = snd status_request;
          s1 = emit (Queue_retrieve write_queue2 status request) s
      in if \<not> NT_SUCCESS status then Some s1
         else alls_loop E (emit (Request_complete request status
                (unat (of_nat (request_length E request) :: u32))) s1))"

definition alls_worker :: "env \<Rightarrow> driver \<Rightarrow> driver option" where
  "alls_worker E s = (if wait_on_write s \<noteq> 0 then alls_loop E s else Some s)"

definition request_worker :: "env \<Rightarrow> driver \<Rightarrow> driver option" where
  "request_worker E s =
     (let (status, tagRequest) = find_request E (events s) blocking_request_queue None;
          s1 = emit (Queue_find blocking_request_queue None status tagRequest) s
      in if \<not> NT_SUCCESS status then Some s1
      else (let len = of_nat (request_length E tagRequest) :: u32
      in do {
        space \<leftarrow> fscc_user_get_tx_space s1;
        if space < unat len then Some s1
        else (let status = retrieve_found E (events s1) blocking_request_queue tagRequest;
                  s2 = emit (Queue_retrieve_found blocking_request_queue tagRequest status) s1
        in if \<not> NT_SUCCESS status then Some s2
        else (let (status, data_buffer) = input_buffer E tagRequest (unat len)
        in if \<not> NT_SUCCESS status then Some (complete tagRequest status 0 s2)
        else do {
          (status, write_count, s3) \<leftarrow> fscc_user_write_frame E data_buffer len s2;
          let s4 = complete tagRequest status (unat write_count) s3;
          Some (if fscc_port_uses_dma s4 = 0 then emit (Dpc_enqueue oframe_dpc) s4 else s4) })) }))"

definition timer_handler :: "driver \<Rightarrow> driver" where
  "timer_handler s =
     emit (Dpc_enqueue request_dpc)
       (if fscc_port_uses_dma s \<noteq> 0 then emit (Dpc_enqueue process_read_dpc) s
        else emit (Dpc_enqueue iframe_dpc) s)"

section \<open>Queues that work as documented\<close>

text \<open>The requests a history leaves in a queue of the driver, oldest first.\<close>

fun queue_step :: "queue \<Rightarrow> event \<Rightarrow> request list \<Rightarrow> request list" where
  "queue_step q (Request_forward r q' st) rs = (if q' = q \<and> NT_SUCCESS st then rs @ [r] else rs)"
| "queue_step q (Queue_retrieve q' st r) rs = (if q' = q \<and> NT_SUCCESS st then remove1 r rs else rs)"
| "queue_step q (Queue_retrieve_found q' r st) rs = (if q' = q \<and> NT_SUCCESS st then remove1 r rs else rs)"
| "queue_step q (Queue_purge q') rs = (if q' = q then [] else rs)"
| "queue_step q e rs = rs"

definition queue_contents :: "queue \<Rightarrow> history \<Rightarrow> request list" where
  "queue_contents q h = foldr (queue_step q) h []"

lemma queue_contents_simps [simp]:
  "queue_contents q [] = []" "queue_contents q (e # h) = queue_step q e (queue_contents q h)"
  by (simp_all add: queue_contents_def)

text \<open>What the framework answers for such a queue: the first request, the request after a
  given one, and whether a request is there. A failing answer names no request.\<close>

definition first_request :: "request list \<Rightarrow> NTSTATUS \<times> request" where
  "first_request rs = (case rs of [] \<Rightarrow> (STATUS_NO_MORE_ENTRIES, 0) | r # _ \<Rightarrow> (STATUS_SUCCESS, r))"

definition request_after :: "request option \<Rightarrow> request list \<Rightarrow> NTSTATUS \<times> request" where
  "request_after prev rs = (case prev of None \<Rightarrow> first_request rs
     | Some p \<Rightarrow> if p \<in> set rs then first_request (tl (dropWhile (\<lambda>r. r \<noteq> p) rs)) else (STATUS_NOT_FOUND, 0))"

definition same_answer :: "NTSTATUS \<times> request \<Rightarrow> NTSTATUS \<times> request \<Rightarrow> bool" where
  "same_answer a b \<longleftrightarrow> fst a = fst b \<and> (NT_SUCCESS (fst b) \<longrightarrow> snd a = snd b)"

definition queue_works :: "env \<Rightarrow> queue \<Rightarrow> bool" where
  "queue_works E q \<longleftrightarrow> (\<forall>h.
     same_answer (retrieve_next E h q) (first_request (queue_contents q h)) \<and>
     (\<forall>prev. same_answer (find_request E h q prev) (request_after prev (queue_contents q h))) \<and>
     (\<forall>r. retrieve_found E h q r = (if r \<in> set (queue_contents q h) then STATUS_SUCCESS else STATUS_NOT_FOUND)))"

lemma queue_worksD:
  assumes "queue_works E q"
  shows "same_answer (retrieve_next E h q) (first_request (queue_contents q h))"
    "same_answer (find_request E h q prev) (request_after prev (queue_contents q h))"
    "retrieve_found E h q r = (if r \<in> set (queue_contents q h) then STATUS_SUCCESS else STATUS_NOT_FOUND)"
  using assms by (simp_all add: queue_works_def)

lemma request_after_prefix:
  assumes "distinct (Ks @ Rs)"
  shows "request_after (if Ks = [] then None else Some (last Ks)) (Ks @ Rs) = first_request Rs"
proof (cases Ks rule: rev_cases)
  case Nil
  then show ?thesis by (simp add: request_after_def)
next
  case (snoc Ks' k)
  have "dropWhile (\<lambda>r. r \<noteq> k) (Ks' @ k # Rs) = k # Rs"
    using assms snoc by (subst dropWhile_append2) auto
  then show ?thesis by (simp add: request_after_def snoc)
qed

section \<open>Tracked interrupts\<close>

text \<open>The interrupts a request tracks, and what a history hands to requests.\<close>

definition mask_of :: "env \<Rightarrow> request \<Rightarrow> u32" where
  "mask_of E r = (case chars_to_u32 (snd (input_buffer E r 4)) of None \<Rightarrow> 0 | Some m \<Rightarrow> m)"

definition mask_readable :: "env \<Rightarrow> request \<Rightarrow> bool" where
  "mask_readable E r \<longleftrightarrow> NT_SUCCESS (fst (input_buffer E r 4)) \<and> NT_SUCCESS (output_buffer E r 4)"

lemma mask_readable_mask:
  assumes "inputs_as_asked E" "mask_readable E r"
  shows "chars_to_u32 (snd (input_buffer E r 4)) = Some (mask_of E r)"
proof -
  obtain st buf where buf: "input_buffer E r 4 = (st, buf)" by fastforce
  with assms have "4 \<le> length buf" by (auto simp: inputs_as_asked_def mask_readable_def split: prod.splits)
  then show ?thesis using buf by (auto simp: mask_of_def dest: chars_to_u32_Some)
qed

definition outputs :: "event list \<Rightarrow> (request \<times> u8 list) list" where
  "outputs es = concat (map (\<lambda>e. case e of Request_output r bs \<Rightarrow> [(r, bs)] | _ \<Rightarrow> []) es)"

lemma outputs_simps [simp]:
  "outputs [] = []" "outputs (es @ es') = outputs es @ outputs es'"
  "outputs (Request_output r bs # es) = (r, bs) # outputs es"
  "outputs (Request_complete r st n # es) = outputs es" "outputs (Queue_find q p st t # es) = outputs es"
  "outputs (Queue_retrieve_found q t st # es) = outputs es"
  by (simp_all add: outputs_def)

lemma completed_find [simp]:
  "completed (Queue_find q p st t # es) = completed es"
  "completed (Queue_retrieve_found q t st # es) = completed es"
  by (simp_all add: completed_def)

text \<open>One pass of the search, when the requests \<open>Ks\<close> have been passed over and \<open>Rs\<close> are left.\<close>

definition searching :: "history \<Rightarrow> request list \<Rightarrow> request list \<Rightarrow> request option \<Rightarrow> bool" where
  "searching h Ks Rs prev \<longleftrightarrow> queue_contents isr_queue h = Ks @ Rs \<and> distinct (Ks @ Rs) \<and>
     prev = (if Ks = [] then None else Some (last Ks))"

lemma alert_finds:
  assumes "queue_works E isr_queue" "searching (events s) Ks Rs prev"
  shows "same_answer (find_request E (events s) isr_queue prev) (first_request Rs)"
proof -
  have d: "distinct (Ks @ Rs)" using assms(2) by (simp add: searching_def)
  have "request_after prev (queue_contents isr_queue (events s)) = first_request Rs"
    using assms(2) request_after_prefix [OF d] by (simp add: searching_def)
  with queue_worksD(2) [OF assms(1), of "events s" prev] show ?thesis by simp
qed

lemma alert_stops:
  assumes "queue_works E isr_queue" "searching (events s) Ks Rs prev" "Rs = [] \<or> \<not> mask_readable E (hd Rs)"
  shows "\<exists>st tag. isr_alert_loop E v prev s = Some (emits [Queue_find isr_queue prev st tag] s)"
proof -
  obtain st tag where f: "find_request E (events s) isr_queue prev = (st, tag)" by fastforce
  note find = alert_finds [OF assms(1,2), unfolded f]
  show ?thesis
  proof (cases Rs)
    case Nil
    with find have "st = STATUS_NO_MORE_ENTRIES" by (simp add: first_request_def same_answer_def)
    with f show ?thesis by (subst isr_alert_loop.simps) (auto simp: emit_emits)
  next
    case (Cons r Us)
    with find have "st = STATUS_SUCCESS" "tag = r" by (simp_all add: first_request_def same_answer_def)
    moreover have "\<not> mask_readable E r" using assms(3) Cons by simp
    ultimately show ?thesis using f
      by (subst isr_alert_loop.simps) (auto simp: emit_emits mask_readable_def Let_def)
  qed
qed

lemma alert_passes:
  assumes "queue_works E isr_queue" "inputs_as_asked E" "searching (events s) Ks (r # Rs) prev" "mask_readable E r"
    and "v AND mask_of E r = 0"
  shows "isr_alert_loop E v prev s = isr_alert_loop E v (Some r) (emits [Queue_find isr_queue prev STATUS_SUCCESS r] s)"
    "searching (events (emits [Queue_find isr_queue prev STATUS_SUCCESS r] s)) (Ks @ [r]) Rs (Some r)"
proof -
  have "find_request E (events s) isr_queue prev = (STATUS_SUCCESS, r)"
    using alert_finds [OF assms(1,3)] by (cases "find_request E (events s) isr_queue prev")
      (simp add: first_request_def same_answer_def)
  then show "isr_alert_loop E v prev s =
      isr_alert_loop E v (Some r) (emits [Queue_find isr_queue prev STATUS_SUCCESS r] s)"
    using assms(4,5) mask_readable_mask [OF assms(2,4)]
    by (subst isr_alert_loop.simps) (simp add: mask_readable_def emit_emits)
  show "searching (events (emits [Queue_find isr_queue prev STATUS_SUCCESS r] s)) (Ks @ [r]) Rs (Some r)"
    using assms(3) by (simp add: searching_def)
qed

definition alert_answer :: "env \<Rightarrow> u32 \<Rightarrow> request option \<Rightarrow> request \<Rightarrow> event list" where
  "alert_answer E v prev r = [Queue_find isr_queue prev STATUS_SUCCESS r,
     Queue_retrieve_found isr_queue r STATUS_SUCCESS, Request_output r (u32_bytes (v AND mask_of E r)),
     Request_complete r STATUS_SUCCESS 4]"

lemma alert_takes:
  assumes "queue_works E isr_queue" "inputs_as_asked E" "searching (events s) Ks (r # Rs) prev" "mask_readable E r"
    and "v AND mask_of E r \<noteq> 0"
  shows "isr_alert_loop E v prev s = isr_alert_loop E v None (emits (alert_answer E v prev r) s)"
    "searching (events (emits (alert_answer E v prev r) s)) [] (Ks @ Rs) None"
proof -
  have Q: "queue_contents isr_queue (events s) = Ks @ r # Rs" "distinct (Ks @ r # Rs)"
    using assms(3) by (simp_all add: searching_def)
  have "find_request E (events s) isr_queue prev = (STATUS_SUCCESS, r)"
    using alert_finds [OF assms(1,3)] by (cases "find_request E (events s) isr_queue prev")
      (simp add: first_request_def same_answer_def)
  moreover have "retrieve_found E (Queue_find isr_queue prev STATUS_SUCCESS r # events s) isr_queue r = STATUS_SUCCESS"
    using queue_worksD(3) [OF assms(1), of "Queue_find isr_queue prev STATUS_SUCCESS r # events s" r] Q(1) by simp
  ultimately show "isr_alert_loop E v prev s = isr_alert_loop E v None (emits (alert_answer E v prev r) s)"
    using assms(4,5) mask_readable_mask [OF assms(2,4)]
    by (subst isr_alert_loop.simps) (simp add: mask_readable_def emit_emits emits_emits alert_answer_def)
  have "remove1 r (Ks @ r # Rs) = Ks @ Rs" using Q(2) by (simp add: remove1_append)
  then show "searching (events (emits (alert_answer E v prev r) s)) [] (Ks @ Rs) None"
    using Q by (simp add: searching_def alert_answer_def)
qed

text \<open>The whole search: it reaches the requests \<open>Rs\<close> with readable buffers, and what is behind
  the first request with a buffer that is not (\<open>Us\<close>) stays.\<close>

lemma isr_alert_loop_answers:
  assumes "queue_works E isr_queue" "inputs_as_asked E" "searching (events s) Ks (Rs @ Us) prev"
    and "list_all (mask_readable E) (Ks @ Rs)" "Us = [] \<or> \<not> mask_readable E (hd Us)"
    and "list_all (\<lambda>r. v AND mask_of E r = 0) Ks" "length (Ks @ Rs) \<le> N"
  shows "\<exists>es. isr_alert_loop E v prev s = Some (emits es s) \<and>
    completed es = filter (\<lambda>r. v AND mask_of E r \<noteq> 0) Rs \<and>
    outputs es = map (\<lambda>r. (r, u32_bytes (v AND mask_of E r))) (filter (\<lambda>r. v AND mask_of E r \<noteq> 0) Rs) \<and>
    queue_contents isr_queue (rev es @ events s) = filter (\<lambda>r. v AND mask_of E r = 0) (Ks @ Rs) @ Us"
  using assms(3,4,6,7)
proof (induction "length (filter (\<lambda>r. v AND mask_of E r \<noteq> 0) Rs) * Suc N + length Rs"
    arbitrary: s Ks Rs prev rule: less_induct)
  case less
  have all: "filter (\<lambda>r. v AND mask_of E r = 0) Ks = Ks" "filter (\<lambda>r. v AND mask_of E r \<noteq> 0) Ks = []"
    using less.prems(3) by (simp_all add: list_all_iff filter_empty_conv)
  show ?case
  proof (cases Rs)
    case Nil
    with alert_stops [OF assms(1) less.prems(1), of v] assms(5) obtain st tag where
      "isr_alert_loop E v prev s = Some (emits [Queue_find isr_queue prev st tag] s)" by auto
    with less.prems(1) Nil all show ?thesis
      by (intro exI [of _ "[Queue_find isr_queue prev st tag]"]) (simp add: searching_def)
  next
    case (Cons r Rs')
    have here: "searching (events s) Ks (r # Rs' @ Us) prev" "mask_readable E r"
      using less.prems(1,2) Cons by simp_all
    show ?thesis
    proof (cases "v AND mask_of E r = 0")
      case True
      let ?e = "Queue_find isr_queue prev STATUS_SUCCESS r"
      note pass = alert_passes [OF assms(1,2) here True]
      have "length (filter (\<lambda>r. v AND mask_of E r \<noteq> 0) Rs') * Suc N + length Rs' <
          length (filter (\<lambda>r. v AND mask_of E r \<noteq> 0) Rs) * Suc N + length Rs"
        using Cons True by simp
      from less.hyps [OF this pass(2)] obtain es where
        "isr_alert_loop E v (Some r) (emits [?e] s) = Some (emits es (emits [?e] s))"
        "completed es = filter (\<lambda>r. v AND mask_of E r \<noteq> 0) Rs'"
        "outputs es = map (\<lambda>r. (r, u32_bytes (v AND mask_of E r))) (filter (\<lambda>r. v AND mask_of E r \<noteq> 0) Rs')"
        "queue_contents isr_queue (rev es @ events (emits [?e] s)) =
          filter (\<lambda>r. v AND mask_of E r = 0) ((Ks @ [r]) @ Rs') @ Us"
        using less.prems(2-4) Cons True by auto
      with pass(1) Cons True show ?thesis by (intro exI [of _ "?e # es"]) (simp add: emits_emits)
    next
      case False
      let ?as = "alert_answer E v prev r"
      note takes = alert_takes [OF assms(1,2) here False]
      have "length (Ks @ Rs') < Suc N" using less.prems(4) Cons by simp
      then have "length (filter (\<lambda>r. v AND mask_of E r \<noteq> 0) (Ks @ Rs')) * Suc N + length (Ks @ Rs') <
          length (filter (\<lambda>r. v AND mask_of E r \<noteq> 0) Rs) * Suc N + length Rs"
        using Cons False all by simp
      from less.hyps [OF this, of "emits ?as s" "[]" None] takes(2) obtain es where
        "isr_alert_loop E v None (emits ?as s) = Some (emits es (emits ?as s))"
        "completed es = filter (\<lambda>r. v AND mask_of E r \<noteq> 0) (Ks @ Rs')"
        "outputs es = map (\<lambda>r. (r, u32_bytes (v AND mask_of E r)))
           (filter (\<lambda>r. v AND mask_of E r \<noteq> 0) (Ks @ Rs'))"
        "queue_contents isr_queue (rev es @ events (emits ?as s)) =
          filter (\<lambda>r. v AND mask_of E r = 0) (Ks @ Rs') @ Us"
        using less.prems(2,4) Cons by auto
      with takes(1) Cons False all show ?thesis
        by (intro exI [of _ "?as @ es"]) (simp add: emits_emits alert_answer_def)
    qed
  qed
qed

lemma alls_loop_drains:
  assumes "queue_works E write_queue2" "queue_contents write_queue2 (events s) = Rs"
  shows "\<exists>es. alls_loop E s = Some (emits es s) \<and> completed es = Rs \<and>
    queue_contents write_queue2 (rev es @ events s) = []"
  using assms(2)
proof (induction Rs arbitrary: s)
  case Nil
  obtain st r where r: "retrieve_next E (events s) write_queue2 = (st, r)" by fastforce
  have "st = STATUS_NO_MORE_ENTRIES"
    using queue_worksD(1) [OF assms(1), of "events s"] Nil r by (simp add: first_request_def same_answer_def)
  with r Nil show ?case
    by (intro exI [of _ "[Queue_retrieve write_queue2 st r]"])
      (subst alls_loop.simps, simp add: emit_emits completed_def)
next
  case (Cons r Rs)
  obtain st r' where r': "retrieve_next E (events s) write_queue2 = (st, r')" by fastforce
  then have r: "st = STATUS_SUCCESS" "r' = r"
    using queue_worksD(1) [OF assms(1), of "events s"] Cons.prems by (simp_all add: first_request_def same_answer_def)
  let ?es = "[Queue_retrieve write_queue2 STATUS_SUCCESS r,
    Request_complete r STATUS_SUCCESS (unat (of_nat (request_length E r) :: u32))]"
  have "queue_contents write_queue2 (events (emits ?es s)) = Rs" using Cons.prems by simp
  from Cons.IH [OF this] obtain es where IH: "alls_loop E (emits ?es s) = Some (emits es (emits ?es s))"
    "completed es = Rs" "queue_contents write_queue2 (rev es @ events (emits ?es s)) = []" by blast
  have "alls_loop E s = alls_loop E (emits ?es s)"
    using r' r by (subst alls_loop.simps) (simp add: emit_emits emits_emits)
  with IH show ?case by (intro exI [of _ "?es @ es"]) (simp add: emits_emits)
qed

section \<open>Properties\<close>

text \<open>What the interrupt routine schedules for the interrupts \<open>v\<close>, in order.\<close>

definition scheduled :: "bool \<Rightarrow> u32 \<Rightarrow> dpc list" where
  "scheduled dma v =
     (if v = 0 then [] else
        (if dma then (if bit v 2 then [timestamp_dpc] else []) @
             (if bit v 10 \<or> bit v 12 \<or> bit v 1 \<or> bit v 0 \<or> bit v 2 then [process_read_dpc] else [])
         else (if bit v 2 \<or> bit v 1 \<or> bit v 0 \<or> bit v 3 \<or> bit v 4 then [iframe_dpc] else []) @
             (if bit v 16 \<or> bit v 18 \<or> bit v 17 then [oframe_dpc] else [])) @
        (if bit v 17 then [alls_dpc] else []) @ [isr_alert_dpc])"

lemma single_bits:
  "(v AND RFE \<noteq> 0) = bit (v :: u32) 2" "(v AND ALLS \<noteq> 0) = bit v 17"
  "(v AND (DR_HI OR DR_FE OR RFT OR RFS OR RFE) \<noteq> 0) =
     (bit v 10 \<or> bit v 12 \<or> bit v 1 \<or> bit v 0 \<or> bit v 2)"
  "(v AND (TFT OR TDU OR ALLS) \<noteq> 0) = (bit v 16 \<or> bit v 18 \<or> bit v 17)"
  "(v AND (RFE OR RFT OR RFS OR RFO OR RDO) \<noteq> 0) = (bit v 2 \<or> bit v 1 \<or> bit v 0 \<or> bit v 3 \<or> bit v 4)"
proof -
  have one: "(v AND push_bit n 1 \<noteq> 0) = bit v n" for n
    by (rule bit_iff_and_push_bit_not_eq_0 [symmetric])
  have or: "(v AND (a OR b) \<noteq> 0) = (v AND a \<noteq> 0 \<or> v AND b \<noteq> 0)" for a b :: u32
    by (simp only: bit.conj_disj_distrib or_eq_0_iff de_Morgan_conj)
  have bits: "(v AND RFE \<noteq> 0) = bit v 2" "(v AND ALLS \<noteq> 0) = bit v 17" "(v AND DR_HI \<noteq> 0) = bit v 10"
    "(v AND DR_FE \<noteq> 0) = bit v 12" "(v AND RFT \<noteq> 0) = bit v 1" "(v AND RFS \<noteq> 0) = bit v 0"
    "(v AND TFT \<noteq> 0) = bit v 16" "(v AND TDU \<noteq> 0) = bit v 18" "(v AND RFO \<noteq> 0) = bit v 3"
    "(v AND RDO \<noteq> 0) = bit v 4"
    using one [of 2] one [of 17] one [of 10] one [of 12] one [of 1] one [of 0] one [of 16] one [of 18]
      one [of 3] one [of 4] by (simp_all only: push_bit_eq_mult mult_1 power_0, simp_all)
  show "(v AND RFE \<noteq> 0) = bit (v :: u32) 2" "(v AND ALLS \<noteq> 0) = bit v 17" by (rule bits)+
  show "(v AND (DR_HI OR DR_FE OR RFT OR RFS OR RFE) \<noteq> 0) =
     (bit v 10 \<or> bit v 12 \<or> bit v 1 \<or> bit v 0 \<or> bit v 2)"
    "(v AND (TFT OR TDU OR ALLS) \<noteq> 0) = (bit v 16 \<or> bit v 18 \<or> bit v 17)"
    "(v AND (RFE OR RFT OR RFS OR RFO OR RDO) \<noteq> 0) = (bit v 2 \<or> bit v 1 \<or> bit v 0 \<or> bit v 3 \<or> bit v 4)"
    unfolding or bits by blast+
qed

lemma enqueue_if_eq: "enqueue_if b d s = emits (if b then [Dpc_enqueue d] else []) s"
  by (simp add: enqueue_if_def emit_emits)

lemma map_if_enqueue: "map f (if b then [d] else []) = (if b then [f d] else [])"
  by simp

text \<open>The interrupt routine reads the interrupt register once. If no interrupt is
  pending it claims nothing and changes nothing; otherwise the pending bits are added to the
  ones not yet reported, and exactly the deferred routines of the pending interrupts are
  scheduled, for the FIFO or for the DMA engine, the alert last; nothing else changes.\<close>

lemma isr_schedules:
  "let v = hw_reg E (port_card s) (events s) 0 (port_offset s 0 ISR_OFFSET)
   in fscc_isr E s =
     (if v = 0 then FALSE else TRUE,
      emits (rd (port_card s) 0 (port_offset s 0 ISR_OFFSET) v #
             map Dpc_enqueue (scheduled (fscc_port_uses_dma s \<noteq> 0) v))
        (s\<lparr>last_isr_value := last_isr_value s OR v\<rparr>))"
proof -
  let ?v = "hw_reg E (port_card s) (events s) 0 (port_offset s 0 ISR_OFFSET)"
  let ?e = "rd (port_card s) 0 (port_offset s 0 ISR_OFFSET) ?v"
  have read: "fscc_port_get_register E 0 ISR_OFFSET s = (?v, emits [?e] s)" unfolding get_register_eq Let_def ..
  show ?thesis
  proof (cases "?v = 0")
    case True
    then show ?thesis unfolding Let_def fscc_isr_def read split_conv by (simp add: scheduled_def)
  next
    case False
    let ?t = "s\<lparr>last_isr_value := last_isr_value s OR ?v\<rparr>"
    have s2: "(emits [?e] s)\<lparr>last_isr_value := last_isr_value (emits [?e] s) OR ?v\<rparr> = emits [?e] ?t"
      by (simp add: emits_def)
    have dma: "fscc_port_uses_dma (emits es ?t) = fscc_port_uses_dma s" for es
      by (simp add: fscc_port_uses_dma_def)
    show ?thesis
      unfolding Let_def fscc_isr_def read split_conv if_not_P [OF False] s2 single_bits enqueue_if_eq
        emit_emits emits_emits dma scheduled_def
      by (cases "fscc_port_uses_dma s = 0")
        (simp_all only: dma emits_emits append_Cons append_Nil append_assoc map_append map_if_enqueue simp_thms if_True
          if_False list.map not_False_eq_True)
  qed
qed

text \<open>Property C23. The alert routine ends. It searches the queue up to the first request with a
  buffer that cannot be had (the whole queue if there is none), and of these requests it answers
  exactly those that track one of the interrupts that happened since it last ran, oldest first,
  each with the tracked interrupts that happened. The others stay in the queue in their order, and
  so do all requests from the unusable one on, whether they track what happened or not. No
  interrupt is reported twice.\<close>

theorem isr_alert_answers:
  assumes "queue_works E isr_queue" "inputs_as_asked E" "distinct (queue_contents isr_queue (events s))"
  shows "case isr_alert_worker E s of
      None \<Rightarrow> False
    | Some s' \<Rightarrow> (let hit = (\<lambda>r. last_isr_value s AND mask_of E r \<noteq> 0);
          Q = takeWhile (mask_readable E) (queue_contents isr_queue (events s))
        in completed (new_events s s') = filter hit Q \<and>
           outputs (new_events s s') = map (\<lambda>r. (r, u32_bytes (last_isr_value s AND mask_of E r))) (filter hit Q) \<and>
           queue_contents isr_queue (events s') = filter (\<lambda>r. \<not> hit r) Q @
             dropWhile (mask_readable E) (queue_contents isr_queue (events s)) \<and>
           s' = s\<lparr>last_isr_value := 0, events := events s'\<rparr>)"
proof -
  let ?t = "s\<lparr>last_isr_value := 0\<rparr>" and ?v = "last_isr_value s"
  let ?C = "queue_contents isr_queue (events s)"
  let ?Q = "takeWhile (mask_readable E) ?C" and ?U = "dropWhile (mask_readable E) ?C"
  have "searching (events ?t) [] (?Q @ ?U) None" using assms(3) by (simp add: searching_def)
  moreover have "list_all (mask_readable E) ([] @ ?Q)" by (auto simp: list_all_iff dest: set_takeWhileD)
  moreover have "?U = [] \<or> \<not> mask_readable E (hd ?U)" using hd_dropWhile [of "mask_readable E" ?C] by blast
  ultimately obtain es where "isr_alert_loop E ?v None ?t = Some (emits es ?t)"
    "completed es = filter (\<lambda>r. ?v AND mask_of E r \<noteq> 0) ?Q"
    "outputs es = map (\<lambda>r. (r, u32_bytes (?v AND mask_of E r))) (filter (\<lambda>r. ?v AND mask_of E r \<noteq> 0) ?Q)"
    "queue_contents isr_queue (rev es @ events s) = filter (\<lambda>r. ?v AND mask_of E r = 0) ?Q @ ?U"
    using isr_alert_loop_answers [OF assms(1,2), of ?t "[]" ?Q ?U None ?v] by auto
  then show ?thesis by (simp add: isr_alert_worker_def Let_def emits_def new_events_def)
qed

text \<open>Property C36. When the transmitter is done and writes wait for that, the routine ends and
  completes all of them in the order they were written, leaving none behind; otherwise it does
  nothing.\<close>

theorem alls_completes_writes:
  assumes "queue_works E write_queue2"
  shows "case alls_worker E s of
      None \<Rightarrow> False
    | Some s' \<Rightarrow> (if wait_on_write s \<noteq> 0
        then completed (new_events s s') = queue_contents write_queue2 (events s) \<and>
             queue_contents write_queue2 (events s') = [] \<and> s' = s\<lparr>events := events s'\<rparr>
        else s' = s)"
proof (cases "wait_on_write s = 0")
  case False
  from alls_loop_drains [OF assms refl] obtain es where "alls_loop E s = Some (emits es s)"
    "completed es = queue_contents write_queue2 (events s)"
    "queue_contents write_queue2 (rev es @ events s) = []" by blast
  with False show ?thesis by (simp add: alls_worker_def emits_def new_events_def)
qed (simp add: alls_worker_def)

text \<open>The blocked writes a history takes out of their queue.\<close>

definition taken_found :: "event list \<Rightarrow> request list" where
  "taken_found es = concat (map (\<lambda>e. case e of
     Queue_retrieve_found q r st \<Rightarrow> if NT_SUCCESS st then [r] else [] | _ \<Rightarrow> []) es)"

lemma taken_found_simps [simp]:
  "taken_found [] = []" "taken_found (es @ es') = taken_found es @ taken_found es'"
  "taken_found (Queue_retrieve_found q r st # es) = (if NT_SUCCESS st then [r] else []) @ taken_found es"
  "taken_found (Queue_find q p st t # es) = taken_found es"
  "taken_found (Request_complete r st n # es) = taken_found es"
  "taken_found (Dpc_enqueue d # es) = taken_found es" "completed (Dpc_enqueue d # es) = completed es"
  by (simp_all add: taken_found_def completed_def)

lemma taken_found_quiet: "list_all quiet es \<Longrightarrow> taken_found es = []"
  by (induction es) (auto simp: taken_found_def split: event.splits)

text \<open>The routine's events: it looks for a blocked write, may take it out of the queue, and then
  completes it, once.\<close>

definition found_run :: "request \<Rightarrow> NTSTATUS \<Rightarrow> NTSTATUS \<Rightarrow> event list \<Rightarrow> bool" where
  "found_run req st st2 es \<longleftrightarrow> (\<exists>rest. es = Queue_find blocking_request_queue None st req # rest \<and>
     (rest = [] \<or> (\<exists>fin. rest = Queue_retrieve_found blocking_request_queue req st2 # fin \<and>
        (if NT_SUCCESS st2 then answers_once req fin \<and> completed fin = [req] else fin = []))))"

lemma taken_found_about: "only_about req es \<Longrightarrow> taken_found es = []"
  by (induction es) (auto simp: taken_found_def only_about_def split: event.splits)

lemma found_run_once:
  "found_run req st st2 es \<Longrightarrow> completed es = taken_found es \<and> length (taken_found es) \<le> 1"
  by (auto simp: found_run_def answers_once_def taken_found_about split: if_splits)

lemma found_runI:
  "found_run req st st2 [Queue_find blocking_request_queue None st req]"
  "\<not> NT_SUCCESS st2 \<Longrightarrow> found_run req st st2
     [Queue_find blocking_request_queue None st req, Queue_retrieve_found blocking_request_queue req st2]"
  "NT_SUCCESS st2 \<Longrightarrow> found_run req st st2
     (Queue_find blocking_request_queue None st req # Queue_retrieve_found blocking_request_queue req st2 #
      Request_complete req st3 n # (if b then [Dpc_enqueue d] else []))"
  by (simp_all add: found_run_def answers_once_def)

text \<open>A blocked write is taken when there is one, the free descriptors hold it, and the queue and
  the request give it.\<close>

definition request_taken :: "dma_frame list \<Rightarrow> nat \<Rightarrow> NTSTATUS \<Rightarrow> NTSTATUS \<Rightarrow> NTSTATUS \<Rightarrow> bool" where
  "request_taken F len st st2 st3 \<longleftrightarrow>
     NT_SUCCESS st \<and> \<not> tx_space F < len \<and> NT_SUCCESS st2 \<and> NT_SUCCESS st3"

lemma request_worker_leaves:
  assumes find: "find_request E (events s) blocking_request_queue None = (st, req)"
    and found: "retrieve_found E (Queue_find blocking_request_queue None st req # events s)
      blocking_request_queue req = st2"
    and buf: "input_buffer E req (request_length E req) = (st3, buf)"
    and state: "tx_state fifo s P F" and small: "NT_SUCCESS st \<Longrightarrow> request_length E req < 2 ^ 29"
    and not_taken: "\<not> request_taken F (request_length E req) st st2 st3"
  shows "\<exists>es. request_worker E s = Some (emits es s) \<and> found_run req st st2 es \<and>
    (taken_found es \<noteq> [] \<longrightarrow> request_length E req \<le> tx_space F) \<and>
    Request_complete req STATUS_SUCCESS (request_length E req) \<notin> set es"
proof -
  let ?len = "request_length E req"
  let ?e1 = "Queue_find blocking_request_queue None st req"
  let ?e2 = "Queue_retrieve_found blocking_request_queue req st2"
  have "tx_state fifo (emits [?e1] s) P F" by (rule tx_state_cong [OF state]) simp_all
  note space = tx_space_result [OF this]
  have n: "NT_SUCCESS st \<Longrightarrow> unat (of_nat ?len :: u32) = ?len"
    using small by (simp add: unsigned_of_nat take_bit_nat_eq_self)
  consider "\<not> NT_SUCCESS st" | "NT_SUCCESS st" "tx_space F < ?len"
    | "NT_SUCCESS st" "\<not> tx_space F < ?len" "\<not> NT_SUCCESS st2"
    | "NT_SUCCESS st" "\<not> tx_space F < ?len" "NT_SUCCESS st2" "\<not> NT_SUCCESS st3"
    using not_taken by (auto simp: request_taken_def)
  then show ?thesis
  proof cases
    case 1
    then show ?thesis using found_runI(1)
      by (intro exI [of _ "[?e1]"]) (simp add: request_worker_def find emit_emits)
  next
    case 2
    with space n found_runI(1) show ?thesis
      by (intro exI [of _ "[?e1]"]) (simp add: request_worker_def find emit_emits Let_def)
  next
    case 3
    with space found n found_runI(2) show ?thesis by (intro exI [of _ "[?e1, ?e2]"])
        (simp add: request_worker_def find emit_emits emits_emits Let_def)
  next
    case 4
    with space buf found n found_runI(3) [of st2 req st st3 0 False] show ?thesis
      by (intro exI [of _ "[?e1, ?e2, Request_complete req st3 0]"])
        (simp add: request_worker_def find emit_emits emits_emits complete_def Let_def)
  qed
qed

lemma request_worker_takes:
  assumes find: "find_request E (events s) blocking_request_queue None = (st, req)"
    and found: "retrieve_found E (Queue_find blocking_request_queue None st req # events s)
      blocking_request_queue req = st2"
    and buf: "input_buffer E req (request_length E req) = (st3, buf)"
    and state: "tx_state fifo s P F" and len: "0 < request_length E req" "request_length E req < 2 ^ 29"
    and long: "request_length E req \<le> length buf"
    and is_taken: "request_taken F (request_length E req) st st2 st3"
  shows "\<exists>t P' F'. request_worker E s = Some (emits (Request_complete req STATUS_SUCCESS (request_length E req) #
        (if fscc_port_uses_dma t = 0 then [Dpc_enqueue oframe_dpc] else [])) t) \<and>
    tx_step (emits [Queue_find blocking_request_queue None st req, Queue_retrieve_found blocking_request_queue req st2] s) t \<and>
    tx_state fifo t (P @ P') F' \<and> map tx_entry P' =
      split_frame True (request_length E req) (take (request_length E req) buf) (map (\<lambda>f. unat (data_size f)) F)"
proof -
  let ?len = "request_length E req" and ?n = "of_nat (request_length E req) :: u32"
  let ?e1 = "Queue_find blocking_request_queue None st req"
  let ?s2 = "emits [?e1, Queue_retrieve_found blocking_request_queue req st2] s"
  have n: "unat ?n = ?len" using len by (simp add: unsigned_of_nat take_bit_nat_eq_self)
  have state': "tx_state fifo (emits es s) P F" for es by (rule tx_state_cong [OF state]) simp_all
  obtain t s3 P' F' where w: "fscc_user_write_frame E buf ?n ?s2 = Some (STATUS_SUCCESS, ?n, s3)"
    "user_tx_change ?s2 t" "io_step t s3" "tx_state fifo s3 (P @ P') F'"
    "map tx_entry P' = split_frame True ?len (take ?len buf) (map (\<lambda>f. unat (data_size f)) F)"
    using user_write_frame_result [OF state' [of "[?e1, Queue_retrieve_found blocking_request_queue req st2]"],
        of ?n buf E] is_taken len long n by (auto simp: request_taken_def)
  have step: "tx_step ?s2 s3"
    using tx_step_trans [OF user_tx_change_tx_step [OF w(2)] io_step_tx_step [OF w(3)]] .
  have "fscc_port_uses_dma (emits es' s3) = fscc_port_uses_dma s3" for es' by (simp add: fscc_port_uses_dma_def)
  then have "request_worker E s = Some (emits (Request_complete req STATUS_SUCCESS ?len #
      (if fscc_port_uses_dma s3 = 0 then [Dpc_enqueue oframe_dpc] else [])) s3)"
    using is_taken tx_space_result [OF state', of "[?e1]"] buf w(1) found
    by (simp add: request_worker_def find emit_emits emits_emits complete_def n Let_def request_taken_def)
  with step w(4,5) show ?thesis by blast
qed

text \<open>What the routine does, with everything that happens between taking the write and
  completing it.\<close>

lemma request_worker_result:
  assumes state: "tx_state fifo s P F" and "inputs_as_asked E"
    and find: "find_request E (events s) blocking_request_queue None = (st, req)"
    and found: "retrieve_found E (Queue_find blocking_request_queue None st req # events s)
      blocking_request_queue req = st2"
    and len: "NT_SUCCESS st \<Longrightarrow> 0 < request_length E req \<and> request_length E req < 2 ^ 29"
  shows "\<exists>s' es P' F'. request_worker E s = Some s' \<and> events s' = rev es @ events s \<and> found_run req st st2 es \<and>
    (taken_found es \<noteq> [] \<longrightarrow> request_length E req \<le> tx_space F) \<and>
    (fifo = tx_ring_ok True s \<longrightarrow> rings_kept s s') \<and>
    rx_descriptors s' = rx_descriptors s \<and> tx_state fifo s' (P @ P') F' \<and>
    map tx_entry P' =
      (if Request_complete req STATUS_SUCCESS (request_length E req) \<in> set es
       then split_frame True (request_length E req)
         (take (request_length E req) (snd (input_buffer E req (request_length E req))))
         (map (\<lambda>f. unat (data_size f)) F)
       else [])"
proof -
  obtain st3 buf where buf: "input_buffer E req (request_length E req) = (st3, buf)" by fastforce
  show ?thesis
  proof (cases "request_taken F (request_length E req) st st2 st3")
    case True
    then have ok: "NT_SUCCESS st" "NT_SUCCESS st2" "NT_SUCCESS st3" and fits: "request_length E req \<le> tx_space F"
      by (simp_all add: request_taken_def)
    have long: "request_length E req \<le> length buf"
      using assms(2) buf ok by (auto simp: inputs_as_asked_def split: prod.splits)
    let ?pre = "[Queue_find blocking_request_queue None st req, Queue_retrieve_found blocking_request_queue req st2]"
    let ?fin = "\<lambda>t. Request_complete req STATUS_SUCCESS (request_length E req) #
        (if fscc_port_uses_dma t = 0 then [Dpc_enqueue oframe_dpc] else [])"
    from request_worker_takes [OF find found buf state conjunct1 [OF len [OF ok(1)]] conjunct2 [OF len [OF ok(1)]] long True]
    obtain t P' F' where r: "request_worker E s = Some (emits (?fin t) t)" "tx_step (emits ?pre s) t"
      "tx_state fifo t (P @ P') F'" "map tx_entry P' = split_frame True (request_length E req)
        (take (request_length E req) buf) (map (\<lambda>f. unat (data_size f)) F)" by blast
    obtain es where es: "events t = rev es @ events (emits ?pre s)" "list_all quiet es" by (rule tx_step_events [OF r(2)])
    have kept: "rings_kept s (emits (?fin t) t)" if "fifo = tx_ring_ok True s"
    proof -
      have "tx_ring_ok True (emits ?pre s) = fifo" unfolding that by (rule tx_ring_same) simp_all
      then have "tx_ring_ok (tx_ring_ok True (emits ?pre s)) t" using tx_state_queue(3) [OF r(3)] by simp
      from rings_kept_trans [OF rings_kept_emits(1) rings_kept_trans [OF rings_kept_tx_step [OF r(2) this] rings_kept_emits(1)]]
      show ?thesis .
    qed
    have state': "tx_state fifo (emits (?fin t) t) (P @ P') F'" by (rule tx_state_cong [OF r(3)]) simp_all
    have "completed es = []" using taken_quiet [OF es(2)] by simp
    then have run: "found_run req st st2 (?pre @ es @ ?fin t)"
      using ok(2) answers_quiet [OF es(2)] only_about_quiet [OF es(2)] live_quiet [OF es(2)]
      by (simp add: found_run_def answers_once_def)
    have "rx_descriptors t = rx_descriptors s" using tx_stepD(4) [OF r(2)] by simp
    with r(1,4) es(1) kept state' run buf fits show ?thesis
      by (intro exI [of _ "emits (?fin t) t"] exI [of _ "?pre @ es @ ?fin t"] exI [of _ P'] exI [of _ F']) simp
  next
    case False
    obtain es where es: "request_worker E s = Some (emits es s)" "found_run req st st2 es"
      "taken_found es \<noteq> [] \<longrightarrow> request_length E req \<le> tx_space F"
      "Request_complete req STATUS_SUCCESS (request_length E req) \<notin> set es"
      using request_worker_leaves [OF find found buf state _ False] len by blast
    have "tx_state fifo (emits es s) P F" by (rule tx_state_cong [OF state]) simp_all
    with es show ?thesis by (intro exI [of _ "emits es s"] exI [of _ es] exI [of _ "[]"] exI [of _ F]) simp
  qed
qed

text \<open>Property C27. The routine for blocked writes takes a write out of its queue only when the
  free descriptors hold all of it, completes exactly what it takes, once, and queues its frame whole; in
  every other case the transmit queue is as before. It never accesses invalid memory, keeps the
  transmit ring well-formed and leaves the receive side alone. The write found has a length
  between 1 and \<open>2 ^ 29 - 1\<close>.\<close>

theorem request_worker_completes_once:
  assumes "tx_ring_ok fifo s" "inputs_as_asked E"
    and "0 < request_length E (snd (find_request E (events s) blocking_request_queue None))"
    and "request_length E (snd (find_request E (events s) blocking_request_queue None)) < 2 ^ 29"
  shows "case request_worker E s of
      None \<Rightarrow> False
    | Some s' \<Rightarrow> completed (new_events s s') = taken_found (new_events s s') \<and>
        length (completed (new_events s s')) \<le> 1 \<and>
        (taken_found (new_events s s') \<noteq> [] \<longrightarrow>
          request_length E (snd (find_request E (events s) blocking_request_queue None)) \<le> sum_list (map (\<lambda>f. unat (data_size f)) (tx_free s))) \<and>
        tx_ring_ok fifo s' \<and> rx_descriptors s' = rx_descriptors s \<and>
        (let req = snd (find_request E (events s) blocking_request_queue None); len = request_length E req
         in map tx_entry (tx_queue s') =
           (if Request_complete req STATUS_SUCCESS len \<in> set (new_events s s')
            then map tx_entry (tx_queue s) @ split_frame True len (take len (snd (input_buffer E req len)))
              (map (\<lambda>f. unat (data_size f)) (tx_free s))
            else map tx_entry (tx_queue s)))"
proof -
  obtain st req where find: "find_request E (events s) blocking_request_queue None = (st, req)" by fastforce
  have "0 < request_length E req \<and> request_length E req < 2 ^ 29" using assms(3,4) find by simp
  with request_worker_result [OF tx_ring_ok_state [OF assms(1)] assms(2) find refl]
  obtain s' es P' F' st2 where r: "request_worker E s = Some s'" "events s' = rev es @ events s"
    "found_run req st st2 es" "taken_found es \<noteq> [] \<longrightarrow> request_length E req \<le> tx_space (tx_free s)"
    "rx_descriptors s' = rx_descriptors s" "tx_state fifo s' (tx_queue s @ P') F'"
    "map tx_entry P' = (if Request_complete req STATUS_SUCCESS (request_length E req) \<in> set es
       then split_frame True (request_length E req)
         (take (request_length E req) (snd (input_buffer E req (request_length E req))))
         (map (\<lambda>f. unat (data_size f)) (tx_free s))
       else [])" by blast
  with found_run_once [OF r(3)] find tx_state_queue [OF r(6)] show ?thesis
    unfolding r(1) option.case new_events_eq [OF r(2)] by (simp add: Let_def)
qed

section \<open>On concrete ports\<close>

text \<open>An environment whose queues work as documented, in which request \<open>r\<close> tracks the
  interrupts \<open>r\<close> and writes six bytes, and a port with two interrupt requests, two finished
  writes and a blocked write.\<close>

definition queue_env :: env where
  "queue_env = example_env\<lparr>request_length := (\<lambda>r. 6),
     input_buffer := (\<lambda>r n. (STATUS_SUCCESS, of_nat r # replicate (n + 3) 0)),
     retrieve_next := (\<lambda>h q. first_request (queue_contents q h)),
     find_request := (\<lambda>h q prev. request_after prev (queue_contents q h)),
     retrieve_found := (\<lambda>h q r. if r \<in> set (queue_contents q h) then STATUS_SUCCESS else STATUS_NOT_FOUND)\<rparr>"

definition queues_port :: driver where
  "queues_port = free_port\<lparr>last_isr_value := 4, wait_on_write := 1,
     events := [Request_forward 3 blocking_request_queue STATUS_SUCCESS,
       Request_forward 12 write_queue2 STATUS_SUCCESS, Request_forward 11 write_queue2 STATUS_SUCCESS,
       Request_forward 5 isr_queue STATUS_SUCCESS, Request_forward 8 isr_queue STATUS_SUCCESS]\<rparr>"

lemma queue_env_works: "queue_works queue_env q"
  by (simp add: queue_works_def queue_env_def same_answer_def example_env_def)

lemma queues_port_contents:
  "queue_contents isr_queue (events queues_port) = [8, 5]"
  "queue_contents write_queue2 (events queues_port) = [11, 12]"
  "queue_contents blocking_request_queue (events queues_port) = [3]"
  by (simp_all add: queues_port_def)

lemma isr_alert_answers_witness:
  "case isr_alert_worker queue_env queues_port of
      None \<Rightarrow> False
    | Some s' \<Rightarrow> (let hit = (\<lambda>r. last_isr_value queues_port AND mask_of queue_env r \<noteq> 0);
          Q = takeWhile (mask_readable queue_env) (queue_contents isr_queue (events queues_port))
        in completed (new_events queues_port s') = filter hit Q \<and>
           outputs (new_events queues_port s') =
             map (\<lambda>r. (r, u32_bytes (last_isr_value queues_port AND mask_of queue_env r))) (filter hit Q) \<and>
           queue_contents isr_queue (events s') = filter (\<lambda>r. \<not> hit r) Q @
             dropWhile (mask_readable queue_env) (queue_contents isr_queue (events queues_port)) \<and>
           s' = queues_port\<lparr>last_isr_value := 0, events := events s'\<rparr>)"
  by (rule isr_alert_answers [OF queue_env_works])
    (simp_all add: queues_port_contents, simp add: inputs_as_asked_def queue_env_def)

lemma alls_completes_writes_witness:
  "case alls_worker queue_env queues_port of
      None \<Rightarrow> False
    | Some s' \<Rightarrow> (if wait_on_write queues_port \<noteq> 0
        then completed (new_events queues_port s') = queue_contents write_queue2 (events queues_port) \<and>
             queue_contents write_queue2 (events s') = [] \<and> s' = queues_port\<lparr>events := events s'\<rparr>
        else s' = queues_port)"
  by (rule alls_completes_writes [OF queue_env_works])

lemma request_worker_completes_once_witness:
  "case request_worker queue_env queues_port of
      None \<Rightarrow> False
    | Some s' \<Rightarrow> completed (new_events queues_port s') = taken_found (new_events queues_port s') \<and>
        length (completed (new_events queues_port s')) \<le> 1 \<and>
        (taken_found (new_events queues_port s') \<noteq> [] \<longrightarrow>
          request_length queue_env (snd (find_request queue_env (events queues_port) blocking_request_queue None))
            \<le> sum_list (map (\<lambda>f. unat (data_size f)) (tx_free queues_port))) \<and>
        tx_ring_ok True s' \<and> rx_descriptors s' = rx_descriptors queues_port \<and>
        (let req = snd (find_request queue_env (events queues_port) blocking_request_queue None);
             len = request_length queue_env req
         in map tx_entry (tx_queue s') =
           (if Request_complete req STATUS_SUCCESS len \<in> set (new_events queues_port s')
            then map tx_entry (tx_queue queues_port) @
              split_frame True len (take len (snd (input_buffer queue_env req len)))
              (map (\<lambda>f. unat (data_size f)) (tx_free queues_port))
            else map tx_entry (tx_queue queues_port)))"
  by (rule request_worker_completes_once)
    (simp_all add: tx_ring_defs queues_port_def queue_env_def example_defs inputs_as_asked_def)

end
