(* ===== verification/Fscc_Clock.thy ===== *)
theory Fscc_Clock
  imports Fscc_Registers
begin

text \<open>
  Programming the clock generator (\<open>fscc_port_set_clock_bits\<close>, \<open>port.c\<close>): the 20 bytes
  of clock bits leave the card serially over three pins of \<open>FCR\<close> (data, clock, strobe;
  one set of pins per channel), one repeated write of 323 words. The specification is a
  receiver that takes in the data pin at each rising edge of the clock pin.
\<close>

section \<open>Model\<close>

abbreviation (input) STRB_BASE :: u32 where "STRB_BASE \<equiv> 0x00000008"
abbreviation (input) DTA_BASE :: u32 where "DTA_BASE \<equiv> 0x00000001"
abbreviation (input) CLK_BASE :: u32 where "CLK_BASE \<equiv> 0x00000002"

text \<open>Enabling or disabling the crystal, by the product: \<open>&&\<close> and \<open>||\<close> read \<open>VSTR\<close>
  again for each test that is reached.\<close>

definition disable_xtal :: "env \<Rightarrow> driver \<Rightarrow> bool \<times> driver" where
  "disable_xtal E s =
     (let (pdev, s1) = fscc_port_get_PDEV E s;
          (old, s2) = (if pdev = 0x0f
                       then (let (prev, s2) = fscc_port_get_PREV E s1 in (prev \<le> 6, s2))
                       else (False, s1))
      in if old then (True, s2)
         else (let (pdev, s3) = fscc_port_get_PDEV E s2 in (pdev = 0x16, s3)))"

text \<open>The body of the loop over the bits \<open>j\<close> of a byte, and the loop over the bytes \<open>i\<close>;
  the words stored to \<open>data\<close> and the last value of \<open>new_fcr_value\<close>.\<close>

fun clock_byte :: "u32 \<Rightarrow> u32 \<Rightarrow> u8 \<Rightarrow> nat \<Rightarrow> u32 \<Rightarrow> u32 list \<times> u32" where
  "clock_byte dta_value clk_value byte 0 new_fcr_value = ([], new_fcr_value)"
| "clock_byte dta_value clk_value byte (Suc j) new_fcr_value =
     (let bit = drop_bit j byte AND 1;
          v1 = (if bit \<noteq> 0 then new_fcr_value OR dta_value else new_fcr_value AND NOT dta_value);
          v2 = v1 OR clk_value;
          v3 = v2 AND NOT clk_value;
          (ws, v4) = clock_byte dta_value clk_value byte j v3
      in (v2 # v3 # ws, v4))"

fun clock_bytes :: "u32 \<Rightarrow> u32 \<Rightarrow> u8 list \<Rightarrow> nat \<Rightarrow> u32 \<Rightarrow> u32 list \<times> u32" where
  "clock_bytes dta_value clk_value bits 0 new_fcr_value = ([], new_fcr_value)"
| "clock_bytes dta_value clk_value bits (Suc i) new_fcr_value =
     (let (ws, v1) = clock_byte dta_value clk_value (bits ! i) 8 new_fcr_value;
          (ws', v2) = clock_bytes dta_value clk_value bits i v1
      in (ws @ ws', v2))"

definition pin_value :: "'a fscc_port_scheme \<Rightarrow> u32 \<Rightarrow> u32" where
  "pin_value s base = (if channel s = 1 then push_bit 8 base else base)"

definition clock_data :: "'a fscc_port_scheme \<Rightarrow> u8 list \<Rightarrow> u32 \<Rightarrow> u32 list" where
  "clock_data s bits orig_fcr_value =
     (let strb_value = pin_value s STRB_BASE;
          dta_value = pin_value s DTA_BASE;
          clk_value = pin_value s CLK_BASE;
          first = orig_fcr_value AND 0xfffff0f0;
          (ws, _) = clock_bytes dta_value clk_value bits 20 first;
          strobe = ((orig_fcr_value AND 0xfffff0f0) OR strb_value) AND NOT clk_value
      in [first] @ ws @ [strobe, orig_fcr_value])"

text \<open>The array of 323 words is written exactly, and the clock data is changed in place.\<close>

definition fscc_port_set_clock_bits ::
  "env \<Rightarrow> u8 list \<Rightarrow> driver \<Rightarrow> (u8 list \<times> driver) option" where
  "fscc_port_set_clock_bits E bits s =
     (let (dis, s1) = disable_xtal E s;
          bits = (if dis then bits[15 := bits ! 15 AND 0xfb]
                        else bits[15 := bits ! 15 OR 0x04]);
          allocated = pool_allocate E (events s1) (4 * 323);
          s2 = emit (Pool_allocate (4 * 323) allocated) s1
      in if \<not> allocated then Some (bits, s2)
         else (let (orig_fcr_value, s3) = fscc_card_get_register E 2 FCR_OFFSET s2;
                   data = clock_data s3 bits orig_fcr_value
               in if length data > 323 then None
                  else do {
                    s4 \<leftarrow> fscc_port_set_register_rep 2 FCR_OFFSET
                           (concat (map u32_bytes data)) (length data * 4) s3;
                    Some (bits, emit Pool_free s4) }))"

section \<open>The receiver\<close>

text \<open>What a receiver clocks in while the words appear on the pins: the data pin, at each
  rising edge of the clock pin.\<close>

fun shift_in :: "u32 \<Rightarrow> u32 \<Rightarrow> bool \<Rightarrow> u32 list \<Rightarrow> bool list" where
  "shift_in dta clk prev [] = []"
| "shift_in dta clk prev (w # ws) =
     (if \<not> prev \<and> w AND clk \<noteq> 0 then [w AND dta \<noteq> 0] else []) @
     shift_in dta clk (w AND clk \<noteq> 0) ws"

text \<open>The clock bits in the order they are sent: the last byte first, and the highest
  bit of a byte first.\<close>

definition byte_bits :: "u8 \<Rightarrow> nat \<Rightarrow> bool list" where
  "byte_bits byte n = map (\<lambda>j. bit byte j) (rev [0..<n])"

definition serial_bits :: "u8 list \<Rightarrow> nat \<Rightarrow> bool list" where
  "serial_bits bits n = concat (map (\<lambda>i. byte_bits (bits ! i) 8) (rev [0..<n]))"

text \<open>Words that differ from \<open>v\<close> only in the bits of the mask.\<close>

definition same_outside :: "u32 \<Rightarrow> u32 \<Rightarrow> u32 \<Rightarrow> bool" where
  "same_outside m v w \<longleftrightarrow> w AND NOT m = v AND NOT m"

lemma same_outside_iff: "same_outside m v w \<longleftrightarrow> (\<forall>n. \<not> bit m n \<longrightarrow> bit w n = bit v n)"
proof
  assume "same_outside m v w"
  then have same: "bit (w AND NOT m) n = bit (v AND NOT m) n" for n
    by (simp add: same_outside_def)
  show "\<forall>n. \<not> bit m n \<longrightarrow> bit w n = bit v n"
  proof (intro allI impI)
    fix n assume "\<not> bit m n"
    then show "bit w n = bit v n"
      using same [of n] bit_imp_le_length [of w n] bit_imp_le_length [of v n]
      by (cases "n < 32") (auto simp: bit_simps)
  qed
next
  assume same: "\<forall>n. \<not> bit m n \<longrightarrow> bit w n = bit v n"
  show "same_outside m v w" unfolding same_outside_def
    by (rule bit_word_eqI) (use same in \<open>auto simp: bit_simps\<close>)
qed

lemma bit_of_byte: "(drop_bit j (byte :: u8) AND 1 = 0) = (\<not> bit byte j)"
  by (simp add: and_one_eq bit_iff_odd_drop_bit odd_iff_mod_2_eq_one)

text \<open>One byte: from a word with the clock pin low, its bits are clocked in, and the clock
  pin is low again.\<close>

lemma word_and_single_bit:
  assumes "\<And>n. bit (m :: u32) n = (n = k)"
  shows "(w AND m = 0) = (\<not> bit w k)"
proof
  assume "w AND m = 0"
  then have "\<not> bit (w AND m) k" by simp
  then show "\<not> bit w k" by (simp add: bit_and_iff assms)
next
  assume "\<not> bit w k"
  then show "w AND m = 0"
    by (intro bit_word_eqI) (auto simp: bit_and_iff assms)
qed

locale pins =
  fixes dta clk :: u32 and d c :: nat
  assumes dta_bits: "bit dta n = (n = d)"
    and clk_bits: "bit clk n = (n = c)"
    and apart: "d \<noteq> c"
begin

lemmas pin_bits = dta_bits clk_bits

lemma pin_tests: "(w AND dta = 0) = (\<not> bit w d)" "(w AND clk = 0) = (\<not> bit w c)"
  using word_and_single_bit [OF dta_bits] word_and_single_bit [OF clk_bits] by blast+

lemma pins_nonzero: "dta \<noteq> 0" "clk \<noteq> 0"
  using pin_bits(1) [of d] pin_bits(2) [of c] by (metis bit_0_eq bot_apply bot_bool_def)+

lemma word_bits:
  "bit ((v OR dta) OR clk) c" "bit ((v AND NOT dta) OR clk) c"
  "bit ((v OR dta) OR clk) d" "\<not> bit ((v AND NOT dta) OR clk) d"
  "\<not> bit (w AND NOT clk) c"
  using apart by (simp_all add: bit_simps pin_bits)

lemma low_again: "same_outside (dta OR clk) v w \<Longrightarrow> same_outside (dta OR clk) v (w AND NOT clk)"
  using apart by (auto simp: same_outside_iff bit_simps pin_bits dest: bit_imp_le_length)

lemma set_bits:
  "same_outside (dta OR clk) v v1 \<Longrightarrow>
   same_outside (dta OR clk) v ((if b then v1 OR dta else v1 AND NOT dta) OR clk)"
  using apart by (auto simp: same_outside_iff bit_simps pin_bits dest: bit_imp_le_length)

lemma clock_byte_sends:
  assumes "clock_byte dta clk byte n v = (ws, v')" "\<not> bit v c" "same_outside (dta OR clk) v0 v"
  shows "shift_in dta clk False (ws @ rest) = byte_bits byte n @ shift_in dta clk False rest \<and>
    \<not> bit v' c \<and> length ws = 2 * n \<and> list_all (same_outside (dta OR clk) v0) (v' # ws)"
  using assms
proof (induction n arbitrary: v ws)
  case 0
  then show ?case by (simp add: byte_bits_def)
next
  case (Suc n)
  let ?v2 = "(if bit byte n then v OR dta else v AND NOT dta) OR clk"
  let ?v3 = "?v2 AND NOT clk"
  obtain ws' v4 where rec: "clock_byte dta clk byte n ?v3 = (ws', v4)" by fastforce
  with Suc.prems(1) have ws: "ws = ?v2 # ?v3 # ws'" "v' = v4"
    by (auto simp: Let_def bit_of_byte split: if_splits)
  have same: "same_outside (dta OR clk) v0 ?v2" "same_outside (dta OR clk) v0 ?v3"
    using set_bits [OF Suc.prems(3)] low_again by blast+
  have "\<not> bit ?v3 c" by (rule word_bits)
  from Suc.IH [OF rec [folded ws(2)] this same(2)] same show ?case
    unfolding ws using word_bits
    by (cases "bit byte n") (simp_all add: byte_bits_def pin_tests pins_nonzero)
qed

lemma clock_bytes_sends:
  assumes "clock_bytes dta clk bits n v = (ws, v')" "\<not> bit v c"
    "same_outside (dta OR clk) v0 v"
  shows "shift_in dta clk False (ws @ rest) =
      serial_bits bits n @ shift_in dta clk False rest \<and>
    \<not> bit v' c \<and> length ws = 16 * n \<and> list_all (same_outside (dta OR clk) v0) (v' # ws)"
  using assms
proof (induction n arbitrary: v ws)
  case 0
  then show ?case by (simp add: serial_bits_def)
next
  case (Suc n)
  obtain ws1 v1 where 1: "clock_byte dta clk (bits ! n) 8 v = (ws1, v1)" by fastforce
  obtain ws2 v2 where 2: "clock_bytes dta clk bits n v1 = (ws2, v2)" by fastforce
  from Suc.prems(1) 1 2 have ws: "ws = ws1 @ ws2" "v' = v2" by (auto simp: Let_def)
  from clock_byte_sends [OF 1 Suc.prems(2,3), of "ws2 @ rest"]
  have b: "shift_in dta clk False (ws1 @ ws2 @ rest) =
      byte_bits (bits ! n) 8 @ shift_in dta clk False (ws2 @ rest)"
    "\<not> bit v1 c" "length ws1 = 16" "list_all (same_outside (dta OR clk) v0) ws1"
    "same_outside (dta OR clk) v0 v1" by auto
  from Suc.IH [OF 2 [folded ws(2)] b(2,5)] b show ?case
    unfolding ws by (simp add: serial_bits_def)
qed

end

text \<open>The pins of the two channels in \<open>FCR\<close>.\<close>

lemma bit_pins:
  "bit (0x1 :: u32) n = (n = 0)" "bit (0x2 :: u32) n = (n = 1)"
  "bit (0x100 :: u32) n = (n = 8)" "bit (0x200 :: u32) n = (n = 9)"
proof -
  have "bit (push_bit m (1 :: u32)) n = (n = m)" if "m < 32" for m
    using that by (auto simp: push_bit_of_1 bit_exp_iff)
  from this [of 0] this [of 1] this [of 8] this [of 9]
  show "bit (0x1 :: u32) n = (n = 0)" "bit (0x2 :: u32) n = (n = 1)"
    "bit (0x100 :: u32) n = (n = 8)" "bit (0x200 :: u32) n = (n = 9)" by simp_all
qed

interpretation channel0: pins "0x1" "0x2" 0 1
  by unfold_locales (rule bit_pins, rule bit_pins, simp)

interpretation channel1: pins "0x100" "0x200" 8 9
  by unfold_locales (rule bit_pins, rule bit_pins, simp)

section \<open>The data that is written\<close>

lemma clear_pins:
  fixes v :: u32
  shows "n \<in> {0, 1, 3, 8, 9, 11} \<Longrightarrow> \<not> bit (v AND 0xfffff0f0) n"
    and "same_outside 0xf0f v (v AND 0xfffff0f0)"
proof -
  have mask: "(0xfffff0f0 :: u32) = NOT 0xf0f" by simp
  show "n \<in> {0, 1, 3, 8, 9, 11} \<Longrightarrow> \<not> bit (v AND 0xfffff0f0) n"
    by (auto simp: bit_simps)
  show "same_outside 0xf0f v (v AND 0xfffff0f0)"
    by (simp add: same_outside_def mask and.assoc)
qed

lemma same_outside_mono:
  assumes "same_outside m v w" "same_outside m' u v" "m OR m' = m'"
  shows "same_outside m' u w"
  using assms(1,2) unfolding same_outside_iff
  by (metis assms(3) bit_or_iff)

text \<open>For pins that are three different bits of the mask: the receiver gets the clock
  bits, the strobe pin is raised once, after the last of them, and no other bit of \<open>FCR\<close>
  changes.\<close>

context pins
begin

lemma clock_stream:
  assumes first: "first = orig AND 0xfffff0f0" "\<not> bit first c"
    and strb: "\<And>n. bit (strb :: u32) n = (n = t)" "t \<noteq> d" "t \<noteq> c" "\<not> bit first t"
    and within: "dta OR clk OR strb OR 0xf0f = 0xf0f"
    and run: "clock_bytes dta clk bits 20 first = (ws, v)"
  defines "stream \<equiv> [first] @ ws @ [(first OR strb) AND NOT clk]"
  shows "length stream = 322"
    and "shift_in dta clk False stream = serial_bits bits 20"
    and "map (\<lambda>w. w AND strb \<noteq> 0) stream = replicate 321 False @ [True]"
    and "list_all (same_outside 0xf0f orig) stream"
proof -
  let ?last = "(first OR strb) AND NOT clk"
  have "same_outside (dta OR clk) first first" by (simp add: same_outside_def)
  from clock_bytes_sends [OF run first(2) this, of "[?last]"]
  have send: "shift_in dta clk False (ws @ [?last]) =
      serial_bits bits 20 @ shift_in dta clk False [?last]"
    "length ws = 320" "list_all (same_outside (dta OR clk) first) ws" by auto
  have low: "\<not> bit ?last c" using word_bits by blast
  from send show "length stream = 322" by (simp add: stream_def)
  from send low first(2) show "shift_in dta clk False stream = serial_bits bits 20"
    by (simp add: stream_def pin_tests)
  have t32: "t < 32" using strb(1) [of t] bit_imp_le_length [of strb t] by auto
  have st: "(w AND strb = 0) = (\<not> bit w t)" for w by (rule word_and_single_bit [OF strb(1)])
  have "\<not> bit w t" if "same_outside (dta OR clk) first w" for w
    using that strb(2,3,4) by (auto simp: same_outside_iff bit_or_iff pin_bits)
  with send(3) have "list_all (\<lambda>w. \<not> bit w t) ws"
    by (auto simp: list_all_iff)
  then have quiet: "map (\<lambda>w. w AND strb \<noteq> 0) ws = replicate 320 False"
    unfolding send(2) [symmetric] by (induction ws) (auto simp: st)
  have "bit ?last t" using strb t32 by (simp add: bit_simps pin_bits)
  then have "map (\<lambda>w. w AND strb \<noteq> 0) stream = False # (replicate 320 False @ [True])"
    using quiet strb(4) by (simp add: stream_def st)
  also have "False # (replicate 320 False @ [True]) = replicate 321 False @ [True]"
    by (simp add: numeral_eq_Suc)
  finally show "map (\<lambda>w. w AND strb \<noteq> 0) stream = replicate 321 False @ [True]" .
  have base: "same_outside 0xf0f orig first" unfolding first by (rule clear_pins)
  have in_mask: "bit (0xf0f :: u32) n" if "bit dta n \<or> bit clk n \<or> bit strb n" for n
    using that within by (metis bit_or_iff)
  have mid: "same_outside 0xf0f orig w" if "same_outside (dta OR clk) first w" for w
    using that base in_mask unfolding same_outside_iff by (metis bit_or_iff)
  have last: "same_outside 0xf0f orig ?last"
    using base in_mask unfolding same_outside_iff
    by (auto simp: bit_simps dest: bit_imp_le_length)
  from send(3) mid have "list_all (same_outside 0xf0f orig) ws" by (auto simp: list_all_iff)
  with base last show "list_all (same_outside 0xf0f orig) stream" by (simp add: stream_def)
qed

end

lemma get_PDEV_PREV_eq:
  "fscc_port_get_PDEV E s =
     (let v = hw_reg E (port_card s) (events s) 0 VSTR_OFFSET
      in (ucast (drop_bit 16 (v AND 0xFFFF0000)), emits [rd (port_card s) 0 VSTR_OFFSET v] s))"
  "fscc_port_get_PREV E s =
     (let v = hw_reg E (port_card s) (events s) 0 VSTR_OFFSET
      in (ucast (drop_bit 8 (v AND 0x0000FF00)), emits [rd (port_card s) 0 VSTR_OFFSET v] s))"
  by (simp_all add: fscc_port_get_PDEV_def fscc_port_get_PREV_def get_register_eq Let_def)

lemma disable_xtal_reads:
  "disable_xtal E s = (dis, s') \<Longrightarrow>
   \<exists>vs. s' = emits (map (rd (port_card s) 0 VSTR_OFFSET) vs) s"
proof -
  assume run: "disable_xtal E s = (dis, s')"
  have step: "\<exists>ws. emits [rd (port_card s) 0 VSTR_OFFSET w]
      (emits (map (rd (port_card s) 0 VSTR_OFFSET) vs) s) =
      emits (map (rd (port_card s) 0 VSTR_OFFSET) ws) s" for w vs
    by (intro exI [of _ "vs @ [w]"]) (simp add: emits_emits)
  obtain pdev s1 where 1: "fscc_port_get_PDEV E s = (pdev, s1)" by fastforce
  then obtain v1 where s1: "s1 = emits (map (rd (port_card s) 0 VSTR_OFFSET) [v1]) s"
    by (auto simp: get_PDEV_PREV_eq Let_def)
  obtain old s2 where 2: "(if pdev = 0x0f
      then (let (prev, s2) = fscc_port_get_PREV E s1 in (prev \<le> 6, s2)) else (False, s1)) = (old, s2)"
    by fastforce
  have "\<exists>vs. s2 = emits (map (rd (port_card s) 0 VSTR_OFFSET) vs) s"
  proof (cases "pdev = 0x0f")
    case True
    with 2 s1 step [of _ "[v1]"] show ?thesis by (auto simp: get_PDEV_PREV_eq Let_def)
  next
    case False
    with 2 have "s2 = s1" by simp
    with s1 show ?thesis by blast
  qed
  then obtain vs2 where s2: "s2 = emits (map (rd (port_card s) 0 VSTR_OFFSET) vs2) s" by blast
  from run 1 2 have "s' = s2 \<or> s' = snd (fscc_port_get_PDEV E s2)"
    by (auto simp: disable_xtal_def Let_def split: if_splits prod.splits)
  then show ?thesis using step [of _ vs2] s2
    by (auto simp: get_PDEV_PREV_eq Let_def)
qed

lemma set_register_rep_words:
  assumes "b \<le> 2" "ws \<noteq> []"
  shows "fscc_port_set_register_rep b off (concat (map u32_bytes ws)) (4 * length ws) s =
    Some (emits (map (wr (port_card s) b (port_offset s b off)) ws) s)"
proof -
  have wf: "words_for (4 * length ws) = length ws" by (simp add: words_for_def)
  have "length (concat (map u32_bytes ws)) = 4 * length ws"
    by (simp add: length_concat o_def sum_list_triv)
  with assms have "fscc_card_set_register_rep b (port_offset s b off) (concat (map u32_bytes ws))
      (4 * length ws) s = Some (emits (map (wr (port_card s) b (port_offset s b off))
        (le_words (length ws) (concat (map u32_bytes ws)))) s)"
    by (subst fscc_card_set_register_rep_eq) (simp_all add: wf)
  with assms show ?thesis
    using le_words_of_words [of ws "[]"] by (simp add: fscc_port_set_register_rep_def)
qed

text \<open>The two channels' pins, as the code computes them.\<close>

lemma pin_value_simps [simp]:
  "pin_value s b = (if channel s = 1 then push_bit 8 b else b)"
  by (simp add: pin_value_def)

lemma clock_data_stream:
  fixes s :: "'a fscc_port_scheme"
  defines "dta \<equiv> pin_value s DTA_BASE" and "clk \<equiv> pin_value s CLK_BASE"
    and "strb \<equiv> pin_value s STRB_BASE"
  obtains data where "clock_data s bits orig = data @ [orig]" "length data = 322"
    "shift_in dta clk False data = serial_bits bits 20"
    "map (\<lambda>w. w AND strb \<noteq> 0) data = replicate 321 False @ [True]"
    "list_all (same_outside 0xf0f orig) data"
proof -
  let ?first = "orig AND 0xfffff0f0 :: u32"
  obtain ws v where run: "clock_bytes dta clk bits 20 ?first = (ws, v)" by fastforce
  have shape: "clock_data s bits orig = ([?first] @ ws @ [(?first OR strb) AND NOT clk]) @ [orig]"
    using run by (simp add: clock_data_def dta_def clk_def strb_def Let_def del: pin_value_simps)
  have three: "bit (0x8 :: u32) n = (n = 3)" "bit (0x800 :: u32) n = (n = 11)" for n
  proof -
    have "bit (push_bit m (1 :: u32)) n = (n = m)" if "m < 32" for m
      using that by (auto simp: push_bit_of_1 bit_exp_iff)
    from this [of 3] this [of 11] show "bit (0x8 :: u32) n = (n = 3)"
      "bit (0x800 :: u32) n = (n = 11)" by simp_all
  qed
  show thesis
  proof (cases "channel s = 1")
    case True
    then have pins: "dta = 0x100" "clk = 0x200" "strb = 0x800"
      by (simp_all add: dta_def clk_def strb_def)
    note stream = channel1.clock_stream [OF refl clear_pins(1) three(2) _ _ clear_pins(1) _ run [unfolded pins]]
    show thesis by (rule that [OF shape]; (unfold pins)?; rule stream; simp)
  next
    case False
    then have pins: "dta = 0x1" "clk = 0x2" "strb = 0x8"
      by (simp_all add: dta_def clk_def strb_def)
    note stream = channel0.clock_stream [OF refl clear_pins(1) three(1) _ _ clear_pins(1) _ run [unfolded pins]]
    show thesis by (rule that [OF shape]; (unfold pins)?; rule stream; simp)
  qed
qed

text \<open>The clock bits as they are sent: only the bit of the crystal is changed.\<close>

definition xtal_bit :: "u8 list \<Rightarrow> u8 list \<Rightarrow> bool" where
  "xtal_bit bits bits' \<longleftrightarrow> bits' \<in> {bits[15 := bits ! 15 AND 0xfb], bits[15 := bits ! 15 OR 0x04]}"

lemma clock_bits_result:
  "\<exists>bits' es. fscc_port_set_clock_bits E bits s = Some (bits', emits es s) \<and> calm es \<and>
     xtal_bit bits bits' \<and>
     (if Pool_allocate (4 * 323) False \<in> set es then writes es = []
      else \<exists>data orig. writes es = map (wr (port_card s) 2 FCR_OFFSET) (data @ [orig]) \<and>
         length data = 322 \<and> rd (port_card s) 2 FCR_OFFSET orig \<in> set es \<and>
         shift_in (pin_value s DTA_BASE) (pin_value s CLK_BASE) False data = serial_bits bits' 20 \<and>
         map (\<lambda>w. w AND pin_value s STRB_BASE \<noteq> 0) data = replicate 321 False @ [True] \<and>
         list_all (same_outside 0xf0f orig) data)"
proof -
  obtain dis s1 where dis: "disable_xtal E s = (dis, s1)" by fastforce
  then obtain vs where s1: "s1 = emits (map (rd (port_card s) 0 VSTR_OFFSET) vs) s"
    using disable_xtal_reads by blast
  let ?bits = "if dis then bits[15 := bits ! 15 AND 0xfb] else bits[15 := bits ! 15 OR 0x04]"
  have xtal: "xtal_bit bits ?bits" by (simp add: xtal_bit_def)
  let ?ok = "pool_allocate E (events s1) (4 * 323)"
  let ?es2 = "map (rd (port_card s) 0 VSTR_OFFSET) vs @ [Pool_allocate (4 * 323) ?ok]"
  show ?thesis
  proof (cases ?ok)
    case False
    then have "fscc_port_set_clock_bits E bits s = Some (?bits, emits ?es2 s)" using dis
      by (simp add: fscc_port_set_clock_bits_def s1 Let_def emit_emits emits_emits)
    moreover have "writes ?es2 = []" "calm ?es2" "Pool_allocate (4 * 323) False \<in> set ?es2"
      using False by (simp_all add: calm_def list_all_iff)
    ultimately show ?thesis using xtal by (intro exI [of _ ?bits] exI [of _ ?es2]) simp
  next
    case True
    let ?orig = "hw_reg E (port_card s) (events (emits ?es2 s)) 2 FCR_OFFSET"
    let ?es3 = "?es2 @ [rd (port_card s) 2 FCR_OFFSET ?orig]"
    let ?s3 = "emits ?es3 s"
    have pin: "pin_value ?s3 = pin_value s" by (rule ext) (simp add: pin_value_def)
    obtain data where d: "clock_data ?s3 ?bits ?orig = data @ [?orig]" "length data = 322"
      "shift_in (pin_value s DTA_BASE) (pin_value s CLK_BASE) False data = serial_bits ?bits 20"
      "map (\<lambda>w. w AND pin_value s STRB_BASE \<noteq> 0) data = replicate 321 False @ [True]"
      "list_all (same_outside 0xf0f ?orig) data"
      using clock_data_stream [of ?s3 ?bits ?orig] unfolding pin by metis
    have "fscc_port_set_register_rep 2 FCR_OFFSET (concat (map u32_bytes (data @ [?orig])))
        1292 ?s3 =
      Some (emits (map (wr (port_card s) 2 FCR_OFFSET) (data @ [?orig])) ?s3)"
      using set_register_rep_words [of 2 "data @ [?orig]" FCR_OFFSET ?s3] d(2) by simp
    then have run: "fscc_port_set_clock_bits E bits s = Some (?bits,
        emits (?es3 @ map (wr (port_card s) 2 FCR_OFFSET) (data @ [?orig]) @ [Pool_free]) s)"
      using True dis d(1,2)
      by (simp add: fscc_port_set_clock_bits_def s1 Let_def emit_emits emits_emits
          fscc_card_get_register_eq del: pin_value_simps)
    let ?es = "?es3 @ map (wr (port_card s) 2 FCR_OFFSET) (data @ [?orig]) @ [Pool_free]"
    have no: "Pool_allocate (4 * 323) False \<notin> set ?es" using True by (auto simp: rd_def wr_def)
    have ws: "writes ?es = map (wr (port_card s) 2 FCR_OFFSET) (data @ [?orig])" by simp
    have read: "rd (port_card s) 2 FCR_OFFSET ?orig \<in> set ?es" by simp
    have quiet: "calm ?es" using True by (auto simp: calm_def list_all_iff)
    show ?thesis
      by (intro exI [of _ ?bits] exI [of _ ?es], unfold run if_not_P [OF no] ws) (use d read quiet xtal in blast)
  qed
qed

text \<open>Property C14. Programming the clock never runs past its array of 323 words, and unless
  the array cannot be allocated (then nothing is written) a receiver on this channel's
  data and clock pins clocks in exactly the 160 clock bits, last byte and highest bit
  first, of which only the bit of the crystal is the driver's own; the strobe pin is low until they are through and high once; no bit of \<open>FCR\<close>
  outside the two channels' pins changes on the way, and the last word written is the
  value \<open>FCR\<close> was read with.\<close>

theorem clock_bits_shifted_out:
  "case fscc_port_set_clock_bits E bits s of
     None \<Rightarrow> False
   | Some (bits', s') \<Rightarrow> xtal_bit bits bits' \<and>
      (if Pool_allocate (4 * 323) False \<in> set (new_events s s') then writes (new_events s s') = []
       else \<exists>data orig. writes (new_events s s') = map (wr (port_card s) 2 FCR_OFFSET) (data @ [orig]) \<and>
         length data = 322 \<and> rd (port_card s) 2 FCR_OFFSET orig \<in> set (new_events s s') \<and>
         shift_in (pin_value s DTA_BASE) (pin_value s CLK_BASE) False data = serial_bits bits' 20 \<and>
         map (\<lambda>w. w AND pin_value s STRB_BASE \<noteq> 0) data = replicate 321 False @ [True] \<and>
         list_all (same_outside 0xf0f orig) data)"
  using clock_bits_result [of E bits s] by (auto split: if_splits)

end
