(* ===== verification/Fscc_Ioctl.thy ===== *)
theory Fscc_Ioctl
  imports Fscc_Isr Fscc_Clock
begin

text \<open>
  The control requests, and opening and closing a port (\<open>port.c\<close>). A request comes with
  its control code; the structures it carries are bytes, little-endian, and are decoded and
  encoded here.
\<close>

section \<open>Structures as bytes\<close>

definition i64_bytes :: "i64 \<Rightarrow> u8 list" where
  "i64_bytes v = u32_bytes (ucast v) @ u32_bytes (ucast (drop_bit 32 v))"

definition chars_to_i64 :: "u8 list \<Rightarrow> i64 option" where
  "chars_to_i64 bs =
     do { lo \<leftarrow> chars_to_u32 bs; hi \<leftarrow> chars_to_u32 (drop 4 bs); Some (ucast lo OR push_bit 32 (ucast hi)) }"

fun bytes_to_regs :: "nat \<Rightarrow> u8 list \<Rightarrow> i64 list option" where
  "bytes_to_regs 0 bs = Some []"
| "bytes_to_regs (Suc n) bs =
     do { v \<leftarrow> chars_to_i64 bs; vs \<leftarrow> bytes_to_regs n (drop 8 bs); Some (v # vs) }"

definition regs_to_bytes :: "i64 list \<Rightarrow> u8 list" where
  "regs_to_bytes regs = concat (map i64_bytes regs)"

section \<open>Control codes\<close>

datatype ioctl =
    FSCC_GET_REGISTERS | FSCC_SET_REGISTERS | FSCC_PURGE_TX | FSCC_PURGE_RX
  | FSCC_ENABLE_APPEND_STATUS | FSCC_DISABLE_APPEND_STATUS | FSCC_GET_APPEND_STATUS
  | FSCC_SET_CLOCK_BITS
  | FSCC_ENABLE_IGNORE_TIMEOUT | FSCC_DISABLE_IGNORE_TIMEOUT | FSCC_GET_IGNORE_TIMEOUT
  | FSCC_SET_TX_MODIFIERS | FSCC_GET_TX_MODIFIERS
  | FSCC_ENABLE_RX_MULTIPLE | FSCC_DISABLE_RX_MULTIPLE | FSCC_GET_RX_MULTIPLE
  | FSCC_ENABLE_APPEND_TIMESTAMP | FSCC_DISABLE_APPEND_TIMESTAMP | FSCC_GET_APPEND_TIMESTAMP
  | FSCC_ENABLE_WAIT_ON_WRITE | FSCC_DISABLE_WAIT_ON_WRITE | FSCC_GET_WAIT_ON_WRITE
  | FSCC_TRACK_INTERRUPTS
  | FSCC_ENABLE_BLOCKING_WRITE | FSCC_DISABLE_BLOCKING_WRITE | FSCC_GET_BLOCKING_WRITE
  | FSCC_ENABLE_FORCE_FIFO | FSCC_DISABLE_FORCE_FIFO | FSCC_GET_FORCE_FIFO

text \<open>\<open>CTL_CODE(FSCC_IOCTL_MAGIC, f, METHOD_BUFFERED, FILE_ANY_ACCESS)\<close>, both of which are 0.\<close>

definition CTL_CODE :: "u32 \<Rightarrow> u32" where
  "CTL_CODE f = push_bit 16 0x8018 OR push_bit 2 f"

definition ioctl_functions :: "(u32 \<times> ioctl) list" where
  "ioctl_functions =
    [(0x800, FSCC_GET_REGISTERS), (0x801, FSCC_SET_REGISTERS), (0x802, FSCC_PURGE_TX), (0x803, FSCC_PURGE_RX),
     (0x804, FSCC_ENABLE_APPEND_STATUS), (0x805, FSCC_DISABLE_APPEND_STATUS), (0x80D, FSCC_GET_APPEND_STATUS),
     (0x808, FSCC_SET_CLOCK_BITS),
     (0x80A, FSCC_ENABLE_IGNORE_TIMEOUT), (0x80B, FSCC_DISABLE_IGNORE_TIMEOUT), (0x80F, FSCC_GET_IGNORE_TIMEOUT),
     (0x80C, FSCC_SET_TX_MODIFIERS), (0x80E, FSCC_GET_TX_MODIFIERS),
     (0x810, FSCC_ENABLE_RX_MULTIPLE), (0x811, FSCC_DISABLE_RX_MULTIPLE), (0x812, FSCC_GET_RX_MULTIPLE),
     (0x813, FSCC_ENABLE_APPEND_TIMESTAMP), (0x814, FSCC_DISABLE_APPEND_TIMESTAMP),
     (0x815, FSCC_GET_APPEND_TIMESTAMP),
     (0x816, FSCC_ENABLE_WAIT_ON_WRITE), (0x817, FSCC_DISABLE_WAIT_ON_WRITE), (0x818, FSCC_GET_WAIT_ON_WRITE),
     (0x819, FSCC_TRACK_INTERRUPTS),
     (0x81B, FSCC_ENABLE_BLOCKING_WRITE), (0x81C, FSCC_DISABLE_BLOCKING_WRITE), (0x81D, FSCC_GET_BLOCKING_WRITE),
     (0x81E, FSCC_ENABLE_FORCE_FIFO), (0x81F, FSCC_DISABLE_FORCE_FIFO), (0x820, FSCC_GET_FORCE_FIFO)]"

definition ioctl_of :: "u32 \<Rightarrow> ioctl option" where
  "ioctl_of code = map_of (map (\<lambda>(f, c). (CTL_CODE f, c)) ioctl_functions) code"

section \<open>The cases of the handler\<close>

text \<open>Each case gives the status, the bytes put into the output buffer, and the port; the
  number of bytes returned is their number.\<close>

type_synonym ioctl_result = "NTSTATUS \<times> u8 list \<times> driver"

abbreviation (input) SIZEOF_REGISTERS :: nat where "SIZEOF_REGISTERS \<equiv> 240"
abbreviation (input) SIZEOF_CLOCK_DATA :: nat where "SIZEOF_CLOCK_DATA \<equiv> 24"

definition ioctl_get_registers :: "env \<Rightarrow> request \<Rightarrow> driver \<Rightarrow> ioctl_result option" where
  "ioctl_get_registers E req s =
     (let (status, input_regs) = input_buffer E req SIZEOF_REGISTERS
      in if \<not> NT_SUCCESS status then Some (status, [], s)
      else (let status = output_buffer E req SIZEOF_REGISTERS
      in if \<not> NT_SUCCESS status then Some (status, [], s)
      else do {
        regs \<leftarrow> bytes_to_regs NUM_REGS input_regs;
        let (output_regs, s1) = fscc_port_get_registers E regs s;
        Some (status, regs_to_bytes output_regs, s1) }))"

definition ioctl_set_registers :: "env \<Rightarrow> request \<Rightarrow> driver \<Rightarrow> ioctl_result option" where
  "ioctl_set_registers E req s =
     (let (status, input_regs) = input_buffer E req SIZEOF_REGISTERS
      in if \<not> NT_SUCCESS status then Some (status, [], s)
      else do {
        regs \<leftarrow> bytes_to_regs NUM_REGS input_regs;
        let (status, s1) = fscc_port_set_registers E regs s;
        Some (status, [], s1) })"

definition ioctl_set_clock_bits :: "env \<Rightarrow> request \<Rightarrow> driver \<Rightarrow> ioctl_result option" where
  "ioctl_set_clock_bits E req s =
     (let (status, clock) = input_buffer E req SIZEOF_CLOCK_DATA
      in if \<not> NT_SUCCESS status then Some (status, [], s)
      else if length clock < SIZEOF_CLOCK_DATA then None
      else do { (bits, s1) \<leftarrow> fscc_port_set_clock_bits E (take 20 (drop 4 clock)) s; Some (status, [], s1) })"

definition ioctl_set_tx_modifiers :: "env \<Rightarrow> request \<Rightarrow> driver \<Rightarrow> ioctl_result option" where
  "ioctl_set_tx_modifiers E req s =
     (let (status, tx_modifiers) = input_buffer E req 4
      in if \<not> NT_SUCCESS status then Some (status, [], s)
      else do {
        value \<leftarrow> chars_to_u32 tx_modifiers;
        let (status, s1) = fscc_port_set_tx_modifiers value s;
        Some (status, [], s1) })"

text \<open>The cases that only put a value into the output buffer.\<close>

definition ioctl_get :: "env \<Rightarrow> request \<Rightarrow> u8 list \<Rightarrow> driver \<Rightarrow> ioctl_result option" where
  "ioctl_get E req value s =
     (let status = output_buffer E req (length value)
      in if \<not> NT_SUCCESS status then Some (status, [], s) else Some (status, value, s))"

definition ioctl_purge :: "(NTSTATUS \<times> driver) option \<Rightarrow> ioctl_result option" where
  "ioctl_purge r = do { (status, s1) \<leftarrow> r; Some (status, [], s1) }"

abbreviation (input) changed :: "driver \<Rightarrow> ioctl_result option" where
  "changed s \<equiv> Some (STATUS_SUCCESS, [], s)"

definition with_status :: "NTSTATUS \<times> driver \<Rightarrow> ioctl_result option" where
  "with_status r = (let (status, s1) = r in Some (status, [], s1))"

text \<open>The call at the end of the handler.\<close>

definition finish_ioctl :: "request \<Rightarrow> ioctl_result option \<Rightarrow> driver option" where
  "finish_ioctl req r =
     do { (status, out, s1) \<leftarrow> r;
          Some (emits ((if out = [] then [] else [Request_output req out]) @
                       [Request_complete req status (length out)]) s1) }"

definition ioctl_track_interrupts :: "env \<Rightarrow> request \<Rightarrow> driver \<Rightarrow> driver option" where
  "ioctl_track_interrupts E req s =
     (let (status, s1) = forward E req isr_queue s
      in Some (if \<not> NT_SUCCESS status then complete req status 0 s1 else s1))"

fun ioctl_case :: "env \<Rightarrow> request \<Rightarrow> ioctl \<Rightarrow> driver \<Rightarrow> driver option" where
  "ioctl_case E req FSCC_GET_REGISTERS s = finish_ioctl req (ioctl_get_registers E req s)"
| "ioctl_case E req FSCC_SET_REGISTERS s = finish_ioctl req (ioctl_set_registers E req s)"
| "ioctl_case E req FSCC_PURGE_TX s = finish_ioctl req (ioctl_purge (fscc_io_purge_tx E s))"
| "ioctl_case E req FSCC_PURGE_RX s = finish_ioctl req (ioctl_purge (fscc_io_purge_rx E s))"
| "ioctl_case E req FSCC_ENABLE_APPEND_STATUS s = finish_ioctl req (changed (fscc_port_set_append_status TRUE s))"
| "ioctl_case E req FSCC_DISABLE_APPEND_STATUS s = finish_ioctl req (changed (fscc_port_set_append_status FALSE s))"
| "ioctl_case E req FSCC_GET_APPEND_STATUS s = finish_ioctl req (ioctl_get E req [fscc_port_get_append_status s] s)"
| "ioctl_case E req FSCC_ENABLE_APPEND_TIMESTAMP s = finish_ioctl req (changed (fscc_port_set_append_timestamp TRUE s))"
| "ioctl_case E req FSCC_DISABLE_APPEND_TIMESTAMP s = finish_ioctl req (changed (fscc_port_set_append_timestamp FALSE s))"
| "ioctl_case E req FSCC_GET_APPEND_TIMESTAMP s = finish_ioctl req (ioctl_get E req [fscc_port_get_append_timestamp s] s)"
| "ioctl_case E req FSCC_ENABLE_RX_MULTIPLE s = finish_ioctl req (changed (fscc_port_set_rx_multiple TRUE s))"
| "ioctl_case E req FSCC_DISABLE_RX_MULTIPLE s = finish_ioctl req (changed (fscc_port_set_rx_multiple FALSE s))"
| "ioctl_case E req FSCC_GET_RX_MULTIPLE s = finish_ioctl req (ioctl_get E req [fscc_port_get_rx_multiple s] s)"
| "ioctl_case E req FSCC_SET_CLOCK_BITS s = finish_ioctl req (ioctl_set_clock_bits E req s)"
| "ioctl_case E req FSCC_ENABLE_IGNORE_TIMEOUT s = finish_ioctl req (changed (fscc_port_set_ignore_timeout TRUE s))"
| "ioctl_case E req FSCC_DISABLE_IGNORE_TIMEOUT s = finish_ioctl req (changed (fscc_port_set_ignore_timeout FALSE s))"
| "ioctl_case E req FSCC_GET_IGNORE_TIMEOUT s = finish_ioctl req (ioctl_get E req [fscc_port_get_ignore_timeout s] s)"
| "ioctl_case E req FSCC_SET_TX_MODIFIERS s = finish_ioctl req (ioctl_set_tx_modifiers E req s)"
| "ioctl_case E req FSCC_GET_TX_MODIFIERS s = finish_ioctl req (ioctl_get E req (u32_bytes (fscc_port_get_tx_modifiers s)) s)"
| "ioctl_case E req FSCC_GET_WAIT_ON_WRITE s = finish_ioctl req (ioctl_get E req [fscc_port_get_wait_on_write s] s)"
| "ioctl_case E req FSCC_ENABLE_WAIT_ON_WRITE s = finish_ioctl req (changed (fscc_port_set_wait_on_write TRUE s))"
| "ioctl_case E req FSCC_DISABLE_WAIT_ON_WRITE s = finish_ioctl req (changed (fscc_port_set_wait_on_write FALSE s))"
| "ioctl_case E req FSCC_GET_BLOCKING_WRITE s = finish_ioctl req (ioctl_get E req [fscc_port_get_blocking_write s] s)"
| "ioctl_case E req FSCC_ENABLE_BLOCKING_WRITE s = finish_ioctl req (changed (fscc_port_set_blocking_write TRUE s))"
| "ioctl_case E req FSCC_DISABLE_BLOCKING_WRITE s = finish_ioctl req (changed (fscc_port_set_blocking_write FALSE s))"
| "ioctl_case E req FSCC_ENABLE_FORCE_FIFO s = finish_ioctl req (with_status (fscc_port_set_force_fifo E TRUE s))"
| "ioctl_case E req FSCC_DISABLE_FORCE_FIFO s = finish_ioctl req (with_status (fscc_port_set_force_fifo E FALSE s))"
| "ioctl_case E req FSCC_GET_FORCE_FIFO s = finish_ioctl req (ioctl_get E req [fscc_port_get_force_fifo s] s)"
| "ioctl_case E req FSCC_TRACK_INTERRUPTS s = ioctl_track_interrupts E req s"

definition FsccEvtIoDeviceControl :: "env \<Rightarrow> request \<Rightarrow> u32 \<Rightarrow> driver \<Rightarrow> driver option" where
  "FsccEvtIoDeviceControl E req IoControlCode s =
     (case ioctl_of IoControlCode of
        Some c \<Rightarrow> ioctl_case E req c s
      | None \<Rightarrow> finish_ioctl req (Some (STATUS_NOT_SUPPORTED, [], s)))"

section \<open>Open and close\<close>

definition FsccDeviceFileCreate :: "env \<Rightarrow> request \<Rightarrow> driver \<Rightarrow> driver" where
  "FsccDeviceFileCreate E req s =
     (let (async, s1) = fscc_port_using_async E s
      in if async \<noteq> 0 then complete req STATUS_NOT_SUPPORTED 0 s1
      else (let s2 = s1\<lparr>open_counter := open_counter s1 + 1\<rparr>;
                s4 = (if open_counter s2 = 1
                  then (let (orig_fcr, s3) = fscc_port_get_register E 2 FCR_OFFSET s2;
                            new_fcr = orig_fcr OR push_bit (unat (channel s3)) 0x40000000
                        in snd (fscc_port_set_register E 2 FCR_OFFSET new_fcr s3))
                  else s2)
            in complete req STATUS_SUCCESS 0 s4))"

definition FsccFileClose :: "env \<Rightarrow> driver \<Rightarrow> driver" where
  "FsccFileClose E s =
     (let s1 = s\<lparr>open_counter := open_counter s - 1\<rparr>
      in if open_counter s1 = 0
         then (let (orig_fcr, s2) = fscc_port_get_register E 2 FCR_OFFSET s1;
                   new_fcr = orig_fcr AND NOT (push_bit (unat (channel s2)) 0x40000000)
               in snd (fscc_port_set_register E 2 FCR_OFFSET new_fcr s2))
         else s1)"

section \<open>Register structures\<close>

lemma i64_bytes_length [simp]: "length (i64_bytes v) = 8"
  by (simp add: i64_bytes_def)

lemma chars_to_i64_bytes [simp]: "chars_to_i64 (i64_bytes v @ bs) = Some v"
proof -
  have "ucast (ucast v :: u32) OR push_bit 32 (ucast (ucast (drop_bit 32 v) :: u32)) = v"
    by (rule bit_word_eqI) (auto simp: bit_simps)
  moreover have "drop 4 (i64_bytes v @ bs) = u32_bytes (ucast (drop_bit 32 v)) @ bs"
    by (simp add: i64_bytes_def)
  ultimately show ?thesis by (simp add: chars_to_i64_def) (simp add: i64_bytes_def)
qed

lemma length_regs_bytes [simp]: "length (regs_to_bytes regs) = 8 * length regs"
  by (induction regs) (simp_all add: regs_to_bytes_def i64_bytes_def)

text \<open>A register structure survives its way to user space and back: decoding the
  bytes of the structure gives its entries, whatever follows them in the buffer.\<close>

lemma bytes_to_regs_bytes:
  "bytes_to_regs (length regs) (regs_to_bytes regs @ bs) = Some regs"
  by (induction regs) (simp_all add: regs_to_bytes_def)

lemma bytes_to_i64: "8 \<le> length bs \<Longrightarrow> \<exists>v. chars_to_i64 bs = Some v"
proof -
  assume "8 \<le> length bs"
  then have "4 \<le> length bs" "4 \<le> length (drop 4 bs)" by simp_all
  then obtain a b where "chars_to_u32 bs = Some a" "chars_to_u32 (drop 4 bs) = Some b"
    using chars_to_u32_Some by blast
  then show ?thesis by (simp add: chars_to_i64_def)
qed

lemma bytes_to_regs_Some: "8 * n \<le> length bs \<Longrightarrow> \<exists>regs. bytes_to_regs n bs = Some regs \<and> length regs = n"
proof (induction n arbitrary: bs)
  case (Suc n)
  then have "8 \<le> length bs" "8 * n \<le> length (drop 8 bs)" by simp_all
  then obtain v regs where "chars_to_i64 bs = Some v" "bytes_to_regs n (drop 8 bs) = Some regs" "length regs = n"
    using bytes_to_i64 Suc.IH by blast
  then show ?case by simp
qed simp

section \<open>Every control request is answered\<close>

text \<open>A case that touches requests only through its end, and keeps the rings.\<close>

definition quiet_case :: "driver \<Rightarrow> ioctl_result option \<Rightarrow> bool" where
  "quiet_case s r \<longleftrightarrow> (\<exists>st out s1 es. r = Some (st, out, s1) \<and> events s1 = rev es @ events s \<and> calm es \<and>
     rings_kept s s1)"

lemma finish_quiet:
  assumes "quiet_case s r"
  shows "handled req s (finish_ioctl req r)"
proof -
  from assms obtain st out s1 es where r: "r = Some (st, out, s1)" "events s1 = rev es @ events s"
    "calm es" "rings_kept s s1" by (auto simp: quiet_case_def)
  let ?fin = "(if out = [] then [] else [Request_output req out]) @ [Request_complete req st (length out)]"
  have "answers_once req (es @ ?fin)"
    using answers_calm [OF r(3)] only_about_calm [OF r(3)] r(3) by (simp add: answers_once_def answers_def calm_def)
  moreover have "rings_kept s (emits ?fin s1)" by (rule rings_kept_trans [OF r(4)]) simp
  ultimately show ?thesis using r(1,2)
    by (auto simp: handled_def finish_ioctl_def intro!: exI [of _ "es @ ?fin"])
qed

lemma quiet_same: "events s1 = events s \<Longrightarrow> rings_kept s s1 \<Longrightarrow> quiet_case s (Some (st, out, s1))"
  by (auto simp: quiet_case_def calm_def intro: exI [of _ "[]"])

lemma quiet_step: "io_step s s1 \<Longrightarrow> quiet_case s (Some (st, out, s1))"
  by (auto simp: quiet_case_def rings_kept_io_step dest!: io_step_events intro: calm_quiet)

lemma quiet_get: "quiet_case s (ioctl_get E req value s)"
  by (simp add: ioctl_get_def Let_def quiet_same)

lemma entry_reads_quiet: "list_all quiet (map2 (entry_read s) js vs)"
  by (auto simp: list_all_iff entry_read_def rd_def dest: set_zip_leftD)

lemma get_registers_io_step:
  assumes "fscc_port_get_registers E regs s = (regs', s1)"
  shows "io_step s s1"
  using get_registers_result [where E = E and regs = regs and s = s] entry_reads_quiet
  by (auto simp: assms Let_def intro: io_step_emits)

lemma quiet_get_registers:
  assumes "inputs_as_asked E"
  shows "quiet_case s (ioctl_get_registers E req s)"
proof -
  obtain st inp where i: "input_buffer E req SIZEOF_REGISTERS = (st, inp)" by fastforce
  show ?thesis
  proof (cases "NT_SUCCESS st \<and> NT_SUCCESS (output_buffer E req SIZEOF_REGISTERS)")
    case False
    then show ?thesis by (auto simp: ioctl_get_registers_def i Let_def quiet_same)
  next
    case True
    then have "8 * NUM_REGS \<le> length inp" using assms i by (auto simp: inputs_as_asked_def split: prod.splits)
    then obtain regs where "bytes_to_regs NUM_REGS inp = Some regs" using bytes_to_regs_Some by blast
    moreover obtain regs' s1 where g: "fscc_port_get_registers E regs s = (regs', s1)" by fastforce
    moreover have "io_step s s1" by (rule get_registers_io_step [OF g])
    ultimately show ?thesis using True
      by (simp add: ioctl_get_registers_def i Let_def quiet_step del: bytes_to_regs.simps)
  qed
qed

lemma quiet_set_registers:
  assumes "inputs_as_asked E"
  shows "quiet_case s (ioctl_set_registers E req s)"
proof -
  obtain st inp where i: "input_buffer E req SIZEOF_REGISTERS = (st, inp)" by fastforce
  show ?thesis
  proof (cases "NT_SUCCESS st")
    case False
    then show ?thesis by (auto simp: ioctl_set_registers_def i quiet_same)
  next
    case True
    then have "8 * NUM_REGS \<le> length inp" using assms i by (auto simp: inputs_as_asked_def split: prod.splits)
    then obtain regs where r: "bytes_to_regs NUM_REGS inp = Some regs" using bytes_to_regs_Some by blast
    obtain st' s1 where g: "fscc_port_set_registers E regs s = (st', s1)" by fastforce
    from set_registers_spec [OF g] obtain es st where "s1 = emits es (s\<lparr>register_storage := st\<rparr>)" "list_all quiet es"
      by auto
    then have "quiet_case s (Some (st', [], s1))" by (auto simp: quiet_case_def calm_quiet intro!: rings_kept_same)
    then show ?thesis using True r g
      by (simp add: ioctl_set_registers_def i del: bytes_to_regs.simps)
  qed
qed

lemma quiet_set_clock_bits:
  assumes "inputs_as_asked E"
  shows "quiet_case s (ioctl_set_clock_bits E req s)"
proof -
  obtain st inp where i: "input_buffer E req SIZEOF_CLOCK_DATA = (st, inp)" by fastforce
  show ?thesis
  proof (cases "NT_SUCCESS st")
    case False
    then show ?thesis by (auto simp: ioctl_set_clock_bits_def i quiet_same)
  next
    case True
    then have "SIZEOF_CLOCK_DATA \<le> length inp" using assms i by (auto simp: inputs_as_asked_def split: prod.splits)
    moreover obtain bits' es where
      "fscc_port_set_clock_bits E (take 20 (drop 4 inp)) s = Some (bits', emits es s)" "calm es"
      using clock_bits_result [of E "take 20 (drop 4 inp)" s] by blast
    ultimately show ?thesis using True
      by (auto simp: ioctl_set_clock_bits_def i quiet_case_def)
  qed
qed

lemma quiet_set_tx_modifiers:
  assumes "inputs_as_asked E"
  shows "quiet_case s (ioctl_set_tx_modifiers E req s)"
proof -
  obtain st inp where i: "input_buffer E req 4 = (st, inp)" by fastforce
  show ?thesis
  proof (cases "NT_SUCCESS st")
    case False
    then show ?thesis by (auto simp: ioctl_set_tx_modifiers_def i quiet_same)
  next
    case True
    then have "4 \<le> length inp" using assms i by (auto simp: inputs_as_asked_def split: prod.splits)
    then obtain w where "chars_to_u32 inp = Some w" using chars_to_u32_Some by blast
    with True show ?thesis
      by (auto simp: ioctl_set_tx_modifiers_def i fscc_port_set_tx_modifiers_def intro!: quiet_same rings_kept_same)
  qed
qed

text \<open>The choice between FIFO and DMA is the one thing a control request changes that the rings
  depend on: the rest happens on the port with the new choice.\<close>

definition chosen :: "driver \<Rightarrow> BOOLEAN \<Rightarrow> driver" where
  "chosen s y = s\<lparr>force_fifo := y\<rparr>"

lemma chosen_same [simp]: "chosen s (force_fifo s) = s" "events (chosen s y) = events s"
  by (simp_all add: chosen_def)

definition choice :: "bool \<Rightarrow> driver \<Rightarrow> BOOLEAN \<Rightarrow> bool" where
  "choice enables s y \<longleftrightarrow> y = force_fifo s \<or> y = 0 \<or> enables"

lemma quiet_force_fifo:
  "\<exists>y. quiet_case (chosen s y) (with_status (fscc_port_set_force_fifo E v s)) \<and> choice (v \<noteq> 0) s y"
proof -
  have step: "quiet_case t (Some (st, out, snd (fscc_port_set_register E b off x t)))" for st out b off x t
    by (rule quiet_step) simp
  show ?thesis
  proof (cases "force_fifo s \<noteq> v \<and> has_dma s \<noteq> 0")
    case True
    then show ?thesis
      by (intro exI [of _ "if v \<noteq> 0 then TRUE else FALSE"])
        (auto simp: with_status_def fscc_port_set_force_fifo_def fscc_dma_port_disable_def
          fscc_dma_port_enable_def choice_def chosen_def Let_def step)
  next
    case False
    then have "\<exists>st. fscc_port_set_force_fifo E v s = (st, s)" by (auto simp: fscc_port_set_force_fifo_def)
    then show ?thesis
      by (intro exI [of _ "force_fifo s"]) (auto simp: with_status_def choice_def quiet_same)
  qed
qed

text \<open>The rings a purge needs.\<close>

definition rings_exist :: "driver \<Rightarrow> bool" where
  "rings_exist s \<longleftrightarrow>
     (\<exists>fs. rx_descriptors s = Some fs \<and> unat (rx_num (memory s)) = length fs \<and> fs \<noteq> []) \<and>
     (\<exists>fs. tx_descriptors s = Some fs \<and> unat (tx_num (memory s)) = length fs \<and> fs \<noteq> [])"

lemma quiet_purge:
  assumes "rings_exist s"
  shows "quiet_case s (ioctl_purge (fscc_io_purge_tx E s))" "quiet_case s (ioctl_purge (fscc_io_purge_rx E s))"
proof -
  from assms obtain fs where "tx_descriptors s = Some fs" "unat (tx_num (memory s)) = length fs" "fs \<noteq> []"
    by (auto simp: rings_exist_def)
  from purge_tx_keeps [OF this, of E] show "quiet_case s (ioctl_purge (fscc_io_purge_tx E s))"
    by (auto simp: ioctl_purge_def quiet_case_def intro: calm_quiet)
next
  from assms obtain fs where "rx_descriptors s = Some fs" "unat (rx_num (memory s)) = length fs" "fs \<noteq> []"
    by (auto simp: rings_exist_def)
  from purge_rx_keeps [OF this, of E] show "quiet_case s (ioctl_purge (fscc_io_purge_rx E s))"
    by (auto simp: ioctl_purge_def quiet_case_def intro: calm_quiet)
qed

lemma rings_exist_ok: "rx_ring_ok fifo s \<Longrightarrow> tx_ring_ok fifo s \<Longrightarrow> rings_exist s"
  by (auto simp: rings_exist_def rx_ring_ok_def tx_ring_ok_def elim!: ring_atE)

lemmas setter_rings = append_status.set_rings append_timestamp.set_rings ignore_timeout.set_rings
  rx_multiple.set_rings wait_on_write.set_rings blocking_write.set_rings
  append_status.set_tx_rings append_timestamp.set_tx_rings ignore_timeout.set_tx_rings
  rx_multiple.set_tx_rings wait_on_write.set_tx_rings blocking_write.set_tx_rings

lemma setter_quiet:
  "quiet_case s (Some (STATUS_SUCCESS, [], fscc_port_set_append_status v s))"
  "quiet_case s (Some (STATUS_SUCCESS, [], fscc_port_set_append_timestamp v s))"
  "quiet_case s (Some (STATUS_SUCCESS, [], fscc_port_set_ignore_timeout v s))"
  "quiet_case s (Some (STATUS_SUCCESS, [], fscc_port_set_rx_multiple v s))"
  "quiet_case s (Some (STATUS_SUCCESS, [], fscc_port_set_wait_on_write v s))"
  "quiet_case s (Some (STATUS_SUCCESS, [], fscc_port_set_blocking_write v s))"
  by (intro quiet_same rings_kept_same;
      simp add: setter_rings append_status.set_quiet append_timestamp.set_quiet ignore_timeout.set_quiet
      rx_multiple.set_quiet wait_on_write.set_quiet blocking_write.set_quiet)+

lemma track_interrupts_handled: "handled req s (ioctl_case E req FSCC_TRACK_INTERRUPTS s)"
proof -
  obtain st s1 where f: "forward E req isr_queue s = (st, s1)" by fastforce
  then have s1: "s1 = emits [Request_forward req isr_queue st] s" by (auto simp: forward_def emit_emits Let_def)
  let ?es = "Request_forward req isr_queue st # (if NT_SUCCESS st then [] else [Request_complete req st 0])"
  have "ioctl_case E req FSCC_TRACK_INTERRUPTS s = Some (emits ?es s)"
    by (simp add: ioctl_track_interrupts_def f s1 complete_def emit_emits emits_emits)
  then show ?thesis
    by (auto simp: handled_def answers_once_def intro!: exI [of _ ?es])
qed

lemma ioctl_case_handled:
  assumes "rings_exist s" "inputs_as_asked E"
  shows "\<exists>y. handled req (chosen s y) (ioctl_case E req c s) \<and> choice (c = FSCC_ENABLE_FORCE_FIFO) s y"
proof (cases "c \<in> {FSCC_ENABLE_FORCE_FIFO, FSCC_DISABLE_FORCE_FIFO}")
  case True
  have finish: "\<exists>y. handled req (chosen s y) (finish_ioctl req (with_status (fscc_port_set_force_fifo E v s))) \<and>
      choice (v \<noteq> 0) s y" for v
    using quiet_force_fifo [of s E v] finish_quiet by blast
  from True finish [of TRUE] finish [of FALSE] show ?thesis by auto
next
  case False
  note quiet = quiet_get_registers [OF assms(2)] quiet_set_registers [OF assms(2)] quiet_get setter_quiet
    quiet_set_clock_bits [OF assms(2)] quiet_set_tx_modifiers [OF assms(2)] quiet_purge [OF assms(1)]
  have "handled req s (ioctl_case E req c s)"
    by (cases c; ((hypsubst, rule track_interrupts_handled) | (simp only: ioctl_case.simps, rule finish_quiet, rule quiet) |
      (insert False, simp)))
  then show ?thesis by (intro exI [of _ "force_fifo s"]) (simp add: choice_def)
qed

lemma device_control_handled:
  assumes "rings_exist s" "inputs_as_asked E"
  shows "\<exists>y. handled req (chosen s y) (FsccEvtIoDeviceControl E req code s) \<and>
    choice (ioctl_of code = Some FSCC_ENABLE_FORCE_FIFO) s y"
proof (cases "ioctl_of code")
  case None
  have "handled req (chosen s (force_fifo s)) (FsccEvtIoDeviceControl E req code s)"
    using finish_quiet [OF quiet_same [OF refl rings_kept_refl]] by (simp add: FsccEvtIoDeviceControl_def None)
  then show ?thesis unfolding choice_def by blast
next
  case (Some c)
  with ioctl_case_handled [OF assms, of req c] show ?thesis by (simp add: FsccEvtIoDeviceControl_def)
qed

section \<open>Properties\<close>

text \<open>Property C25. Every control request is answered exactly once, whatever its code and
  whatever the framework and the card answer: it is completed (an unknown code, a refused
  buffer, a failing or a successful operation), or queued as an interrupt request. With its
  rings allocated, no code makes the handler access invalid memory.\<close>

theorem device_control_answered_once:
  assumes "rings_exist s" "inputs_as_asked E"
  shows "case FsccEvtIoDeviceControl E req code s of
      None \<Rightarrow> False
    | Some s' \<Rightarrow> length (answers req (new_events s s')) = 1"
proof -
  from device_control_handled [OF assms, of req code] obtain s' es where "FsccEvtIoDeviceControl E req code s = Some s'"
    "events s' = rev es @ events s" "answers_once req es" by (auto simp: handled_def)
  then show ?thesis using new_events_eq [of s' es s] by (simp add: answers_once_def)
qed

lemma device_control_answered_once_witness:
  "case FsccEvtIoDeviceControl example_env 7 0x80182008 free_port of
      None \<Rightarrow> False
    | Some s' \<Rightarrow> length (answers 7 (new_events free_port s')) = 1"
  by (rule device_control_answered_once) (simp_all add: rings_exist_def inputs_as_asked_def example_defs)

text \<open>Each control code selects its own operation.\<close>

lemma ioctl_codes_distinct: "distinct (map (\<lambda>p. CTL_CODE (fst p)) ioctl_functions)"
  by (simp add: ioctl_functions_def CTL_CODE_def)

text \<open>The control codes are unambiguous and complete: a code selects an operation
  exactly when it is the code of that operation, and every operation has exactly one code.\<close>

lemma ioctl_codes_exact:
  "(ioctl_of code = Some c) = (\<exists>f. (f, c) \<in> set ioctl_functions \<and> code = CTL_CODE f) \<and>
   length (filter (\<lambda>(f, c'). c' = c) ioctl_functions) = 1"
proof
  have "distinct (map fst (map (\<lambda>(f, c). (CTL_CODE f, c)) ioctl_functions))"
    using ioctl_codes_distinct by (simp add: o_def split_beta)
  then show "(ioctl_of code = Some c) = (\<exists>f. (f, c) \<in> set ioctl_functions \<and> code = CTL_CODE f)"
    by (auto simp: ioctl_of_def map_of_eq_Some_iff)
  show "length (filter (\<lambda>(f, c'). c' = c) ioctl_functions) = 1"
    by (cases c) (simp_all add: ioctl_functions_def)
qed

text \<open>The flags: how to enable, disable and read them, and when they apply.\<close>

definition flag_ioctls :: "(ioctl \<times> ioctl \<times> ioctl \<times> bool) list" where
  "flag_ioctls =
    [(FSCC_ENABLE_APPEND_STATUS, FSCC_DISABLE_APPEND_STATUS, FSCC_GET_APPEND_STATUS, False),
     (FSCC_ENABLE_APPEND_TIMESTAMP, FSCC_DISABLE_APPEND_TIMESTAMP, FSCC_GET_APPEND_TIMESTAMP, False),
     (FSCC_ENABLE_RX_MULTIPLE, FSCC_DISABLE_RX_MULTIPLE, FSCC_GET_RX_MULTIPLE, True),
     (FSCC_ENABLE_IGNORE_TIMEOUT, FSCC_DISABLE_IGNORE_TIMEOUT, FSCC_GET_IGNORE_TIMEOUT, True),
     (FSCC_ENABLE_WAIT_ON_WRITE, FSCC_DISABLE_WAIT_ON_WRITE, FSCC_GET_WAIT_ON_WRITE, True),
     (FSCC_ENABLE_BLOCKING_WRITE, FSCC_DISABLE_BLOCKING_WRITE, FSCC_GET_BLOCKING_WRITE, True)]"

lemma finish_get:
  assumes "output_buffer E req (length v) = STATUS_SUCCESS" "v \<noteq> []"
  shows "finish_ioctl req (ioctl_get E req v s) =
    Some (emits [Request_output req v, Request_complete req STATUS_SUCCESS (length v)] s)"
  using assms by (simp add: finish_ioctl_def ioctl_get_def)

lemma finish_changed:
  "finish_ioctl req (Some (STATUS_SUCCESS, [], s)) = Some (emits [Request_complete req STATUS_SUCCESS 0] s)"
  by (simp add: finish_ioctl_def)

text \<open>Property C38. A flag that was enabled or disabled is read back so, by a separate request: the
  reply is the one byte 1 if it was enabled and 0 if disabled, except that the flags that only
  apply to frames (status and timestamp) read as 0 while the port is streaming.\<close>

theorem ioctl_flag_roundtrip:
  assumes "(en, dis, get, streams) \<in> set flag_ioctls" "output_buffer E r2 1 = STATUS_SUCCESS"
  shows "case ioctl_case E r1 (if on then en else dis) s of
      None \<Rightarrow> False
    | Some s1 \<Rightarrow> (case ioctl_case E r2 get s1 of
        None \<Rightarrow> False
      | Some s2 \<Rightarrow> outputs (new_events s1 s2) =
          [(r2, [if on \<and> (streams \<or> fscc_io_is_streaming s = 0) then 1 else 0])])"
proof -
  note gets = append_status.get_set append_timestamp.get_set rx_multiple.get_set ignore_timeout.get_set
    wait_on_write.get_set blocking_write.get_set
  have get: "fscc_port_get_append_status (emits es s) = fscc_port_get_append_status s"
    "fscc_port_get_append_timestamp (emits es s) = fscc_port_get_append_timestamp s"
    "fscc_port_get_rx_multiple (emits es s) = fscc_port_get_rx_multiple s"
    "fscc_port_get_ignore_timeout (emits es s) = fscc_port_get_ignore_timeout s"
    "fscc_port_get_wait_on_write (emits es s) = fscc_port_get_wait_on_write s"
    "fscc_port_get_blocking_write (emits es s) = fscc_port_get_blocking_write s" for es s
    by (simp_all add: setting_defs streaming_emits)
  show ?thesis
    using assms
    by (cases on) (auto simp: flag_ioctls_def finish_get finish_changed get gets)
qed

lemma ioctl_flag_roundtrip_witness:
  "case ioctl_case example_env 7 (if True then FSCC_ENABLE_RX_MULTIPLE else FSCC_DISABLE_RX_MULTIPLE) free_port of
      None \<Rightarrow> False
    | Some s1 \<Rightarrow> (case ioctl_case example_env 8 FSCC_GET_RX_MULTIPLE s1 of
        None \<Rightarrow> False
      | Some s2 \<Rightarrow> outputs (new_events s1 s2) =
          [(8, [if True \<and> (True \<or> fscc_io_is_streaming free_port = 0) then 1 else 0])])"
  by (rule ioctl_flag_roundtrip) (simp_all add: flag_ioctls_def example_env_def)

section \<open>Opening and closing\<close>

datatype file_op = Open request | Close

fun file_op_step :: "env \<Rightarrow> file_op \<Rightarrow> driver \<Rightarrow> driver" where
  "file_op_step E (Open req) s = FsccDeviceFileCreate E req s"
| "file_op_step E Close s = FsccFileClose E s"

text \<open>The port is marked as synchronous by its bit of \<open>FCR\<close>, a register in BAR 2; these are the
  marks a history writes there, as truth values.\<close>

definition is_fcr :: "fscc_card \<Rightarrow> io_space \<Rightarrow> u64 \<Rightarrow> bool" where
  "is_fcr c sp a \<longleftrightarrow> sp = card_space c 2 \<and> a = fscc_card_get_BAR c 2 + ucast FCR_OFFSET"

definition marks :: "fscc_card \<Rightarrow> u32 \<Rightarrow> event list \<Rightarrow> bool list" where
  "marks c ch es = concat (map (\<lambda>e. case e of
     Io_write sp a v \<Rightarrow> if is_fcr c sp a then [bit v (30 + unat ch)] else [] | _ \<Rightarrow> []) es)"

text \<open>A history that writes to no register but \<open>FCR\<close>, and there changes nothing but the mark: \<open>w\<close> is
  the value last seen in it.\<close>

fun only_marks :: "fscc_card \<Rightarrow> u32 \<Rightarrow> u32 \<Rightarrow> event list \<Rightarrow> bool" where
  "only_marks c ch w [] \<longleftrightarrow> True"
| "only_marks c ch w (e # es) \<longleftrightarrow> (case e of
     Io_read sp a v \<Rightarrow> only_marks c ch (if is_fcr c sp a then v else w) es
   | Io_write sp a v \<Rightarrow> is_fcr c sp a \<and> unset_bit (30 + unat ch) v = unset_bit (30 + unat ch) w \<and> only_marks c ch v es
   | _ \<Rightarrow> only_marks c ch w es)"

lemma marks_simps [simp]:
  "marks c ch [] = []" "marks c ch (es @ es') = marks c ch es @ marks c ch es'"
  "marks c ch (rd c b off v # es) = marks c ch es"
  "marks c ch (wr c 2 FCR_OFFSET v # es) = bit v (30 + unat ch) # marks c ch es"
  "marks c ch (Request_complete r st n # es) = marks c ch es"
  by (simp_all add: marks_def rd_def wr_def is_fcr_def)

lemma only_marks_simps [simp]:
  "only_marks c ch w (rd c 2 FCR_OFFSET v # es) = only_marks c ch v es"
  "only_marks c ch w (wr c 2 FCR_OFFSET v # es) \<longleftrightarrow>
     unset_bit (30 + unat ch) v = unset_bit (30 + unat ch) w \<and> only_marks c ch v es"
  "only_marks c ch w (Request_complete r st n # es) = only_marks c ch w es"
  by (simp_all add: rd_def wr_def is_fcr_def)

lemma only_marks_append:
  "only_marks c ch w es \<Longrightarrow> (\<And>w. only_marks c ch w es') \<Longrightarrow> only_marks c ch w (es @ es')"
  by (induction es arbitrary: w) (auto split: event.splits)

declare only_marks.simps(2) [simp del]

lemma sync_bit_only:
  "unset_bit (30 + unat ch) (w OR push_bit (unat ch) 0x40000000 :: u32) = unset_bit (30 + unat ch) w"
  "unset_bit (30 + unat ch) (w AND NOT (push_bit (unat ch) 0x40000000) :: u32) = unset_bit (30 + unat ch) w"
proof -
  have "(0x40000000 :: u32) = push_bit 30 1" by simp
  then have one: "push_bit (unat ch) 0x40000000 = (push_bit (30 + unat ch) 1 :: u32)"
    by (simp only: push_bit_push_bit add.commute)
  have "unset_bit n (set_bit n w) = unset_bit n w" "unset_bit n (unset_bit n w) = unset_bit n w" for n
    by (auto intro: bit_word_eqI simp: bit_unset_bit_iff bit_set_bit_iff)
  then show "unset_bit (30 + unat ch) (w OR push_bit (unat ch) 0x40000000 :: u32) = unset_bit (30 + unat ch) w"
    "unset_bit (30 + unat ch) (w AND NOT (push_bit (unat ch) 0x40000000) :: u32) = unset_bit (30 + unat ch) w"
    unfolding one set_bit_eq_or [symmetric] unset_bit_eq_and_not [symmetric] by blast+
qed

lemma sync_bit:
  assumes "ch < (2 :: u32)"
  shows "bit (w OR push_bit (unat ch) 0x40000000 :: u32) (30 + unat ch)"
    "\<not> bit (w AND NOT (push_bit (unat ch) 0x40000000) :: u32) (30 + unat ch)"
proof -
  have "unat ch < 2" using assms by (simp add: word_less_nat_alt)
  then have "unat ch = 0 \<or> unat ch = 1" by linarith
  then have "bit (push_bit (unat ch) 0x40000000 :: u32) (30 + unat ch)" "30 + unat ch < 32"
    by (auto simp: bit_push_bit_iff bit_mask_u32)
  then show "bit (w OR push_bit (unat ch) 0x40000000 :: u32) (30 + unat ch)"
    "\<not> bit (w AND NOT (push_bit (unat ch) 0x40000000) :: u32) (30 + unat ch)"
    by (simp_all add: bit_or_iff bit_and_iff bit_not_iff)
qed

text \<open>What one operation does: an open is refused in asynchronous mode, otherwise it counts, and
  marks the port if it is the first; a close counts down and removes the mark if it is the last.\<close>

definition file_step_ok :: "file_op \<Rightarrow> driver \<Rightarrow> driver \<Rightarrow> bool" where
  "file_step_ok c s t \<longleftrightarrow> (\<exists>es. events t = rev es @ events s \<and> port_card t = port_card s \<and> channel t = channel s \<and>
     (\<forall>w. only_marks (port_card s) (channel s) w es) \<and>
     (case c of
        Open req \<Rightarrow> (open_counter t = open_counter s \<and> marks (port_card s) (channel s) es = [])
          \<or> (open_counter t = open_counter s + 1 \<and>
             marks (port_card s) (channel s) es = (if open_counter s + 1 = 1 then [True] else []))
      | Close \<Rightarrow> open_counter t = open_counter s - 1 \<and>
             marks (port_card s) (channel s) es = (if open_counter s - 1 = 0 then [False] else [])))"

lemma store_register_file [simp]:
  "events (store_register b off v s) = events s" "port_card (store_register b off v s) = port_card s"
  "channel (store_register b off v s) = channel s" "open_counter (store_register b off v s) = open_counter s"
  by (simp_all add: store_register_def)

lemma file_close_ok:
  assumes "channel s < 2"
  shows "file_step_ok Close s (FsccFileClose E s)"
proof -
  let ?v = "hw_reg E (port_card s) (events s) 2 FCR_OFFSET"
  let ?w = "?v AND NOT (push_bit (unat (channel s)) 0x40000000)"
  show ?thesis
  proof (cases "open_counter s - 1 = 0")
    case True
    then show ?thesis using sync_bit(2) [OF assms, of ?v] sync_bit_only(2) [of "channel s" ?v]
      unfolding file_step_ok_def
      by (intro exI [of _ "[rd (port_card s) 2 FCR_OFFSET ?v, wr (port_card s) 2 FCR_OFFSET ?w]"])
        (simp add: FsccFileClose_def get_register_eq set_register_plain dmaccr_value_def Let_def emits_def)
  next
    case False
    then show ?thesis unfolding file_step_ok_def
      by (intro exI [of _ "[]"]) (simp add: FsccFileClose_def Let_def)
  qed
qed

lemma file_create_ok:
  assumes "channel s < 2"
  shows "file_step_ok (Open req) s (FsccDeviceFileCreate E req s)"
proof -
  obtain async s1 where async: "fscc_port_using_async E s = (async, s1)" by fastforce
  let ?c = "port_card s"
  define v0 where "v0 = hw_reg E ?c (events s) 2 FCR_OFFSET"
  have s1: "events s1 = rd ?c 2 FCR_OFFSET v0 # events s" "port_card s1 = ?c" "channel s1 = channel s"
    "open_counter s1 = open_counter s"
    using async by (auto simp: v0_def fscc_port_using_async_def get_register_eq Let_def emits_def)
  define v where "v = hw_reg E ?c (rd ?c 2 FCR_OFFSET v0 # events s) 2 FCR_OFFSET"
  have v: "hw_reg E ?c (events s1) 2 FCR_OFFSET = v" using s1 by (simp add: v_def)
  let ?w = "v OR push_bit (unat (channel s)) 0x40000000"
  let ?complete = "\<lambda>st. Request_complete req st 0"
  consider "async \<noteq> 0" | (first) "async = 0" "open_counter s + 1 = 1" | (more) "async = 0" "open_counter s + 1 \<noteq> 1"
    by blast
  then show ?thesis
  proof cases
    case 1
    with async s1 show ?thesis unfolding file_step_ok_def
      by (intro exI [of _ "[rd ?c 2 FCR_OFFSET v0, ?complete STATUS_NOT_SUPPORTED]"])
        (simp add: FsccDeviceFileCreate_def complete_def emit_def)
  next
    case first
    with async s1 sync_bit(1) [OF assms, of v] sync_bit_only(1) [of "channel s" v] v show ?thesis unfolding file_step_ok_def
      by (intro exI [of _ "[rd ?c 2 FCR_OFFSET v0, rd ?c 2 FCR_OFFSET v, wr ?c 2 FCR_OFFSET ?w,
          ?complete STATUS_SUCCESS]"])
        (simp add: FsccDeviceFileCreate_def get_register_eq set_register_plain dmaccr_value_def Let_def
          complete_def emit_def emits_def)
  next
    case more
    with async s1 show ?thesis unfolding file_step_ok_def
      by (intro exI [of _ "[rd ?c 2 FCR_OFFSET v0, ?complete STATUS_SUCCESS]"])
        (simp add: FsccDeviceFileCreate_def complete_def emit_def Let_def)
  qed
qed

lemma file_create_counts:
  assumes "fst (fscc_port_using_async E s) = 0"
  shows "open_counter (FsccDeviceFileCreate E req s) = open_counter s + 1"
proof -
  obtain s1 where async: "fscc_port_using_async E s = (0, s1)"
    using assms by (metis prod.collapse)
  then have "open_counter s1 = open_counter s"
    by (auto simp: fscc_port_using_async_def get_register_eq Let_def)
  with async show ?thesis
    by (simp add: FsccDeviceFileCreate_def get_register_eq set_register_plain dmaccr_value_def Let_def
        complete_def emit_def emits_def)
qed

text \<open>Sequences of opens and closes: a file is closed only after it was opened, and the 32-bit
  counter does not run over.\<close>

fun file_run :: "env \<Rightarrow> file_op list \<Rightarrow> driver \<Rightarrow> driver" where
  "file_run E [] s = s"
| "file_run E (c # cs) s = file_run E cs (file_op_step E c s)"

fun file_run_ok :: "env \<Rightarrow> file_op list \<Rightarrow> driver \<Rightarrow> bool" where
  "file_run_ok E [] s = True"
| "file_run_ok E (c # cs) s =
     ((case c of Open r \<Rightarrow> open_counter s + 1 \<noteq> 0 | Close \<Rightarrow> open_counter s \<noteq> 0) \<and>
      file_run_ok E cs (file_op_step E c s))"

fun alternating :: "bool \<Rightarrow> nat \<Rightarrow> bool list" where
  "alternating b 0 = []"
| "alternating b (Suc n) = b # alternating (\<not> b) n"

lemma file_run_marks:
  assumes "channel s < 2" "file_run_ok E cs s"
  shows "\<exists>es n. events (file_run E cs s) = rev es @ events s \<and> (\<forall>w. only_marks (port_card s) (channel s) w es) \<and>
    marks (port_card s) (channel s) es = alternating (open_counter s = 0) n \<and>
    (open_counter (file_run E cs s) \<noteq> 0) = (if even n then open_counter s \<noteq> 0 else open_counter s = 0)"
  using assms
proof (induction cs arbitrary: s)
  case Nil
  show ?case by (intro exI [of _ "[]"] exI [of _ 0]) simp
next
  case (Cons c cs)
  let ?t = "file_op_step E c s"
  have "file_step_ok c s ?t" using file_create_ok [OF Cons.prems(1)] file_close_ok [OF Cons.prems(1)]
    by (cases c) simp_all
  then obtain es1 where t: "events ?t = rev es1 @ events s" "channel ?t = channel s"
    "port_card ?t = port_card s" "\<And>w. only_marks (port_card s) (channel s) w es1"
    "case c of
        Open req \<Rightarrow> (open_counter ?t = open_counter s \<and> marks (port_card s) (channel s) es1 = [])
          \<or> (open_counter ?t = open_counter s + 1 \<and>
             marks (port_card s) (channel s) es1 = (if open_counter s + 1 = 1 then [True] else []))
      | Close \<Rightarrow> open_counter ?t = open_counter s - 1 \<and>
             marks (port_card s) (channel s) es1 = (if open_counter s - 1 = 0 then [False] else [])"
    unfolding file_step_ok_def by fast
  have ok: "channel ?t < 2" "file_run_ok E cs ?t" using Cons.prems t(2) by simp_all
  from Cons.IH [OF ok] obtain es2 n where IH: "events (file_run E cs ?t) = rev es2 @ events ?t"
    "\<And>w. only_marks (port_card s) (channel s) w es2"
    "marks (port_card s) (channel s) es2 = alternating (open_counter ?t = 0) n"
    "(open_counter (file_run E cs ?t) \<noteq> 0) = (if even n then open_counter ?t \<noteq> 0 else open_counter ?t = 0)"
    unfolding t(2,3) by blast
  have minus: "(x - 1 = 0) = (x = 1)" for x :: u32 by simp
  consider (same) "marks (port_card s) (channel s) es1 = []" "(open_counter ?t = 0) = (open_counter s = 0)"
    | (flip) "marks (port_card s) (channel s) es1 = [open_counter s = 0]" "(open_counter ?t = 0) = (open_counter s \<noteq> 0)"
    using t(5) Cons.prems(2) by (cases c) (auto simp: minus split: if_splits)
  then show ?case
  proof cases
    case same
    with IH t(1) show ?thesis
      by (intro exI [of _ "es1 @ es2"] exI [of _ n]) (simp add: only_marks_append t(4))
  next
    case flip
    with IH t(1) show ?thesis
      by (intro exI [of _ "es1 @ es2"] exI [of _ "Suc n"]) (simp add: only_marks_append t(4))
  qed
qed

text \<open>Property C28. However often the port is opened and closed, its mark in \<open>FCR\<close> follows whether
  it is open: starting closed, the marks written to \<open>FCR\<close> are set, removed, set, and so on, and the
  last one written is a set exactly when the port is still open. No other register is written,
  and a write to \<open>FCR\<close> changes no other bit than the mark of this port. A file is closed only
  after it was opened, and the 32-bit counter does not run over.\<close>

theorem open_marks_port:
  assumes "channel s < 2" "open_counter s = 0" "file_run_ok E cs s"
  shows "let t = file_run E cs s; ms = marks (port_card s) (channel s) (new_events s t)
    in ms = alternating True (length ms) \<and> (open_counter t \<noteq> 0) = odd (length ms) \<and>
      only_marks (port_card s) (channel s) w (new_events s t)"
proof -
  from file_run_marks [OF assms(1,3)] assms(2) obtain es n where r:
    "events (file_run E cs s) = rev es @ events s" "\<And>w. only_marks (port_card s) (channel s) w es" "marks (port_card s) (channel s) es = alternating True n"
    "(open_counter (file_run E cs s) \<noteq> 0) = odd n" by (fastforce split: if_splits)
  have "length (alternating b n) = n" for b by (induction n arbitrary: b) simp_all
  with r show ?thesis by (simp add: Let_def new_events_eq [OF r(1)])
qed

lemma open_marks_port_witness:
  "let t = file_run example_env [Open 1, Close] free_port;
       ms = marks (port_card free_port) (channel free_port) (new_events free_port t)
   in ms = alternating True (length ms) \<and> (open_counter t \<noteq> 0) = odd (length ms) \<and>
     only_marks (port_card free_port) (channel free_port) 0 (new_events free_port t)"
proof (rule open_marks_port)
  show "channel free_port < 2" and o: "open_counter free_port = 0" by (simp_all add: example_defs)
  have "fst (fscc_port_using_async example_env free_port) = 0"
    by (simp add: fscc_port_using_async_def get_register_eq Let_def store_register_def hw_reg_def
        example_defs FSCC_REGISTERS_INIT_def)
  from file_create_counts [OF this] o
  show "file_run_ok example_env [Open 1, Close] free_port" by simp
qed

end
