(* ===== verification/Fscc_Requests.thy ===== *)
theory Fscc_Requests
  imports Fscc_Reads Fscc_Ioctl "HOL-Library.Multiset"
begin

text \<open>
  Who owns a request. A request belongs to the handler it is passed to, until it is
  completed, or handed to one of the driver's queues; a deferred routine that takes it out
  of a queue owns it again; purging a queue gives its requests back to the framework. The
  abstract view of a history is its ledger: the requests that wait in queues, those that
  were completed, and those that were cancelled. Every handler adds the request it was
  passed to the ledger, and nothing else, so no request is lost and none is completed twice.
\<close>

section \<open>The ledger\<close>

instantiation queue :: finite
begin

instance
proof
  have "(UNIV :: queue set) \<subseteq> {write_queue, write_queue2, read_queue, read_queue2, ioctl_queue, isr_queue,
      blocking_request_queue}"
    using queue.exhaust by blast
  then show "finite (UNIV :: queue set)" by (rule finite_subset) simp
qed

end

definition pending :: "history \<Rightarrow> request multiset" where
  "pending h = (\<Sum>q\<in>UNIV. mset (queue_contents q h))"

fun cancelled :: "history \<Rightarrow> request multiset" where
  "cancelled [] = {#}"
| "cancelled (Queue_purge q # h) = mset (queue_contents q h) + cancelled h"
| "cancelled (e # h) = cancelled h"

definition ledger :: "history \<Rightarrow> request multiset" where
  "ledger h = pending h + mset (completed h) + cancelled h"

lemma ledger_Nil [simp]: "ledger [] = {#}"
  by (simp add: ledger_def pending_def)

text \<open>An event that changes one queue only.\<close>

lemma pending_change:
  assumes "\<And>q'. q' \<noteq> q \<Longrightarrow> queue_contents q' h' = queue_contents q' h"
  shows "pending h' + mset (queue_contents q h) = pending h + mset (queue_contents q h')"
proof -
  have "(\<Sum>q'\<in>UNIV - {q}. mset (queue_contents q' h')) = (\<Sum>q'\<in>UNIV - {q}. mset (queue_contents q' h))"
    using assms by (intro sum.cong) auto
  then show ?thesis unfolding pending_def
    using sum.remove [of UNIV q "\<lambda>q'. mset (queue_contents q' h')"] sum.remove [of UNIV q "\<lambda>q'. mset (queue_contents q' h)"]
    by simp
qed

text \<open>An event that leaves every queue alone.\<close>

definition idle :: "event \<Rightarrow> bool" where
  "idle e \<longleftrightarrow> (\<forall>q rs. queue_step q e rs = rs)"

lemma ledger_idle:
  assumes "idle e" "\<And>q. e \<noteq> Queue_purge q"
  shows "ledger (e # h) = mset (completed [e]) + ledger h"
proof -
  have "pending (e # h) = pending h" using assms(1) by (simp add: pending_def idle_def)
  moreover have "completed (e # h) = completed [e] @ completed h" using completed_simps(2) [of "[e]" h] by simp
  moreover have "cancelled (e # h) = cancelled h" by (cases e) (use assms(2) in auto)
  ultimately show ?thesis by (simp add: ledger_def ac_simps)
qed

lemma idle_simps [simp]:
  "idle (Request_complete r st n)" "idle (Request_output r bs)" "idle (Queue_find q prev st r)" "idle (Dpc_enqueue d)"
  "\<not> NT_SUCCESS st \<Longrightarrow> idle (Queue_retrieve q st r)" "\<not> NT_SUCCESS st \<Longrightarrow> idle (Queue_retrieve_found q r st)"
  "\<not> NT_SUCCESS st \<Longrightarrow> idle (Request_forward r q st)"
  by (simp_all add: idle_def)

lemma quiet_idle: "quiet e \<or> of_memory e \<Longrightarrow> (\<And>q. e \<noteq> Queue_purge q) \<Longrightarrow> idle e"
  by (cases e) (simp_all add: idle_def)

lemma ledger_events [simp]:
  "ledger (Request_output r bs # h) = ledger h" "ledger (Queue_find q prev st r # h) = ledger h"
  "ledger (Dpc_enqueue d # h) = ledger h"
  "ledger (Request_complete r st n # h) = add_mset r (ledger h)"
  by (simp_all add: ledger_idle)

lemma ledger_failed [simp]:
  assumes "\<not> NT_SUCCESS st"
  shows "ledger (Queue_retrieve q st r # h) = ledger h" "ledger (Queue_retrieve_found q r st # h) = ledger h"
    "ledger (Request_forward r q st # h) = ledger h"
  using assms by (simp_all add: ledger_idle) (simp add: completed_def)

lemma ledger_forward [simp]: "ledger (Request_forward r q STATUS_SUCCESS # h) = add_mset r (ledger h)"
proof -
  have "pending (Request_forward r q STATUS_SUCCESS # h) + mset (queue_contents q h) =
      pending h + mset (queue_contents q (Request_forward r q STATUS_SUCCESS # h))"
    by (rule pending_change) simp
  then show ?thesis by (simp add: ledger_def completed_def)
qed

lemma ledger_purge: "ledger (Queue_purge q # h) = ledger h"
proof -
  have "pending (Queue_purge q # h) + mset (queue_contents q h) =
      pending h + mset (queue_contents q (Queue_purge q # h))"
    by (rule pending_change) simp
  then have "pending h = pending (Queue_purge q # h) + mset (queue_contents q h)" by simp
  then show ?thesis unfolding ledger_def by (simp add: completed_def)
qed

lemma pending_taken:
  assumes "r \<in> set (queue_contents q h)" "\<And>q' rs. queue_step q' e rs = (if q' = q then remove1 r rs else rs)"
  shows "pending h = add_mset r (pending (e # h))"
proof -
  have "pending (e # h) + mset (queue_contents q h) = pending h + mset (queue_contents q (e # h))"
    by (rule pending_change) (simp add: assms(2))
  moreover have "mset (queue_contents q h) = add_mset r (mset (remove1 r (queue_contents q h)))" using assms(1) by simp
  ultimately show ?thesis by (simp add: assms(2) del: mset_remove1)
qed

lemma ledger_taken:
  assumes "r \<in> set (queue_contents q h)"
  shows "add_mset r (ledger (Queue_retrieve q STATUS_SUCCESS r # h)) = ledger h"
    "add_mset r (ledger (Queue_retrieve_found q r STATUS_SUCCESS # h)) = ledger h"
  using pending_taken [OF assms, of "Queue_retrieve q STATUS_SUCCESS r"]
    pending_taken [OF assms, of "Queue_retrieve_found q r STATUS_SUCCESS"]
  by (simp_all add: ledger_def completed_def)

lemma completed_none: "quiet e \<or> of_memory e \<Longrightarrow> completed [e] = []"
  by (cases e) (simp_all add: completed_def)

lemma ledger_quiet: "quiet e \<or> of_memory e \<Longrightarrow> ledger (e # h) = ledger h"
  using ledger_idle [of e h] quiet_idle [of e] completed_none [of e] ledger_purge by fastforce

lemma ledger_all_quiet: "list_all quiet es \<Longrightarrow> ledger (rev es @ h) = ledger h"
  by (induction es arbitrary: h) (simp_all add: ledger_quiet)

lemma ledger_about: "only_about req es \<Longrightarrow> ledger (rev es @ h) = ledger h + replicate_mset (length (answers req es)) req"
proof (induction es arbitrary: h)
  case (Cons e es)
  have rest: "only_about req es" using Cons.prems by (simp add: only_about_def)
  have split: "answers req (e # es) = answers req [e] @ answers req es" by (simp flip: answers_simps(2))
  show ?case
  proof (cases "quiet e \<or> of_memory e")
    case True
    then show ?thesis using Cons.IH [OF rest] answers_none [OF True, of req "[]"] by (simp add: ledger_quiet split)
  next
    case False
    then consider st n where "e = Request_complete req st n" | q st where "e = Request_forward req q st"
      | bs where "e = Request_output req bs"
      using Cons.prems by (cases e) (auto simp: only_about_def)
    then show ?thesis
    proof cases
      case (2 q st)
      then show ?thesis using Cons.IH [OF rest] by (cases "NT_SUCCESS st") simp_all
    next
      case (3 bs)
      then have "answers req (e # es) = answers req es" by (simp add: answers_def)
      then show ?thesis using Cons.IH [OF rest] 3 by simp
    qed (use Cons.IH [OF rest] in simp)
  qed
qed simp

lemma ledger_answered: "answers_once req es \<Longrightarrow> ledger (rev es @ h) = add_mset req (ledger h)"
  using ledger_about [of req es h] by (simp add: answers_once_def)

section \<open>The routines that take requests out of queues\<close>

lemma taking_live:
  "read_run st req es \<Longrightarrow> pool_live es = 0 \<and> buffers_live es = 0"
  "found_run req st st2 es \<Longrightarrow> pool_live es = 0 \<and> buffers_live es = 0"
  by (auto simp: read_run_def found_run_def answers_once_def live_quiet split: if_splits)

lemma in_first_request: "first_request rs = (st, r) \<Longrightarrow> NT_SUCCESS st \<Longrightarrow> r \<in> set rs"
  by (auto simp: first_request_def split: list.splits)

lemma next_in_queue:
  assumes "queue_works E q" "retrieve_next E h q = (STATUS_SUCCESS, r)"
  shows "r \<in> set (queue_contents q h)"
proof -
  obtain st r' where f: "first_request (queue_contents q h) = (st, r')" by fastforce
  then have "st = STATUS_SUCCESS" "r' = r"
    using queue_worksD(1) [OF assms(1), of h] assms(2) by (auto simp: same_answer_def)
  with in_first_request [OF f] show ?thesis by simp
qed

lemma found_in_queue:
  assumes "queue_works E q" "retrieve_found E h q r = STATUS_SUCCESS"
  shows "r \<in> set (queue_contents q h)"
  using queue_worksD(3) [OF assms(1), of h r] assms(2) by (simp split: if_splits)

lemma ledger_read_run:
  assumes "queue_works E read_queue2" "retrieve_next E h read_queue2 = (st, req)" "read_run st req es"
  shows "ledger (rev es @ h) = ledger h"
proof -
  from assms(3) obtain inner fin where es: "es = Queue_retrieve read_queue2 st req # inner @ fin" "list_all quiet inner"
    "if NT_SUCCESS st then answers_once req fin else fin = []" unfolding read_run_def by blast
  have quiet: "ledger (rev inner @ k) = ledger k" for k by (rule ledger_all_quiet [OF es(2)])
  show ?thesis
  proof (cases "NT_SUCCESS st")
    case True
    then have "req \<in> set (queue_contents read_queue2 h)" using next_in_queue [OF assms(1)] assms(2) by simp
    with True es(3) quiet ledger_answered ledger_taken(1) show ?thesis by (simp add: es(1))
  next
    case False
    with es(3) quiet show ?thesis by (simp add: es(1))
  qed
qed

lemma ledger_found_run:
  assumes "queue_works E blocking_request_queue"
    and "retrieve_found E (Queue_find blocking_request_queue None st req # h) blocking_request_queue req = st2"
    and "found_run req st st2 es"
  shows "ledger (rev es @ h) = ledger h"
proof -
  let ?h = "Queue_find blocking_request_queue None st req # h"
  from assms(3) consider "es = [Queue_find blocking_request_queue None st req]"
    | fin where "es = Queue_find blocking_request_queue None st req # Queue_retrieve_found blocking_request_queue req st2 # fin"
      "if NT_SUCCESS st2 then answers_once req fin \<and> completed fin = [req] else fin = []"
    unfolding found_run_def by blast
  then show ?thesis
  proof cases
    case (2 fin)
    show ?thesis
    proof (cases "NT_SUCCESS st2")
      case True
      then have "req \<in> set (queue_contents blocking_request_queue ?h)"
        using found_in_queue [OF assms(1), of ?h req] assms(2) by simp
      from ledger_taken(2) [OF this] True 2 ledger_answered [of req fin] show ?thesis by simp
    qed (use 2 in simp)
  qed simp
qed

text \<open>The two loops, when they end.\<close>

definition accounts :: "driver \<Rightarrow> driver \<Rightarrow> bool" where
  "accounts s s' \<longleftrightarrow> ledger (events s') = ledger (events s) \<and>
     (\<exists>es. s' = emits es s \<and> pool_live es = 0 \<and> buffers_live es = 0)"

lemma accounts_trans: "accounts s t \<Longrightarrow> accounts t u \<Longrightarrow> accounts s u"
proof -
  assume "accounts s t" "accounts t u"
  then obtain es es' where "t = emits es s" "u = emits es' t" "pool_live (es @ es') = 0" "buffers_live (es @ es') = 0"
    "ledger (events u) = ledger (events s)" by (auto simp: accounts_def)
  then show "accounts s u" unfolding accounts_def by (auto simp: emits_emits intro: exI [of _ "es @ es'"])
qed

lemma accounts_emits: "ledger (rev es @ events s) = ledger (events s) \<Longrightarrow> pool_live es = 0 \<Longrightarrow>
    buffers_live es = 0 \<Longrightarrow> accounts s (emits es s)"
  by (auto simp: accounts_def)

lemma isr_alert_loop_accounts:
  "isr_alert_loop E v prev s = Some s' \<Longrightarrow> queue_works E isr_queue \<Longrightarrow> accounts s s'"
proof (induction rule: isr_alert_loop.raw_induct [rotated, consumes 1, case_names step])
  case (step loop E v prev s s')
  obtain st tag where find: "find_request E (events s) isr_queue prev = (st, tag)" by fastforce
  let ?find = "\<lambda>x. Queue_find isr_queue prev x tag" and ?found = "\<lambda>x. Queue_retrieve_found isr_queue tag x"
  have a1: "accounts s (emits [?find x] s)" for x by (rule accounts_emits) simp_all
  have a2: "accounts s (emits [?find x, ?found st2] s)" if "st2 \<noteq> STATUS_SUCCESS" for x st2
    by (rule accounts_emits) (use that in simp_all)
  have a3: "accounts s (emits [?find x, ?found STATUS_SUCCESS, Request_output tag bs,
      Request_complete tag STATUS_SUCCESS n] s)"
    if "retrieve_found E (?find x # events s) isr_queue tag = STATUS_SUCCESS" for x bs n
    using ledger_taken(2) [OF found_in_queue [OF step.prems that]] by (intro accounts_emits) simp_all
  have later: "accounts t s'" if "loop E v prev' t = Some s'" for prev' t
    using step.IH [OF that step.prems] .
  show ?case
    using step.hyps find
    by (auto simp: Let_def emit_emits emits_emits bind_eq_Some_conv split: if_splits
        intro: a1 a2 accounts_trans [OF a1 later] accounts_trans [OF a2 later] accounts_trans [OF a3 later])
qed

lemma alls_loop_accounts:
  "alls_loop E s = Some s' \<Longrightarrow> queue_works E write_queue2 \<Longrightarrow> accounts s s'"
proof (induction rule: alls_loop.raw_induct [rotated, consumes 1, case_names step])
  case (step loop E s s')
  obtain st r where nxt: "retrieve_next E (events s) write_queue2 = (st, r)" by fastforce
  show ?case
  proof (cases "NT_SUCCESS st")
    case True
    let ?t = "\<lambda>n. emits [Queue_retrieve write_queue2 STATUS_SUCCESS r, Request_complete r STATUS_SUCCESS n] s"
    have "r \<in> set (queue_contents write_queue2 (events s))"
      using next_in_queue [OF step.prems] nxt True by simp
    then have "accounts s (?t n)" for n by (intro accounts_emits) (simp_all add: ledger_taken)
    moreover obtain n where "loop E (?t n) = Some s'"
      using step.hyps nxt True by (auto simp: Let_def emit_emits emits_emits)
    ultimately show ?thesis using accounts_trans step.IH [OF _ step.prems] by blast
  next
    case False
    then have "s' = emits [Queue_retrieve write_queue2 st r] s"
      using step.hyps nxt by (simp add: Let_def emit_emits)
    with False show ?thesis by (simp add: accounts_emits)
  qed
qed

text \<open>The alert loop ends whenever the queue holds a request at most once, also if some of the
  requests have no usable buffers.\<close>

lemma isr_alert_loop_returns:
  assumes "queue_works E isr_queue" "inputs_as_asked E" "queue_contents isr_queue (events s) = Ks @ Rs"
    "distinct (Ks @ Rs)" "prev = (if Ks = [] then None else Some (last Ks))" "length (Ks @ Rs) \<le> N"
  shows "\<exists>s'. isr_alert_loop E v prev s = Some s'"
  using assms(3-)
proof (induction "length (Ks @ Rs) * Suc N + length Rs" arbitrary: s Ks Rs prev rule: less_induct)
  case less
  have find: "same_answer (find_request E (events s) isr_queue prev) (first_request Rs)"
    using queue_worksD(2) [OF assms(1), of "events s" prev]
    unfolding less.prems(1,3) request_after_prefix [OF less.prems(2)] .
  obtain st tag where f: "find_request E (events s) isr_queue prev = (st, tag)" by fastforce
  let ?e = "Queue_find isr_queue prev st tag"
  show ?case
  proof (cases Rs)
    case Nil
    then have "st = STATUS_NO_MORE_ENTRIES" using find f by (simp add: first_request_def same_answer_def)
    with f show ?thesis by (simp add: isr_alert_loop.simps)
  next
    case (Cons r Rs')
    then have tag: "st = STATUS_SUCCESS" "tag = r" using find f by (simp_all add: first_request_def same_answer_def)
    let ?s1 = "emits [?e] s"
    have Q1: "queue_contents isr_queue (events ?s1) = Ks @ r # Rs'" using less.prems(1) Cons by simp
    have found: "retrieve_found E (events ?s1) isr_queue r = STATUS_SUCCESS"
      using queue_worksD(3) [OF assms(1), of "events ?s1" r] unfolding Q1 by simp
    have skip: "\<exists>s'. isr_alert_loop E v (Some r) ?s1 = Some s'"
      using less.hyps [of "Ks @ [r]" Rs' ?s1 "Some r"] less.prems(2,4) Cons Q1 by simp
    have "r \<notin> set Ks" using less.prems(2) Cons by auto
    then have rem: "remove1 r (Ks @ r # Rs') = Ks @ Rs'" by (simp add: remove1_append)
    have take: "\<exists>s'. isr_alert_loop E v None (emits [?e, Queue_retrieve_found isr_queue r STATUS_SUCCESS,
        Request_output r bs, Request_complete r STATUS_SUCCESS 4] s) = Some s'" for bs
      using less.hyps [of "[]" "Ks @ Rs'"] less.prems(1,2,4) Cons rem tag by simp
    show ?thesis
    proof (cases "NT_SUCCESS (fst (input_buffer E r 4)) \<and> NT_SUCCESS (output_buffer E r 4)")
      case True
      then have "4 \<le> length (snd (input_buffer E r 4))"
        using assms(2) by (auto simp: inputs_as_asked_def split_beta)
      then obtain m where "chars_to_u32 (snd (input_buffer E r 4)) = Some m" using chars_to_u32_Some by blast
      with True f tag found skip take [of "u32_bytes (v AND m)"] show ?thesis
        by (subst isr_alert_loop.simps) (auto simp: Let_def emit_emits emits_emits)
    next
      case False
      with f tag show ?thesis by (subst isr_alert_loop.simps) (auto simp: Let_def)
    qed
  qed
qed

end
