(* ===== verification/Fscc_Platform.thy ===== *)
theory Fscc_Platform
  imports Fscc_Memory Fscc_Settings
begin

text \<open>
  The calls to the driver framework that set up a device, and the registry: the port number
  (\<open>driver.c\<close>, \<open>port.c\<close>), the default memory sizes and the default registers
  (\<open>port.c\<close>, \<open>config.h\<close>). The framework is the parameter \<open>platform\<close>; its answers may
  depend on the history. A registry that works as documented answers a query with the last
  value assigned (\<open>registry_works\<close>).
\<close>

section \<open>Calls\<close>

record platform =
  answer :: "history \<Rightarrow> framework_call \<Rightarrow> NTSTATUS"
  registry_value :: "history \<Rightarrow> registry_key \<Rightarrow> string \<Rightarrow> u32"
  mapped_address :: "history \<Rightarrow> u64 \<Rightarrow> u32 \<Rightarrow> u64"
  irp_built :: "history \<Rightarrow> bool"
  config_word :: "history \<Rightarrow> u32 \<Rightarrow> 16 word option"

text \<open>A call with a status, a call without one, and a query of a value.\<close>

definition framework :: "platform \<Rightarrow> framework_call \<Rightarrow> history \<Rightarrow> NTSTATUS \<times> history" where
  "framework P c h = (let status = answer P h c in (status, Framework c status # h))"

definition logged :: "framework_call \<Rightarrow> history \<Rightarrow> history" where
  "logged c h = Framework c STATUS_SUCCESS # h"

definition WdfRegistryQueryULong ::
  "platform \<Rightarrow> registry_key \<Rightarrow> string \<Rightarrow> history \<Rightarrow> NTSTATUS \<times> u32 \<times> history" where
  "WdfRegistryQueryULong P key key_str h =
     (let (status, h1) = framework P (Query_ulong key key_str) h
      in (status, registry_value P h key key_str, h1))"

text \<open>\<open>%i\<close> prints the bits of its argument as a signed number.\<close>

fun decimal :: "nat \<Rightarrow> string" where
  "decimal n = (if n < 10 then [char_of (48 + n)] else decimal (n div 10) @ [char_of (48 + n mod 10)])"

declare decimal.simps [simp del]

definition print_int :: "i32 \<Rightarrow> string" where
  "print_int v = (if sint v < 0 then CHR ''-'' # decimal (nat (- sint v)) else decimal (nat (sint v)))"

section \<open>The number of a port\<close>

text \<open>The last number given is kept in the driver's key, the number of a port in the key of
  its device. The second argument is the variable the result is stored to.\<close>

definition fscc_driver_get_last_port_num ::
  "platform \<Rightarrow> i32 \<Rightarrow> history \<Rightarrow> NTSTATUS \<times> i32 \<times> history" where
  "fscc_driver_get_last_port_num P port_num h =
     (let (status, h1) = framework P (Open_registry_key Driver_key) h
      in if \<not> NT_SUCCESS status then (status, port_num, h1)
      else (let (status, port_num_long, h2) = WdfRegistryQueryULong P Driver_key ''LastPortNumber'' h1
      in if \<not> NT_SUCCESS status then (status, port_num, h2)
      else (status, port_num_long, logged (Registry_close Driver_key) h2)))"

definition fscc_driver_set_last_port_num :: "platform \<Rightarrow> i32 \<Rightarrow> history \<Rightarrow> NTSTATUS \<times> history" where
  "fscc_driver_set_last_port_num P v h =
     (let (status, h1) = framework P (Open_registry_key Driver_key) h
      in if \<not> NT_SUCCESS status then (status, h1)
      else (let (status, h2) = framework P (Assign_ulong Driver_key ''LastPortNumber'' v) h1
      in if \<not> NT_SUCCESS status then (status, h2)
      else (status, logged (Registry_close Driver_key) h2)))"

definition fscc_port_get_port_num ::
  "platform \<Rightarrow> device \<Rightarrow> u32 \<Rightarrow> history \<Rightarrow> NTSTATUS \<times> u32 \<times> history" where
  "fscc_port_get_port_num P d port_num h =
     (let (status, h1) = framework P (Open_registry_key (Device_key d)) h
      in if \<not> NT_SUCCESS status then (status, port_num, h1)
      else (let (status, port_num_long, h2) = WdfRegistryQueryULong P (Device_key d) ''PortNumber'' h1
      in if \<not> NT_SUCCESS status then (status, port_num, h2)
      else (status, port_num_long, logged (Registry_close (Device_key d)) h2)))"

definition fscc_port_set_port_num :: "platform \<Rightarrow> device \<Rightarrow> u32 \<Rightarrow> history \<Rightarrow> NTSTATUS \<times> history" where
  "fscc_port_set_port_num P d v h =
     (let (status, h1) = framework P (Open_registry_key (Device_key d)) h
      in if \<not> NT_SUCCESS status then (status, h1)
      else (let (status, h2) = framework P (Assign_ulong (Device_key d) ''PortNumber'' v) h1
      in if \<not> NT_SUCCESS status then (status, h2)
      else (status, logged (Registry_close (Device_key d)) h2)))"

definition fscc_port_set_friendly_name :: "platform \<Rightarrow> u32 \<Rightarrow> history \<Rightarrow> NTSTATUS \<times> history" where
  "fscc_port_set_friendly_name P portnum h =
     (let friendlyName = ''FSCC Port (FSCC'' @ print_int portnum @ '')''
      in if length friendlyName \<ge> 256 then (STATUS_INVALID_PARAMETER, h)
      else framework P (Assign_friendly_name friendlyName) h)"

section \<open>Defaults\<close>

abbreviation (input) DEFAULT_BUFFER_RX_NUM :: u32 where "DEFAULT_BUFFER_RX_NUM \<equiv> 200"
abbreviation (input) DEFAULT_BUFFER_TX_NUM :: u32 where "DEFAULT_BUFFER_TX_NUM \<equiv> 200"
abbreviation (input) DEFAULT_BUFFER_RX_SIZE :: u32 where "DEFAULT_BUFFER_RX_SIZE \<equiv> 256"
abbreviation (input) DEFAULT_BUFFER_TX_SIZE :: u32 where "DEFAULT_BUFFER_TX_SIZE \<equiv> 256"

text \<open>One query: a name that cannot be read is assigned its default, and the default is used
  whether or not that assignment works.\<close>

definition value_or_default ::
  "platform \<Rightarrow> registry_key \<Rightarrow> string \<Rightarrow> u32 \<Rightarrow> history \<Rightarrow> u32 \<times> history" where
  "value_or_default P devkey key_str dflt h =
     (let (status, v, h1) = WdfRegistryQueryULong P devkey key_str h
      in if \<not> NT_SUCCESS status
         then (dflt, snd (framework P (Assign_ulong devkey key_str dflt) h1))
         else (v, h1))"

definition fscc_port_get_default_memory ::
  "platform \<Rightarrow> device \<Rightarrow> fscc_memory \<Rightarrow> history \<Rightarrow> NTSTATUS \<times> fscc_memory \<times> history" where
  "fscc_port_get_default_memory P d mem h =
     (let devkey = Device_key d;
          (status, h1) = framework P (Open_registry_key devkey) h
      in if \<not> NT_SUCCESS status then (status, mem, h1)
      else (let (txn, h2) = value_or_default P devkey ''TxNum'' DEFAULT_BUFFER_TX_NUM h1;
                (rxn, h3) = value_or_default P devkey ''RxNum'' DEFAULT_BUFFER_RX_NUM h2;
                (txs, h4) = value_or_default P devkey ''TxSize'' DEFAULT_BUFFER_TX_SIZE h3;
                (rxs, h5) = value_or_default P devkey ''RxSize'' DEFAULT_BUFFER_RX_SIZE h4
            in (STATUS_SUCCESS, mem\<lparr>tx_num := txn, rx_num := rxn, tx_size := txs, rx_size := rxs\<rparr>,
                logged (Registry_close devkey) h5)))"

text \<open>The registers with a default, with their names in the registry and their places in the
  register structure.\<close>

definition default_registers :: "(string \<times> nat \<times> u32) list" where
  "default_registers =
     [(''FIFOT'', 2, 0x08001000), (''CCR0'', 7, 0x0011201c), (''CCR1'', 8, 0x00000018),
      (''CCR2'', 9, 0), (''BGR'', 10, 0), (''SSR'', 11, 0x7e), (''SMR'', 12, 0),
      (''TSR'', 13, 0x7e), (''TMR'', 14, 0), (''RAR'', 15, 0), (''RAMR'', 16, 0),
      (''PPR'', 17, 0), (''TCR'', 18, 0), (''IMR'', 21, 0x0f000000), (''DPLLR'', 22, 4),
      (''FCR'', 23, 0)]"

fun load_registers ::
  "platform \<Rightarrow> registry_key \<Rightarrow> (string \<times> nat \<times> u32) list \<Rightarrow> i64 list \<Rightarrow> history \<Rightarrow>
    i64 list \<times> history" where
  "load_registers P devkey [] regs h = (regs, h)"
| "load_registers P devkey ((key_str, i, dflt) # rest) regs h =
     (let (v, h1) = value_or_default P devkey key_str dflt h
      in load_registers P devkey rest (regs[i := ucast v]) h1)"

definition fscc_port_get_default_registers ::
  "platform \<Rightarrow> device \<Rightarrow> i64 list \<Rightarrow> history \<Rightarrow> NTSTATUS \<times> i64 list \<times> history" where
  "fscc_port_get_default_registers P d regs h =
     (let devkey = Device_key d;
          (status, h1) = framework P (Open_registry_key devkey) h
      in if \<not> NT_SUCCESS status then (status, regs, h1)
      else (let (regs', h2) = load_registers P devkey default_registers regs h1
            in (STATUS_SUCCESS, regs', logged (Registry_close devkey) h2)))"

section \<open>A registry that works\<close>

type_synonym registry = "registry_key \<Rightarrow> string \<Rightarrow> u32 option"

definition store_value :: "registry_key \<Rightarrow> string \<Rightarrow> u32 \<Rightarrow> registry \<Rightarrow> registry" where
  "store_value key key_str v R = R(key := (R key)(key_str \<mapsto> v))"

text \<open>What a history leaves in a registry that held \<open>R\<close> before it.\<close>

fun registry_step :: "event \<Rightarrow> registry \<Rightarrow> registry" where
  "registry_step (Framework (Assign_ulong key key_str v) STATUS_SUCCESS) R = store_value key key_str v R"
| "registry_step _ R = R"

definition registry_after :: "registry \<Rightarrow> history \<Rightarrow> registry" where
  "registry_after R h = foldr registry_step h R"

lemma registry_after_simps [simp]:
  "registry_after R [] = R" "registry_after R (e # h) = registry_step e (registry_after R h)"
  by (simp_all add: registry_after_def)

definition registry_works :: "platform \<Rightarrow> registry \<Rightarrow> bool" where
  "registry_works P R \<longleftrightarrow> (\<forall>h key key_str v.
     answer P h (Open_registry_key key) = STATUS_SUCCESS \<and>
     answer P h (Assign_ulong key key_str v) = STATUS_SUCCESS \<and>
     (case registry_after R h key key_str of
        None \<Rightarrow> answer P h (Query_ulong key key_str) = STATUS_OBJECT_NAME_NOT_FOUND
      | Some w \<Rightarrow> answer P h (Query_ulong key key_str) = STATUS_SUCCESS \<and> registry_value P h key key_str = w))"

lemma registry_worksD:
  assumes "registry_works P R"
  shows "answer P h (Open_registry_key key) = STATUS_SUCCESS"
    "answer P h (Assign_ulong key key_str v) = STATUS_SUCCESS"
    "registry_after R h key key_str = None \<Longrightarrow>
      answer P h (Query_ulong key key_str) = STATUS_OBJECT_NAME_NOT_FOUND"
    "registry_after R h key key_str = Some w \<Longrightarrow>
      answer P h (Query_ulong key key_str) = STATUS_SUCCESS \<and> registry_value P h key key_str = w"
  using assms [unfolded registry_works_def, rule_format, of h key key_str v] by simp_all

text \<open>The value a name ends up with.\<close>

definition value_or :: "registry \<Rightarrow> registry_key \<Rightarrow> string \<Rightarrow> u32 \<Rightarrow> u32" where
  "value_or R key key_str dflt = (case R key key_str of None \<Rightarrow> dflt | Some v \<Rightarrow> v)"

lemma store_value_apply:
  "store_value key key_str v R key' key_str' =
     (if key' = key \<and> key_str' = key_str then Some v else R key' key_str')"
  by (simp add: store_value_def)

lemma store_value_or:
  "store_value key key_str (value_or R key key_str dflt) R = R"
  if "R key key_str \<noteq> None"
  using that by (auto simp: store_value_def value_or_def fun_eq_iff)

lemma value_or_default_works:
  assumes "registry_works P R"
  shows "\<exists>es. value_or_default P key key_str dflt h =
      (value_or (registry_after R h) key key_str dflt, es @ h) \<and>
    registry_after R (es @ h) = store_value key key_str
      (value_or (registry_after R h) key key_str dflt) (registry_after R h)"
proof (cases "registry_after R h key key_str")
  case None
  let ?h = "Framework (Query_ulong key key_str) STATUS_OBJECT_NAME_NOT_FOUND # h"
  show ?thesis
    by (rule exI [of _ "[Framework (Assign_ulong key key_str dflt) STATUS_SUCCESS,
        Framework (Query_ulong key key_str) STATUS_OBJECT_NAME_NOT_FOUND]"])
      (use None registry_worksD(2) [OF assms, of ?h] registry_worksD(3) [OF assms None] in
        \<open>simp add: value_or_default_def WdfRegistryQueryULong_def framework_def value_or_def\<close>)
next
  case (Some w)
  show ?thesis
    by (rule exI [of _ "[Framework (Query_ulong key key_str) STATUS_SUCCESS]"])
      (use Some registry_worksD(4) [OF assms Some] in
        \<open>auto simp: value_or_default_def WdfRegistryQueryULong_def framework_def value_or_def
          store_value_def fun_eq_iff\<close>)
qed

text \<open>What loading a table leaves in the registry: every name has a value.\<close>

definition with_defaults :: "registry_key \<Rightarrow> (string \<times> u32) list \<Rightarrow> registry \<Rightarrow> registry" where
  "with_defaults key defaults R = fold (\<lambda>(key_str, dflt) R.
     store_value key key_str (value_or R key key_str dflt) R) defaults R"

lemma with_defaults_simps [simp]:
  "with_defaults key [] R = R"
  "with_defaults key ((key_str, dflt) # rest) R =
     with_defaults key rest (store_value key key_str (value_or R key key_str dflt) R)"
  by (simp_all add: with_defaults_def)

lemma with_defaults_apply:
  assumes "distinct (map fst defaults)"
  shows "with_defaults key defaults R key' key_str =
    (if key' = key then case map_of defaults key_str of None \<Rightarrow> R key key_str
       | Some dflt \<Rightarrow> Some (value_or R key key_str dflt)
     else R key' key_str)"
  using assms
proof (induction defaults arbitrary: R)
  case Nil
  then show ?case by simp
next
  case (Cons entry rest)
  obtain k d where entry: "entry = (k, d)" by fastforce
  have "map_of rest k = None" using Cons.prems entry by (auto simp: map_of_eq_None_iff)
  then show ?case using Cons entry
    by (auto simp: store_value_apply value_or_def split: option.splits)
qed

lemma load_registers_works:
  assumes "registry_works P R" "distinct (map fst table)"
  shows "\<exists>es. load_registers P key table regs h =
      (fold (\<lambda>(key_str, i, dflt) regs. regs[i := ucast (value_or (registry_after R h) key key_str dflt)])
        table regs, es @ h) \<and>
    registry_after R (es @ h) = with_defaults key (map (\<lambda>(key_str, i, dflt). (key_str, dflt)) table)
      (registry_after R h)"
  using assms(2)
proof (induction table arbitrary: regs h)
  case Nil
  then show ?case by (auto intro: exI [of _ "[]"])
next
  case (Cons entry rest)
  obtain k i d where entry: "entry = (k, i, d)" by (cases entry)
  from value_or_default_works [OF assms(1), of key k d h] obtain es where es:
    "value_or_default P key k d h = (value_or (registry_after R h) key k d, es @ h)"
    "registry_after R (es @ h) = store_value key k (value_or (registry_after R h) key k d) (registry_after R h)"
    by blast
  have rest: "fold (\<lambda>(key_str, i, dflt) regs. regs[i := ucast (value_or (registry_after R (es @ h)) key key_str dflt)])
        rest regs' =
    fold (\<lambda>(key_str, i, dflt) regs. regs[i := ucast (value_or (registry_after R h) key key_str dflt)])
        rest regs'" for regs' :: "i64 list"
    using Cons.prems entry
    by (intro fold_cong refl) (force simp: value_or_def es(2) store_value_apply)
  from Cons.IH [of "regs[i := ucast (value_or (registry_after R h) key k d)]" "es @ h"] Cons.prems
  obtain es' where IH: "load_registers P key rest (regs[i := ucast (value_or (registry_after R h) key k d)]) (es @ h) =
      (fold (\<lambda>(key_str, i, dflt) regs. regs[i := ucast (value_or (registry_after R (es @ h)) key key_str dflt)])
        rest (regs[i := ucast (value_or (registry_after R h) key k d)]), es' @ es @ h)"
    "registry_after R (es' @ es @ h) = with_defaults key (map (\<lambda>(key_str, i, dflt). (key_str, dflt)) rest)
      (registry_after R (es @ h))" by auto
  show ?case
    using IH es entry rest by (intro exI [of _ "es' @ es"]) simp
qed

lemma load_length [simp]:
  "length (fold (\<lambda>(key_str, i, dflt) regs. regs[i := f key_str dflt]) table regs) = length regs"
  by (induction table arbitrary: regs) auto

lemma load_other:
  "i \<notin> set (map (fst \<circ> snd) table) \<Longrightarrow>
   fold (\<lambda>(key_str, i, dflt) regs. regs[i := f key_str dflt]) table regs ! i = regs ! i"
  by (induction table arbitrary: regs) auto

lemma load_nth:
  assumes "distinct (map (fst \<circ> snd) table)" "(key_str, i, dflt) \<in> set table" "i < length regs"
  shows "fold (\<lambda>(key_str, i, dflt) regs. regs[i := f key_str dflt]) table regs ! i = f key_str dflt"
  using assms
proof (induction table arbitrary: regs)
  case Nil
  then show ?case by simp
next
  case (Cons entry rest)
  show ?case
  proof (cases "entry = (key_str, i, dflt)")
    case True
    with Cons.prems load_other [of i rest f "regs[i := f key_str dflt]"] show ?thesis by simp
  next
    case False
    then have "(key_str, i, dflt) \<in> set rest" using Cons.prems(2) by auto
    with Cons.IH [of "(case entry of (k, j, d) \<Rightarrow> regs[j := f k d])"] Cons.prems(1,3)
    show ?thesis by (auto split: prod.splits)
  qed
qed

abbreviation (input) table_names :: "(string \<times> nat \<times> u32) list \<Rightarrow> (string \<times> u32) list" where
  "table_names table \<equiv> map (\<lambda>(key_str, i, dflt). (key_str, dflt)) table"

text \<open>Names that all have a value are left alone.\<close>

lemma with_defaults_idem:
  assumes "list_all (\<lambda>(key_str, dflt). R key key_str \<noteq> None) defaults"
  shows "with_defaults key defaults R = R"
  using assms
  by (induction defaults) (auto simp: store_value_or split: prod.splits)

lemma default_registers_distinct:
  "distinct (map fst default_registers)" "distinct (map (fst \<circ> snd) default_registers)"
  by (simp_all add: default_registers_def)

lemma get_default_registers_works:
  assumes "registry_works P R0"
  shows "\<exists>h'. fscc_port_get_default_registers P d regs h = (STATUS_SUCCESS,
      fold (\<lambda>(key_str, i, dflt) regs. regs[i := ucast (value_or (registry_after R0 h) (Device_key d) key_str dflt)])
        default_registers regs, h') \<and>
    registry_after R0 h' = with_defaults (Device_key d) (table_names default_registers) (registry_after R0 h)"
proof -
  let ?h1 = "Framework (Open_registry_key (Device_key d)) STATUS_SUCCESS # h"
  have h1: "registry_after R0 ?h1 = registry_after R0 h" by simp
  from load_registers_works [OF assms default_registers_distinct(1), of "Device_key d" regs ?h1, unfolded h1]
  obtain es where "load_registers P (Device_key d) default_registers regs ?h1 =
      (fold (\<lambda>(key_str, i, dflt) regs. regs[i := ucast (value_or (registry_after R0 h) (Device_key d) key_str dflt)])
        default_registers regs, es @ ?h1)"
    "registry_after R0 (es @ ?h1) = with_defaults (Device_key d) (table_names default_registers) (registry_after R0 h)"
    by blast
  then show ?thesis
    using registry_worksD(1) [OF assms]
    by (simp add: fscc_port_get_default_registers_def framework_def logged_def Let_def)
qed

text \<open>Property C39. The registry supplies the default registers: with a registry that works, each
  of the sixteen registers with a default gets the value stored for its device, or else the
  default of the configuration, which is then stored; no other register and no other name
  of the registry changes. So the next start reads the same values again and stores nothing
  new.\<close>

theorem default_registers_stored:
  assumes "registry_works P R0" and "length regs = NUM_REGS"
  shows "case fscc_port_get_default_registers P d regs h of (st, regs1, h1) \<Rightarrow>
    st = STATUS_SUCCESS \<and> length regs1 = NUM_REGS \<and>
    list_all (\<lambda>(key_str, i, dflt).
      regs1 ! i = ucast (value_or (registry_after R0 h) (Device_key d) key_str dflt) \<and>
      registry_after R0 h1 (Device_key d) key_str =
        Some (value_or (registry_after R0 h) (Device_key d) key_str dflt)) default_registers \<and>
    (\<forall>i. i \<notin> set (map (fst \<circ> snd) default_registers) \<longrightarrow> regs1 ! i = regs ! i) \<and>
    (\<forall>key key_str. key \<noteq> Device_key d \<or> key_str \<notin> set (map fst default_registers) \<longrightarrow>
      registry_after R0 h1 key key_str = registry_after R0 h key key_str) \<and>
    (case fscc_port_get_default_registers P d regs h1 of (st2, regs2, h2) \<Rightarrow>
      st2 = STATUS_SUCCESS \<and> regs2 = regs1 \<and> registry_after R0 h2 = registry_after R0 h1)"
proof -
  let ?R = "registry_after R0 h" and ?key = "Device_key d"
  let ?load = "\<lambda>R. fold (\<lambda>(key_str, i, dflt) regs. regs[i := ucast (value_or R ?key key_str dflt)])
    default_registers regs :: i64 list"
  from get_default_registers_works [OF assms(1)] obtain h1 where
    one: "fscc_port_get_default_registers P d regs h = (STATUS_SUCCESS, ?load ?R, h1)"
    and R1: "registry_after R0 h1 = with_defaults ?key (table_names default_registers) ?R" by blast
  from get_default_registers_works [OF assms(1)] obtain h2 where
    two: "fscc_port_get_default_registers P d regs h1 = (STATUS_SUCCESS, ?load (registry_after R0 h1), h2)"
    and R2: "registry_after R0 h2 = with_defaults ?key (table_names default_registers) (registry_after R0 h1)"
    by blast
  have names: "distinct (map fst (table_names default_registers))"
    "set (map fst (table_names default_registers)) = set (map fst default_registers)"
    by (simp_all add: default_registers_def)
  note after = with_defaults_apply [OF names(1), of ?key ?R, folded R1]
  have in_range: "(k, i, v) \<in> set default_registers \<Longrightarrow> i < length regs" for k i v
    using assms(2) by (auto simp: default_registers_def)
  have found: "(k, i, v) \<in> set default_registers \<Longrightarrow> map_of (table_names default_registers) k = Some v" for k i v
    by (rule map_of_is_SomeI [OF names(1)]) (simp, force)
  have entry: "?load ?R ! i = ucast (value_or ?R ?key k v) \<and> registry_after R0 h1 ?key k = Some (value_or ?R ?key k v)"
    if "(k, i, v) \<in> set default_registers" for k i v
    using load_nth [OF default_registers_distinct(2) that in_range [OF that]] found [OF that] by (simp add: after)
  have stored: "list_all (\<lambda>(k, v). registry_after R0 h1 ?key k \<noteq> None) (table_names default_registers)"
    using entry by (fastforce simp: list_all_iff)
  have again: "?load (registry_after R0 h1) = ?load ?R"
    by (intro fold_cong refl) (use entry in \<open>force simp: value_or_def\<close>)
  have none: "map_of (table_names default_registers) k = None" if "k \<notin> set (map fst default_registers)" for k
    using that by (simp add: map_of_eq_None_iff default_registers_def)
  have other: "registry_after R0 h1 key k = ?R key k"
    if "key \<noteq> ?key \<or> k \<notin> set (map fst default_registers)" for key k
    using that none by (auto simp: after)
  have entries: "list_all (\<lambda>(key_str, i, dflt). ?load ?R ! i = ucast (value_or ?R ?key key_str dflt) \<and>
      registry_after R0 h1 ?key key_str = Some (value_or ?R ?key key_str dflt)) default_registers"
    using entry by (auto simp: list_all_iff)
  have rest: "\<forall>i. i \<notin> set (map (fst \<circ> snd) default_registers) \<longrightarrow> ?load ?R ! i = regs ! i"
    using load_other [of _ default_registers "\<lambda>k v. ucast (value_or ?R ?key k v)" regs] by blast
  have same: "registry_after R0 h2 = registry_after R0 h1" "?load (registry_after R0 h1) = ?load ?R"
    using R2 with_defaults_idem [where R = "registry_after R0 h1" and key = "?key", OF stored] again by simp_all
  show ?thesis
    unfolding one two prod.case using entries rest other same assms(2) by (simp only: load_length) blast
qed

text \<open>A framework on which every call succeeds, over a registry that held \<open>R\<close>.\<close>

definition platform_over :: "registry \<Rightarrow> platform" where
  "platform_over R =
     \<lparr>answer = (\<lambda>h c. case c of Query_ulong key key_str \<Rightarrow>
          if registry_after R h key key_str = None then STATUS_OBJECT_NAME_NOT_FOUND else STATUS_SUCCESS
        | _ \<Rightarrow> STATUS_SUCCESS),
      registry_value = (\<lambda>h key key_str. case registry_after R h key key_str of None \<Rightarrow> 0 | Some v \<Rightarrow> v),
      mapped_address = (\<lambda>h a n. a), irp_built = (\<lambda>h. True), config_word = (\<lambda>h off. Some 0x18)\<rparr>"

lemma platform_over_works: "registry_works (platform_over R) R"
  by (auto simp: registry_works_def platform_over_def split: option.splits)

lemma default_registers_stored_witness:
  "case fscc_port_get_default_registers
      (platform_over (\<lambda>key key_str. if key_str = ''CCR1'' then Some 0x1c else None)) 5 FSCC_REGISTERS_INIT []
    of (st, regs1, h1) \<Rightarrow>
    st = STATUS_SUCCESS \<and> length regs1 = NUM_REGS \<and>
    list_all (\<lambda>(key_str, i, dflt).
      regs1 ! i = ucast (value_or (registry_after (\<lambda>key key_str. if key_str = ''CCR1'' then Some 0x1c else None) [])
        (Device_key 5) key_str dflt) \<and>
      registry_after (\<lambda>key key_str. if key_str = ''CCR1'' then Some 0x1c else None) h1 (Device_key 5) key_str =
        Some (value_or (registry_after (\<lambda>key key_str. if key_str = ''CCR1'' then Some 0x1c else None) [])
          (Device_key 5) key_str dflt)) default_registers \<and>
    (\<forall>i. i \<notin> set (map (fst \<circ> snd) default_registers) \<longrightarrow> regs1 ! i = FSCC_REGISTERS_INIT ! i) \<and>
    (\<forall>key key_str. key \<noteq> Device_key 5 \<or> key_str \<notin> set (map fst default_registers) \<longrightarrow>
      registry_after (\<lambda>key key_str. if key_str = ''CCR1'' then Some 0x1c else None) h1 key key_str =
      registry_after (\<lambda>key key_str. if key_str = ''CCR1'' then Some 0x1c else None) [] key key_str) \<and>
    (case fscc_port_get_default_registers
        (platform_over (\<lambda>key key_str. if key_str = ''CCR1'' then Some 0x1c else None)) 5 FSCC_REGISTERS_INIT h1
      of (st2, regs2, h2) \<Rightarrow>
      st2 = STATUS_SUCCESS \<and> regs2 = regs1 \<and>
      registry_after (\<lambda>key key_str. if key_str = ''CCR1'' then Some 0x1c else None) h2 =
      registry_after (\<lambda>key key_str. if key_str = ''CCR1'' then Some 0x1c else None) h1)"
  by (rule default_registers_stored [OF platform_over_works]) (simp add: FSCC_REGISTERS_INIT_def)

section \<open>Memory sizes and names\<close>

definition default_sizes :: "(string \<times> u32) list" where
  "default_sizes = [(''TxNum'', DEFAULT_BUFFER_TX_NUM), (''RxNum'', DEFAULT_BUFFER_RX_NUM),
     (''TxSize'', DEFAULT_BUFFER_TX_SIZE), (''RxSize'', DEFAULT_BUFFER_RX_SIZE)]"

lemma get_default_memory_works:
  assumes "registry_works P R0"
  shows "\<exists>h'. fscc_port_get_default_memory P d mem h = (STATUS_SUCCESS,
      mem\<lparr>tx_num := value_or (registry_after R0 h) (Device_key d) ''TxNum'' DEFAULT_BUFFER_TX_NUM,
          rx_num := value_or (registry_after R0 h) (Device_key d) ''RxNum'' DEFAULT_BUFFER_RX_NUM,
          tx_size := value_or (registry_after R0 h) (Device_key d) ''TxSize'' DEFAULT_BUFFER_TX_SIZE,
          rx_size := value_or (registry_after R0 h) (Device_key d) ''RxSize'' DEFAULT_BUFFER_RX_SIZE\<rparr>, h') \<and>
    registry_after R0 h' = with_defaults (Device_key d) default_sizes (registry_after R0 h)"
proof -
  let ?key = "Device_key d"
  let ?h1 = "Framework (Open_registry_key ?key) STATUS_SUCCESS # h"
  let ?R = "registry_after R0"
  obtain es1 where v1: "value_or_default P ?key ''TxNum'' DEFAULT_BUFFER_TX_NUM ?h1 =
      (value_or (?R ?h1) ?key ''TxNum'' DEFAULT_BUFFER_TX_NUM, es1 @ ?h1)"
    "?R (es1 @ ?h1) = store_value ?key ''TxNum'' (value_or (?R ?h1) ?key ''TxNum'' DEFAULT_BUFFER_TX_NUM) (?R ?h1)"
    using value_or_default_works [OF assms] by blast
  obtain es2 where v2: "value_or_default P ?key ''RxNum'' DEFAULT_BUFFER_RX_NUM (es1 @ ?h1) =
      (value_or (?R (es1 @ ?h1)) ?key ''RxNum'' DEFAULT_BUFFER_RX_NUM, es2 @ es1 @ ?h1)"
    "?R (es2 @ es1 @ ?h1) = store_value ?key ''RxNum''
      (value_or (?R (es1 @ ?h1)) ?key ''RxNum'' DEFAULT_BUFFER_RX_NUM) (?R (es1 @ ?h1))"
    using value_or_default_works [OF assms] by blast
  obtain es3 where v3: "value_or_default P ?key ''TxSize'' DEFAULT_BUFFER_TX_SIZE (es2 @ es1 @ ?h1) =
      (value_or (?R (es2 @ es1 @ ?h1)) ?key ''TxSize'' DEFAULT_BUFFER_TX_SIZE, es3 @ es2 @ es1 @ ?h1)"
    "?R (es3 @ es2 @ es1 @ ?h1) = store_value ?key ''TxSize''
      (value_or (?R (es2 @ es1 @ ?h1)) ?key ''TxSize'' DEFAULT_BUFFER_TX_SIZE) (?R (es2 @ es1 @ ?h1))"
    using value_or_default_works [OF assms] by blast
  obtain es4 where v4: "value_or_default P ?key ''RxSize'' DEFAULT_BUFFER_RX_SIZE (es3 @ es2 @ es1 @ ?h1) =
      (value_or (?R (es3 @ es2 @ es1 @ ?h1)) ?key ''RxSize'' DEFAULT_BUFFER_RX_SIZE, es4 @ es3 @ es2 @ es1 @ ?h1)"
    "?R (es4 @ es3 @ es2 @ es1 @ ?h1) = store_value ?key ''RxSize''
      (value_or (?R (es3 @ es2 @ es1 @ ?h1)) ?key ''RxSize'' DEFAULT_BUFFER_RX_SIZE) (?R (es3 @ es2 @ es1 @ ?h1))"
    using value_or_default_works [OF assms] by blast
  have h1: "?R ?h1 = ?R h" by simp
  note R = v2(2) v3(2) v4(2)
  have "fscc_port_get_default_memory P d mem h = (STATUS_SUCCESS,
      mem\<lparr>tx_num := value_or (?R h) ?key ''TxNum'' DEFAULT_BUFFER_TX_NUM,
          rx_num := value_or (?R h) ?key ''RxNum'' DEFAULT_BUFFER_RX_NUM,
          tx_size := value_or (?R h) ?key ''TxSize'' DEFAULT_BUFFER_TX_SIZE,
          rx_size := value_or (?R h) ?key ''RxSize'' DEFAULT_BUFFER_RX_SIZE\<rparr>,
      logged (Registry_close ?key) (es4 @ es3 @ es2 @ es1 @ ?h1))"
    using v1 v2 v3 v4 h1 registry_worksD(1) [OF assms]
    by (simp add: fscc_port_get_default_memory_def framework_def Let_def value_or_def store_value_apply)
  moreover have "?R (logged (Registry_close ?key) (es4 @ es3 @ es2 @ es1 @ ?h1)) =
      with_defaults ?key default_sizes (?R h)"
    unfolding logged_def registry_after_simps R [unfolded registry_after_simps] v1(2) h1
    by (simp add: default_sizes_def)
  ultimately show ?thesis by blast
qed

text \<open>Distinct numbers have distinct names: a number can be read back from its digits.\<close>

definition read_digits :: "string \<Rightarrow> nat" where
  "read_digits cs = foldl (\<lambda>n c. 10 * n + (of_char c - 48)) 0 cs"

lemma of_char_digit: "m < 10 \<Longrightarrow> (of_char (char_of (48 + m) :: char) :: nat) = 48 + m"
  by simp

lemma read_decimal [simp]: "read_digits (decimal n) = n"
proof (induction n rule: decimal.induct)
  case (1 n)
  show ?case
  proof (cases "n < 10")
    case True
    then show ?thesis
      unfolding read_digits_def by (subst decimal.simps) (simp add: of_char_digit del: of_char_of)
  next
    case False
    then have "read_digits (decimal n) = 10 * read_digits (decimal (n div 10)) + n mod 10"
      unfolding read_digits_def by (simp add: decimal.simps [of n] of_char_digit del: of_char_of)
    with 1 False show ?thesis by simp
  qed
qed

lemma decimal_inj: "decimal m = decimal n \<longleftrightarrow> m = n"
  by (metis read_decimal)

lemma decimal_no_sign: "CHR ''-'' \<notin> set (decimal n)"
proof (induction n rule: decimal.induct)
  case (1 n)
  have digit: "CHR ''-'' \<noteq> char_of (48 + m)" if "m < 10" for m :: nat
  proof
    assume "CHR ''-'' = char_of (48 + m)"
    then have "of_char CHR ''-'' = 48 + m" using of_char_digit [OF that] by argo
    then show False by simp
  qed
  show ?case
    by (subst decimal.simps) (use 1 digit [of n] digit [of "n mod 10"] in auto)
qed

lemma print_int_inj: "print_int v = print_int w \<longleftrightarrow> v = w"
proof
  assume eq: "print_int v = print_int w"
  have sign: "CHR ''-'' # decimal m \<noteq> decimal n" for m n
    using decimal_no_sign [of n] by (metis list.set_intros(1))
  have "sint v = sint w"
    using eq sign sign [symmetric] by (auto simp: print_int_def decimal_inj split: if_splits)
  then show "v = w" by (rule signed_word_eqI)
qed simp

end
