(* ===== verification/Fscc_Device.thy ===== *)
theory Fscc_Device
  imports Fscc_Platform Fscc_Clock Fscc_Isr
begin

text \<open>
  The life of a device (\<open>driver.c\<close>, \<open>card.c\<close>, \<open>port.c\<close>): \<open>fscc_port_new\<close> creates it,
  \<open>FsccEvtDevicePrepareHardware\<close> finds the card and brings the port into its initial state,
  \<open>FsccEvtDeviceReleaseHardware\<close> gives the rings and the card back. Calls that only fill
  configuration structures or cannot fail and leave no trace in the driver are left out.
\<close>

section \<open>Creating a device\<close>

text \<open>Calls in order, up to the first that fails; \<open>cleanup\<close> is what the error path of each of
  them calls.\<close>

fun in_order :: "platform \<Rightarrow> framework_call list \<Rightarrow> framework_call list \<Rightarrow> history \<Rightarrow> bool \<times> history" where
  "in_order P cleanup [] h = (True, h)"
| "in_order P cleanup (c # cs) h =
     (let (status, h1) = framework P c h
      in if \<not> NT_SUCCESS status then (False, fold logged cleanup h1)
         else in_order P cleanup cs h1)"

text \<open>The context of a new device: the framework clears it.\<close>

definition new_port :: "history \<Rightarrow> driver" where
  "new_port h =
     \<lparr>port_card = \<lparr>device_id = 0, bar = replicate 3 \<lparr>address = 0, memory_mapped = FALSE\<rparr>\<rparr>,
      channel = 0, register_storage = replicate NUM_REGS 0,
      append_status = 0, append_timestamp = 0, ignore_timeout = 0, rx_multiple = 0,
      wait_on_write = 0, blocking_write = 0, force_fifo = 0, tx_modifiers = 0,
      last_isr_value = 0, open_counter = 0,
      memory = \<lparr>tx_size = 0, tx_num = 0, rx_size = 0, rx_num = 0\<rparr>, has_dma = 0,
      rx_descriptors = None, user_rx_desc = 0, fifo_rx_desc = 0, rx_bytes_in_frame = 0, rx_frame_size = 0,
      tx_descriptors = None, user_tx_desc = 0, fifo_tx_desc = 0, tx_bytes_in_frame = 0, tx_frame_size = 0,
      events = h\<rparr>"

definition interrupt_and_queues :: "framework_call list" where
  "interrupt_and_queues =
     [Interrupt_create,
      Queue_create ioctl_queue, Configure_dispatching ioctl_queue,
      Queue_create write_queue, Configure_dispatching write_queue,
      Queue_create write_queue2, Queue_create blocking_request_queue,
      Queue_create read_queue, Configure_dispatching read_queue,
      Queue_create read_queue2, Queue_create isr_queue]"

definition link_locks_and_dpcs :: "string \<Rightarrow> framework_call list" where
  "link_locks_and_dpcs dos_name =
     [Create_symbolic_link dos_name,
      Spinlock_create board_settings_spinlock, Spinlock_create board_rx_spinlock,
      Spinlock_create board_tx_spinlock,
      Dpc_create oframe_dpc, Dpc_create iframe_dpc, Dpc_create process_read_dpc,
      Dpc_create isr_alert_dpc, Dpc_create request_dpc, Dpc_create alls_dpc, Dpc_create timestamp_dpc]"

text \<open>The number of the port: the one stored for its device, or else the next one, which is
  then stored.\<close>

definition port_number :: "platform \<Rightarrow> device \<Rightarrow> i32 \<Rightarrow> history \<Rightarrow> NTSTATUS \<times> u32 \<times> history" where
  "port_number P d last_port_num h =
     (let (status, port_num, h1) = fscc_port_get_port_num P d 0 h
      in if status = STATUS_OBJECT_NAME_NOT_FOUND
         then (let port_num = last_port_num + 1;
                   (status, h2) = fscc_port_set_port_num P d port_num h1
               in (status, port_num, h2))
         else (status, port_num, h1))"

text \<open>What is named after the number. Every error path deletes the device.\<close>

definition number_port ::
  "platform \<Rightarrow> device \<Rightarrow> i32 \<Rightarrow> history \<Rightarrow> driver option \<times> history" where
  "number_port P d last_port_num h =
     (let (status, port_num, h2) = port_number P d last_port_num h
      in if \<not> NT_SUCCESS status then (None, logged (Device_delete d) h2)
      else (let (status, h3) = fscc_port_set_friendly_name P port_num h2
      in if \<not> NT_SUCCESS status then (None, logged (Device_delete d) h3)
      else (let (status, h4) = fscc_driver_set_last_port_num P port_num h3
      in if \<not> NT_SUCCESS status then (None, logged (Device_delete d) h4)
      else (let dos_name = [CHR 0x5C] @ ''DosDevices'' @ [CHR 0x5C] @ ''FSCC'' @ print_int port_num
      in if length dos_name > 30 then (None, logged (Device_delete d) h4)
      else (let (ok, h5) = in_order P [Device_delete d] (link_locks_and_dpcs dos_name) h4
      in if \<not> ok then (None, h5) else (Some (new_port h5), h5))))))"

text \<open>The device object and its queues. \<open>inst\<close> is the static counter \<open>instance\<close>, which
  names the device.\<close>

definition create_device ::
  "platform \<Rightarrow> device \<Rightarrow> i32 \<Rightarrow> i32 \<Rightarrow> history \<Rightarrow> driver option \<times> history" where
  "create_device P d last_port_num inst h =
     (let device_name = [CHR 0x5C] @ ''Device'' @ [CHR 0x5C] @ ''FSCC'' @ print_int inst
      in if length device_name > 20 then (None, h)
      else (let (ok, h1) = in_order P [Init_free] [Init_assign_name device_name, Init_assign_sddl] h
      in if \<not> ok then (None, h1)
      else (let (ok, h2) = in_order P [] (Device_create d # interrupt_and_queues) h1
      in if \<not> ok then (None, h2)
      else (let (ok, h3) = in_order P [Device_delete d] [Create_interface] h2
      in if \<not> ok then (None, h3)
      else number_port P d last_port_num h3))))"

text \<open>The result is the port, the counter and the history.\<close>

definition fscc_port_new ::
  "platform \<Rightarrow> device \<Rightarrow> i32 \<Rightarrow> history \<Rightarrow> driver option \<times> i32 \<times> history" where
  "fscc_port_new P d inst h =
     (let (status, last_port_num, h1) = fscc_driver_get_last_port_num P (- 1) h;
          (status, last_port_num, h2) =
            (if status = STATUS_OBJECT_NAME_NOT_FOUND
             then (let (status, h2) = fscc_driver_set_last_port_num P (- 1) h1 in (status, - 1, h2))
             else (status, last_port_num, h1))
      in if \<not> NT_SUCCESS status then (None, inst, h2)
         else (let (port, h3) = create_device P d last_port_num inst h2 in (port, inst + 1, h3)))"

definition FSCCEvtDeviceAdd ::
  "platform \<Rightarrow> device \<Rightarrow> i32 \<Rightarrow> history \<Rightarrow> NTSTATUS \<times> driver option \<times> i32 \<times> history" where
  "FSCCEvtDeviceAdd P d inst h =
     (let (port, inst', h1) = fscc_port_new P d inst h
      in (if port = None then STATUS_INTERNAL_ERROR else STATUS_SUCCESS, port, inst', h1))"

definition DriverEntry :: "platform \<Rightarrow> history \<Rightarrow> NTSTATUS \<times> history" where
  "DriverEntry P h = framework P Driver_create h"

section \<open>The card\<close>

text \<open>The hardware resources of a device; \<open>None\<close> is a descriptor that cannot be read.\<close>

datatype resource =
    CmResourceTypePort u32
  | CmResourceTypeMemory u64 u32
  | CmResourceTypeOther

definition set_bar :: "nat \<Rightarrow> BAR \<Rightarrow> driver \<Rightarrow> driver" where
  "set_bar n b s = s\<lparr>port_card := (port_card s)\<lparr>bar := (bar (port_card s))[n := b]\<rparr>\<rparr>"

text \<open>The first resource is the third BAR and the third is the first; any other goes where the
  one before it went.\<close>

definition bar_of :: "nat \<Rightarrow> nat \<Rightarrow> nat" where
  "bar_of i bar_num = (if i = 0 then 2 else if i = 2 then 0 else bar_num)"

fun card_init_loop ::
  "platform \<Rightarrow> nat \<Rightarrow> nat \<Rightarrow> resource option list \<Rightarrow> driver \<Rightarrow> NTSTATUS \<times> driver" where
  "card_init_loop P i bar_num [] s = (STATUS_SUCCESS, s)"
| "card_init_loop P i bar_num (None # rest) s = (STATUS_DEVICE_CONFIGURATION_ERROR, s)"
| "card_init_loop P i bar_num (Some (CmResourceTypePort start) # rest) s =
     (let n = bar_of i bar_num
      in card_init_loop P (i + 1) n rest (set_bar n \<lparr>address = ucast start, memory_mapped = FALSE\<rparr> s))"
| "card_init_loop P i bar_num (Some (CmResourceTypeMemory start len) # rest) s =
     (let n = bar_of i bar_num;
          s1 = emit (Framework (Map_io_space start len) STATUS_SUCCESS) s
      in card_init_loop P (i + 1) n rest
           (set_bar n \<lparr>address = mapped_address P (events s) start len, memory_mapped = TRUE\<rparr> s1))"
| "card_init_loop P i bar_num (Some CmResourceTypeOther # rest) s =
     card_init_loop P (i + 1) bar_num rest s"

text \<open>\<open>PCIReadConfigWord\<close> sends a request for two bytes down the device stack and waits for it;
  nobody looks at its status, so that the bytes may not be stored (\<open>None\<close>). Without memory for
  the request it is an error, which \<open>fscc_card_init\<close> does not look at either.\<close>

definition PCIReadConfigWord :: "platform \<Rightarrow> u32 \<Rightarrow> driver \<Rightarrow> i32 \<times> 16 word option \<times> driver" where
  "PCIReadConfigWord P off s =
     (if irp_built P (events s)
      then (0, config_word P (events s) off, emit (Framework (Read_config off) STATUS_SUCCESS) s)
      else (- 1, None, s))"

definition fscc_card_init :: "platform \<Rightarrow> resource option list \<Rightarrow> driver \<Rightarrow> NTSTATUS \<times> driver" where
  "fscc_card_init P resources s =
     (let s1 = s\<lparr>port_card := (port_card s)\<lparr>device_id := 0\<rparr>\<rparr>;
          (status, s2) = card_init_loop P 0 0 resources s1
      in if \<not> NT_SUCCESS status then (status, s2)
      else (let (error, word, s3) = PCIReadConfigWord P 0x02 s2
            in (STATUS_SUCCESS, case word of None \<Rightarrow> s3
                | Some w \<Rightarrow> s3\<lparr>port_card := (port_card s3)\<lparr>device_id := ucast w\<rparr>\<rparr>)))"

fun card_delete_loop ::
  "nat \<Rightarrow> resource option list \<Rightarrow> driver \<Rightarrow> (NTSTATUS \<times> driver) option" where
  "card_delete_loop bar_counter [] s = Some (STATUS_SUCCESS, s)"
| "card_delete_loop bar_counter (None # rest) s = Some (STATUS_DEVICE_CONFIGURATION_ERROR, s)"
| "card_delete_loop bar_counter (Some (CmResourceTypePort start) # rest) s =
     card_delete_loop (bar_counter + 1) rest s"
| "card_delete_loop bar_counter (Some (CmResourceTypeMemory start len) # rest) s =
     (if bar_counter \<ge> length (bar (port_card s)) then None
      else card_delete_loop (bar_counter + 1) rest
        (emit (Framework (Unmap_io_space (address (bar (port_card s) ! bar_counter)) len) STATUS_SUCCESS) s))"
| "card_delete_loop bar_counter (Some CmResourceTypeOther # rest) s = card_delete_loop bar_counter rest s"

definition fscc_card_delete :: "resource option list \<Rightarrow> driver \<Rightarrow> (NTSTATUS \<times> driver) option" where
  "fscc_card_delete resources s = card_delete_loop 0 resources s"

definition fscc_card_get_name :: "fscc_card \<Rightarrow> string" where
  "fscc_card_get_name c =
     (let i = device_id c in
      if i \<in> {0x000f, 0x001d} then ''FSCC PCI''
      else if i \<in> {0x0014, 0x0019} then ''SuperFSCC PCI''
      else if i = 0x0015 then ''SuperFSCC-104-LVDS PC/104+''
      else if i = 0x0017 then ''SuperFSCC-104 PC/104+''
      else if i = 0x0016 then ''FSCC-232 PCI''
      else if i = 0x0018 then ''SuperFSCC/4 PCI''
      else if i = 0x001b then ''FSCC/4 PCI''
      else if i \<in> {0x001c, 0x0025} then ''SuperFSCC/4-LVDS PCI''
      else if i \<in> {0x001a, 0x0026} then ''SuperFSCC-LVDS PCI''
      else if i = 0x001e then ''SuperFSCC/4 PCIe''
      else if i \<in> {0x001f, 0x0023} then ''SuperFSCC/4 cPCI''
      else if i = 0x0027 then ''FSCC/4 PCIe''
      else if i = 0x0022 then ''SuperFSCC/4-LVDS PCIe''
      else ''Unknown Device'')"

section \<open>The initial state of a port\<close>

definition DEFAULT_CLOCK_BITS :: "u8 list" where
  "DEFAULT_CLOCK_BITS =
     [0x0f, 0x61, 0xe5, 0x00, 0x00, 0x00, 0x00, 0x00, 0x00, 0x00,
      0x00, 0x18, 0x16, 0x40, 0x01, 0x04, 0x00, 0xff, 0xff, 0xff]"

text \<open>An operation on the registry, run by a port.\<close>

definition on_registry :: "(history \<Rightarrow> NTSTATUS \<times> 'a \<times> history) \<Rightarrow> driver \<Rightarrow> NTSTATUS \<times> 'a \<times> driver" where
  "on_registry f s = (let (status, x, h) = f (events s) in (status, x, s\<lparr>events := h\<rparr>))"

definition default_settings :: "env \<Rightarrow> driver \<Rightarrow> driver" where
  "default_settings E s =
     (let s1 = fscc_port_set_append_status 0 s;
          s2 = fscc_port_set_append_timestamp 0 s1;
          s3 = fscc_port_set_ignore_timeout 0 s2;
          (_, s4) = fscc_port_set_tx_modifiers XF s3;
          s5 = fscc_port_set_rx_multiple 0 s4;
          s6 = fscc_port_set_wait_on_write 0 s5;
          s7 = fscc_port_set_blocking_write 0 s6
      in snd (fscc_port_set_force_fifo E 0 s7))"

text \<open>Both rings, in the sizes of the registry. A ring that cannot be created takes the other
  one with it.\<close>

definition create_rings :: "env \<Rightarrow> platform \<Rightarrow> device \<Rightarrow> driver \<Rightarrow> (NTSTATUS \<times> driver) option" where
  "create_rings E P d s =
     (let mem = \<lparr>tx_size = DEFAULT_BUFFER_TX_SIZE, tx_num = DEFAULT_BUFFER_TX_NUM,
                 rx_size = DEFAULT_BUFFER_RX_SIZE, rx_num = DEFAULT_BUFFER_RX_NUM\<rparr>;
          (_, mem, s1) = on_registry (fscc_port_get_default_memory P d mem) s;
          (status, s2) = fscc_io_create_rx E (rx_num mem) (rx_size mem) s1
      in if \<not> NT_SUCCESS status then
           do { s3 \<leftarrow> fscc_io_destroy_rx E s2; s4 \<leftarrow> fscc_io_destroy_tx E s3; Some (status, s4) }
      else (let (status, s3) = fscc_io_create_tx E (tx_num mem) (tx_size mem) s2
      in if \<not> NT_SUCCESS status then
           do { s4 \<leftarrow> fscc_io_destroy_tx E s3; s5 \<leftarrow> fscc_io_destroy_rx E s4; Some (status, s5) }
      else Some (STATUS_SUCCESS, s3)))"

text \<open>The registers: the storage gets the defaults, then those of the registry, and is written
  to the card. The code passes the storage itself to \<open>fscc_port_set_registers\<close>, which reads
  every entry before it stores that entry, so that the copy here reads the same values.\<close>

definition initial_registers :: "i64 list" where
  "initial_registers = fold (\<lambda>(key_str, i, dflt) regs. regs[i := ucast dflt]) default_registers FSCC_REGISTERS_INIT"

definition write_default_registers :: "env \<Rightarrow> platform \<Rightarrow> device \<Rightarrow> driver \<Rightarrow> driver" where
  "write_default_registers E P d s =
     (let (_, regs, s1) = on_registry (fscc_port_get_default_registers P d initial_registers) s;
          s2 = s1\<lparr>register_storage := regs\<rparr>
      in snd (fscc_port_set_registers E (register_storage s2) s2))"

definition start_port :: "env \<Rightarrow> driver \<Rightarrow> driver option" where
  "start_port E s =
     (let s1 = s\<lparr>rx_frame_size := 0, last_isr_value := 0\<rparr>
      in do {
        (bits, s2) \<leftarrow> fscc_port_set_clock_bits E DEFAULT_CLOCK_BITS s1;
        let s3 = (if fscc_port_uses_dma s2 \<noteq> 0 then snd (fscc_dma_port_enable E s2) else s2);
        (_, s4) \<leftarrow> fscc_io_purge_rx E s3;
        (_, s5) \<leftarrow> fscc_io_purge_tx E s4;
        Some s5 })"

definition FsccEvtDevicePrepareHardware ::
  "env \<Rightarrow> platform \<Rightarrow> device \<Rightarrow> resource option list \<Rightarrow> driver \<Rightarrow> (NTSTATUS \<times> driver) option" where
  "FsccEvtDevicePrepareHardware E P d resources s =
     (let (status, s1) = fscc_card_init P resources s;
          low = (ucast (address (bar (port_card s1) ! 0)) :: u32) AND 0x000000FF
      in if \<not> NT_SUCCESS status then Some (status, s1)
      else if low \<noteq> 0x00 \<and> low \<noteq> 0x80 then Some (STATUS_UNSUCCESSFUL, s1)
      else (let s2 = s1\<lparr>channel := (if low = 0x00 then 0 else 1)\<rparr>;
                (vstr, s3) = fscc_port_get_PREV E s2;
                s4 = s3\<lparr>has_dma := (if vstr AND 0x04 \<noteq> 0 then 1 else 0)\<rparr>;
                (_, s5) = fscc_io_initialize E s4
      in do {
        (status, s6) \<leftarrow> create_rings E P d (default_settings E s5);
        if \<not> NT_SUCCESS status then Some (status, s6)
        else do {
          s7 \<leftarrow> start_port E (write_default_registers E P d s6);
          let (status, h) = framework P Timer_create (events s7);
          let s8 = s7\<lparr>events := h\<rparr>;
          Some (if \<not> NT_SUCCESS status then (status, s8) else (STATUS_SUCCESS, emit Timer_start s8)) }}))"

definition FsccEvtDeviceReleaseHardware ::
  "env \<Rightarrow> resource option list \<Rightarrow> driver \<Rightarrow> (NTSTATUS \<times> driver) option" where
  "FsccEvtDeviceReleaseHardware E resources s =
     do { s1 \<leftarrow> fscc_io_destroy_tx E s;
          s2 \<leftarrow> fscc_io_destroy_rx E s1;
          fscc_card_delete resources s2 }"

section \<open>A prepared port\<close>

text \<open>Steps that change nothing of the port but the stored registers and the history.\<close>

definition same_port :: "driver \<Rightarrow> driver \<Rightarrow> bool" where
  "same_port s s' \<longleftrightarrow> s'\<lparr>events := [], register_storage := []\<rparr> = s\<lparr>events := [], register_storage := []\<rparr>"

lemma same_port_simps [simp]:
  "same_port s (s\<lparr>events := h\<rparr>)" "same_port s (s\<lparr>events := h, register_storage := st\<rparr>)" "same_port s s"
  by (simp_all add: same_port_def)

lemma same_port_io_step: "io_step s s' \<Longrightarrow> same_port s s'"
  by (auto simp: io_step_def same_port_def emits_def)

lemma same_port_trans [trans]: "same_port s t \<Longrightarrow> same_port t u \<Longrightarrow> same_port s u"
  by (simp add: same_port_def)

lemma same_portD:
  assumes "same_port s s'"
  shows "channel s' = channel s" "append_status s' = append_status s"
    "append_timestamp s' = append_timestamp s" "ignore_timeout s' = ignore_timeout s"
    "rx_multiple s' = rx_multiple s" "wait_on_write s' = wait_on_write s"
    "blocking_write s' = blocking_write s" "force_fifo s' = force_fifo s"
    "tx_modifiers s' = tx_modifiers s" "memory s' = memory s" "has_dma s' = has_dma s"
    "rx_descriptors s' = rx_descriptors s" "user_rx_desc s' = user_rx_desc s"
    "fifo_rx_desc s' = fifo_rx_desc s" "rx_bytes_in_frame s' = rx_bytes_in_frame s"
    "rx_frame_size s' = rx_frame_size s" "last_isr_value s' = last_isr_value s"
    "tx_descriptors s' = tx_descriptors s" "user_tx_desc s' = user_tx_desc s"
    "fifo_tx_desc s' = fifo_tx_desc s" "tx_bytes_in_frame s' = tx_bytes_in_frame s"
    "tx_frame_size s' = tx_frame_size s"
  using assms by (cases s; cases s'; simp add: same_port_def)+

lemma same_port_settings:
  assumes "same_port s s'"
  shows "port_card s' = port_card s" "open_counter s' = open_counter s"
  using assms by (cases s; cases s'; simp add: same_port_def)+

text \<open>Both rings as a purge leaves them.\<close>

definition rx_emptied :: "dma_frame list \<Rightarrow> driver \<Rightarrow> driver" where
  "rx_emptied fs s = s\<lparr>rx_descriptors := Some (map reset_rx_frame fs), user_rx_desc := 0,
     fifo_rx_desc := 0, rx_bytes_in_frame := 0, rx_frame_size := 0\<rparr>"

definition tx_emptied :: "dma_frame list \<Rightarrow> driver \<Rightarrow> driver" where
  "tx_emptied fs s = s\<lparr>tx_descriptors := Some (map reset_tx_frame fs), user_tx_desc := 0,
     fifo_tx_desc := 0, tx_bytes_in_frame := 0, tx_frame_size := 0\<rparr>"

lemma same_port_emptied:
  "same_port s s' \<Longrightarrow> same_port (rx_emptied fs s) (rx_emptied fs s')"
  "same_port s s' \<Longrightarrow> same_port (tx_emptied fs s) (tx_emptied fs s')"
  by (cases s; cases s'; simp add: same_port_def rx_emptied_def tx_emptied_def)+

lemma set_registers_same_port: "same_port s (snd (fscc_port_set_registers E regs s))"
proof -
  obtain st s' where run: "fscc_port_set_registers E regs s = (st, s')" by fastforce
  show ?thesis using set_registers_spec [OF run] by (auto simp: run same_port_def emits_def)
qed

lemma write_default_registers_same_port: "same_port s (write_default_registers E P d s)"
proof -
  obtain st regs h where r: "fscc_port_get_default_registers P d initial_registers (events s) = (st, regs, h)"
    by (cases "fscc_port_get_default_registers P d initial_registers (events s)")
  have "same_port s (s\<lparr>events := h, register_storage := regs\<rparr>)" by simp
  also note set_registers_same_port
  finally show ?thesis by (simp add: write_default_registers_def on_registry_def r)
qed

lemma purge_rx_ready:
  assumes "rx_descriptors s = Some fs" "unat (rx_num (memory s)) = length fs" "fs \<noteq> []"
  shows "\<exists>s'. fscc_io_purge_rx E s = Some (STATUS_SUCCESS, s') \<and> same_port (rx_emptied fs s) s'"
proof -
  from purge_rx_result [OF assms] obtain s1 s' where run: "io_step s s1"
    "fscc_io_purge_rx E s = Some (STATUS_SUCCESS, s')" "io_step (rx_emptied fs s1) s'"
    unfolding rx_emptied_def by blast
  have "same_port (rx_emptied fs s) s'"
    using same_port_emptied [OF same_port_io_step [OF run(1)]] same_port_io_step [OF run(3)] same_port_trans
    by blast
  with run(2) show ?thesis by blast
qed

lemma purge_tx_ready:
  assumes "tx_descriptors s = Some fs" "unat (tx_num (memory s)) = length fs" "fs \<noteq> []"
  shows "\<exists>s'. fscc_io_purge_tx E s = Some (STATUS_SUCCESS, s') \<and> same_port (tx_emptied fs s) s'"
proof -
  from purge_tx_result [OF assms] obtain s1 s' where run: "io_step s s1"
    "fscc_io_purge_tx E s = Some (STATUS_SUCCESS, s')" "io_step (tx_emptied fs s1) s'"
    unfolding tx_emptied_def by blast
  have "same_port (tx_emptied fs s) s'"
    using same_port_emptied [OF same_port_io_step [OF run(1)]] same_port_io_step [OF run(3)] same_port_trans
    by blast
  with run(2) show ?thesis by blast
qed

definition started :: "dma_frame list \<Rightarrow> dma_frame list \<Rightarrow> driver \<Rightarrow> driver" where
  "started rxs txs s = tx_emptied txs (rx_emptied rxs (s\<lparr>last_isr_value := 0\<rparr>))"

lemma start_port_ready:
  assumes "rx_descriptors s = Some rxs" "unat (rx_num (memory s)) = length rxs" "rxs \<noteq> []"
    and "tx_descriptors s = Some txs" "unat (tx_num (memory s)) = length txs" "txs \<noteq> []"
  shows "\<exists>s'. start_port E s = Some s' \<and> same_port (started rxs txs s) s'"
proof -
  let ?s1 = "s\<lparr>rx_frame_size := 0, last_isr_value := 0\<rparr>"
  obtain bits es where clk: "fscc_port_set_clock_bits E DEFAULT_CLOCK_BITS ?s1 = Some (bits, emits es ?s1)"
    using clock_bits_result by blast
  let ?s3 = "if fscc_port_uses_dma (emits es ?s1) \<noteq> 0 then snd (fscc_dma_port_enable E (emits es ?s1)) else emits es ?s1"
  have "same_port ?s1 (emits es ?s1)" by (simp add: emits_def)
  then have s3: "same_port ?s1 ?s3"
    using same_port_trans [OF _ same_port_io_step [OF set_register_snd_io_step]]
    by (simp add: fscc_dma_port_enable_def)
  then obtain s4 where s4: "fscc_io_purge_rx E ?s3 = Some (STATUS_SUCCESS, s4)"
    "same_port (rx_emptied rxs ?s3) s4"
    using purge_rx_ready [of ?s3 rxs E] assms(1-3) by (auto simp: same_portD [OF s3])
  then have step4: "same_port (rx_emptied rxs ?s1) s4"
    using same_port_trans [OF same_port_emptied(1) [OF s3]] by blast
  then obtain s5 where s5: "fscc_io_purge_tx E s4 = Some (STATUS_SUCCESS, s5)"
    "same_port (tx_emptied txs s4) s5"
    using purge_tx_ready [of s4 txs E] assms(4-6) by (auto simp: same_portD [OF step4] rx_emptied_def)
  have "same_port (tx_emptied txs (rx_emptied rxs ?s1)) s5"
    using same_port_trans [OF same_port_emptied(2) [OF step4] s5(2)] .
  then have "same_port (started rxs txs s) s5"
    by (simp add: started_def rx_emptied_def tx_emptied_def)
  moreover have "start_port E s = Some s5"
    unfolding start_port_def Let_def clk using s4(1) s5(1) by simp
  ultimately show ?thesis by blast
qed

section \<open>Rings from the registry\<close>

text \<open>Memory is available: no allocation of pool blocks or common buffers fails.\<close>

definition memory_available :: "env \<Rightarrow> bool" where
  "memory_available E \<longleftrightarrow> (\<forall>h n. pool_allocate E h n) \<and>
     (\<forall>h bytes. NT_SUCCESS (fst (common_buffer_create E h bytes)))"

lemma memory_availableD:
  assumes "memory_available E"
  shows "pool_allocate E h n = True"
    "common_buffer_create E h bytes = (STATUS_SUCCESS, snd (common_buffer_create E h bytes))"
  using assms by (simp_all add: memory_available_def prod_eq_iff)

lemma create_frame_available:
  assumes "memory_available E"
  shows "\<exists>f es. fscc_io_create_frame E bytes s = (Some f, emits es s)"
proof -
  obtain b1 where b1: "common_buffer_create E (Pool_allocate 48 True # events s) 16 = (STATUS_SUCCESS, b1)"
    using memory_availableD(2) [OF assms] by blast
  obtain b2 where b2: "common_buffer_create E (Common_buffer_create 16 STATUS_SUCCESS #
      Pool_allocate 48 True # events s) bytes = (STATUS_SUCCESS, b2)"
    using memory_availableD(2) [OF assms] by blast
  let ?es = "[Pool_allocate 48 True, Common_buffer_create 16 STATUS_SUCCESS, Common_buffer_create bytes STATUS_SUCCESS]"
  show ?thesis
    by (intro exI conjI, simp only: fscc_io_create_frame_def pool_alloc_def wdf_common_buffer_create_def
        memory_availableD(1) [OF assms] Let_def emit_emits emits_emits b1 b2 emits_sel prod.case rev.simps
        append_Nil append_Cons simp_thms if_True if_False)
qed

lemma create_frames_available:
  assumes "memory_available E"
  shows "\<exists>fs es. create_frames E count bytes i n s = (fs, emits es s) \<and> length fs = n"
proof (induction n arbitrary: i s)
  case 0
  then show ?case by (auto intro: exI [of _ "[]"])
next
  case (Suc n)
  obtain f es where f: "fscc_io_create_frame E bytes s = (Some f, emits es s)"
    using create_frame_available [OF assms] by blast
  obtain fs es' where "create_frames E count bytes (i + 1) n (emits es s) = (fs, emits es' (emits es s))"
    "length fs = n" using Suc.IH by blast
  with f show ?case by (intro exI [of _ "_ # fs"] exI [of _ "es @ es'"]) (simp add: Let_def emits_emits)
qed

lemma create_rx_available:
  assumes "memory_available E" "buffers_as_asked E"
  shows "\<exists>fs es. fscc_io_create_rx E number bytes s = (STATUS_SUCCESS,
      (emits es s)\<lparr>rx_descriptors := Some fs,
        memory := (memory s)\<lparr>rx_size := round_size bytes, rx_num := of_nat (length fs)\<rparr>\<rparr>) \<and>
    length fs = max 2 (unat number) \<and> linked fs \<and>
    list_all (fresh_frame (round_size bytes) (round_size bytes)) fs"
proof -
  define n where "n = (if number < 2 then 2 else number)"
  let ?a = "Pool_allocate (SIZEOF_POINTER * unat n) True"
  obtain fs es where f: "create_frames E data_size (round_size bytes) 0 (unat n) (emits [?a] s) =
      (fs, emits es (emits [?a] s))" "length fs = unat n"
    using create_frames_available [OF assms(1)] by blast
  have "list_all (fresh_frame (round_size bytes) (round_size bytes)) fs"
    by (rule conjunct1 [OF conjunct2 [OF create_frames_fresh [OF assms(2) f(1)]]]) simp_all
  note fresh = fresh_linked [OF this]
  have n: "unat n = max 2 (unat number)" by (simp add: n_def word_less_nat_alt)
  have "fscc_io_create_rx E number bytes s = (STATUS_SUCCESS,
      (emits (?a # es) s)\<lparr>rx_descriptors := Some (fscc_io_link_desc fs),
        memory := (memory s)\<lparr>rx_size := round_size bytes, rx_num := of_nat (length (fscc_io_link_desc fs))\<rparr>\<rparr>)"
    unfolding fscc_io_create_rx_def pool_alloc_def Let_def n_def [symmetric] emit_emits
      memory_availableD(1) [OF assms(1)] prod.case f(1)
    by (simp add: emits_emits)
  moreover have "length (fscc_io_link_desc fs) = max 2 (unat number)"
    unfolding length_link_desc f(2) by (rule n)
  ultimately show ?thesis using fresh linked_link_desc by blast
qed

lemma create_tx_available:
  assumes "memory_available E" "buffers_as_asked E"
  shows "\<exists>fs es. fscc_io_create_tx E number bytes s = (STATUS_SUCCESS,
      (emits es s)\<lparr>tx_descriptors := Some fs,
        memory := (memory s)\<lparr>tx_size := round_size bytes, tx_num := of_nat (length fs)\<rparr>\<rparr>) \<and>
    length fs = max 2 (unat number) \<and> linked fs \<and>
    list_all (fresh_frame (round_size bytes) 0) fs"
proof -
  define n where "n = (if number < 2 then 2 else number)"
  let ?a = "Pool_allocate (SIZEOF_POINTER * unat n) True"
  obtain fs es where f: "create_frames E (\<lambda>_. 0) (round_size bytes) 0 (unat n) (emits [?a] s) =
      (fs, emits es (emits [?a] s))" "length fs = unat n"
    using create_frames_available [OF assms(1)] by blast
  have "list_all (fresh_frame (round_size bytes) 0) fs"
    by (rule conjunct1 [OF conjunct2 [OF create_frames_fresh [OF assms(2) f(1)]]]) simp_all
  note fresh = fresh_linked [OF this]
  have n: "unat n = max 2 (unat number)" by (simp add: n_def word_less_nat_alt)
  have "fscc_io_create_tx E number bytes s = (STATUS_SUCCESS,
      (emits (?a # es) s)\<lparr>tx_descriptors := Some (fscc_io_link_desc fs),
        memory := (memory s)\<lparr>tx_size := round_size bytes, tx_num := of_nat (length (fscc_io_link_desc fs))\<rparr>\<rparr>)"
    unfolding fscc_io_create_tx_def pool_alloc_def Let_def n_def [symmetric] emit_emits
      memory_availableD(1) [OF assms(1)] prod.case f(1)
    by (simp add: emits_emits)
  moreover have "length (fscc_io_link_desc fs) = max 2 (unat number)"
    unfolding length_link_desc f(2) by (rule n)
  ultimately show ?thesis using fresh linked_link_desc by blast
qed

text \<open>Quiet events leave the registry alone.\<close>

definition registry_kept :: "driver \<Rightarrow> driver \<Rightarrow> bool" where
  "registry_kept s s' \<longleftrightarrow> (\<forall>R. registry_after R (events s') = registry_after R (events s))"

lemma registry_kept_trans [trans]: "registry_kept s t \<Longrightarrow> registry_kept t u \<Longrightarrow> registry_kept s u"
  by (simp add: registry_kept_def)

lemma registry_after_quiet: "list_all quiet es \<Longrightarrow> registry_after R (es @ h) = registry_after R h"
proof (induction es)
  case (Cons e es)
  then have "registry_step e = id" by (cases e) (auto simp: fun_eq_iff)
  with Cons show ?case by simp
qed simp

lemma registry_kept_io_step: "io_step s s' \<Longrightarrow> registry_kept s s'"
  by (auto simp: io_step_def registry_kept_def registry_after_quiet)

abbreviation (input) registry_size :: "registry \<Rightarrow> device \<Rightarrow> string \<Rightarrow> u32 \<Rightarrow> u32" where
  "registry_size R d \<equiv> value_or R (Device_key d)"

text \<open>The sizes a registry asks for can be used: not zero, and small enough for the length
  field of a descriptor.\<close>

definition sizes_usable :: "registry \<Rightarrow> device \<Rightarrow> bool" where
  "sizes_usable R d \<longleftrightarrow>
     0 < unat (registry_size R d ''RxSize'' DEFAULT_BUFFER_RX_SIZE) \<and>
     unat (registry_size R d ''RxSize'' DEFAULT_BUFFER_RX_SIZE) + 3 < 2 ^ 29 \<and>
     0 < unat (registry_size R d ''TxSize'' DEFAULT_BUFFER_TX_SIZE) \<and>
     unat (registry_size R d ''TxSize'' DEFAULT_BUFFER_TX_SIZE) + 3 < 2 ^ 29"

definition ring_made :: "u32 \<Rightarrow> u32 \<Rightarrow> dma_frame list \<Rightarrow> bool" where
  "ring_made number bytes fs \<longleftrightarrow> length fs = max 2 (unat number) \<and> linked fs \<and> list_all frame_ok fs \<and>
     list_all (\<lambda>f. data_size f = round_size bytes) fs"

lemma max_2_fits: "unat (of_nat (max 2 (unat (v :: u32))) :: u32) = max 2 (unat v)"
proof -
  have "unat v < 2 ^ LENGTH(32)" by (rule unsigned_less)
  then show ?thesis by (simp add: max_def unat_of_nat)
qed

lemma create_rings_ready:
  assumes "memory_available E" "buffers_as_asked E" "registry_works P R0"
    and "sizes_usable (registry_after R0 (events s)) d"
  shows "\<exists>rxs txs h m. create_rings E P d s = Some (STATUS_SUCCESS,
      s\<lparr>events := h, rx_descriptors := Some rxs, tx_descriptors := Some txs, memory := m\<rparr>) \<and>
    ring_made (registry_size (registry_after R0 (events s)) d ''RxNum'' DEFAULT_BUFFER_RX_NUM)
      (registry_size (registry_after R0 (events s)) d ''RxSize'' DEFAULT_BUFFER_RX_SIZE) rxs \<and>
    ring_made (registry_size (registry_after R0 (events s)) d ''TxNum'' DEFAULT_BUFFER_TX_NUM)
      (registry_size (registry_after R0 (events s)) d ''TxSize'' DEFAULT_BUFFER_TX_SIZE) txs \<and>
    unat (rx_num m) = length rxs \<and> unat (tx_num m) = length txs"
proof -
  let ?R = "registry_after R0 (events s)"
  let ?dflt = "\<lparr>tx_size = DEFAULT_BUFFER_TX_SIZE, tx_num = DEFAULT_BUFFER_TX_NUM,
    rx_size = DEFAULT_BUFFER_RX_SIZE, rx_num = DEFAULT_BUFFER_RX_NUM\<rparr>"
  let ?rn = "registry_size ?R d ''RxNum'' DEFAULT_BUFFER_RX_NUM"
  let ?rs = "registry_size ?R d ''RxSize'' DEFAULT_BUFFER_RX_SIZE"
  let ?tn = "registry_size ?R d ''TxNum'' DEFAULT_BUFFER_TX_NUM"
  let ?ts = "registry_size ?R d ''TxSize'' DEFAULT_BUFFER_TX_SIZE"
  obtain h1 where mem: "fscc_port_get_default_memory P d ?dflt (events s) = (STATUS_SUCCESS,
      ?dflt\<lparr>tx_num := ?tn, rx_num := ?rn, tx_size := ?ts, rx_size := ?rs\<rparr>, h1)"
    using get_default_memory_works [OF assms(3)] by blast
  let ?s1 = "s\<lparr>events := h1\<rparr>"
  obtain rxs es1 where rx: "fscc_io_create_rx E ?rn ?rs ?s1 = (STATUS_SUCCESS,
      (emits es1 ?s1)\<lparr>rx_descriptors := Some rxs,
        memory := (memory ?s1)\<lparr>rx_size := round_size ?rs, rx_num := of_nat (length rxs)\<rparr>\<rparr>)"
    "length rxs = max 2 (unat ?rn)" "linked rxs" "list_all (fresh_frame (round_size ?rs) (round_size ?rs)) rxs"
    using create_rx_available [OF assms(1,2)] by blast
  let ?s2 = "(emits es1 ?s1)\<lparr>rx_descriptors := Some rxs,
        memory := (memory ?s1)\<lparr>rx_size := round_size ?rs, rx_num := of_nat (length rxs)\<rparr>\<rparr>"
  obtain txs es2 where tx: "fscc_io_create_tx E ?tn ?ts ?s2 = (STATUS_SUCCESS,
      (emits es2 ?s2)\<lparr>tx_descriptors := Some txs,
        memory := (memory ?s2)\<lparr>tx_size := round_size ?ts, tx_num := of_nat (length txs)\<rparr>\<rparr>)"
    "length txs = max 2 (unat ?tn)" "linked txs" "list_all (fresh_frame (round_size ?ts) 0) txs"
    using create_tx_available [OF assms(1,2)] by blast
  have made: "ring_made ?rn ?rs rxs" "ring_made ?tn ?ts txs"
    using rx(2-4) tx(2-4) fresh_frames_ok(1) [OF rx(4)] fresh_frames_ok(1) [OF tx(4)] assms(4)
    by (auto simp: ring_made_def sizes_usable_def fresh_frame_def list_all_iff)
  have "create_rings E P d s = Some (STATUS_SUCCESS, s\<lparr>events := rev es2 @ rev es1 @ h1,
      rx_descriptors := Some rxs, tx_descriptors := Some txs,
      memory := (memory s)\<lparr>rx_size := round_size ?rs, rx_num := of_nat (length rxs),
        tx_size := round_size ?ts, tx_num := of_nat (length txs)\<rparr>\<rparr>)"
    using rx(1) tx(1) by (simp add: create_rings_def on_registry_def mem emits_def)
  moreover have "unat (of_nat (length rxs) :: u32) = length rxs" "unat (of_nat (length txs) :: u32) = length txs"
    unfolding rx(2) tx(2) by (rule max_2_fits)+
  ultimately show ?thesis using made
    by (intro exI conjI) (assumption | simp)+
qed

section \<open>Preparing the hardware\<close>

lemma registry_kept_simps [simp]:
  "registry_kept s s" "registry_kept s (emit (Framework (Map_io_space a n) st) s)"
  "registry_kept s (emit (Framework (Read_config off) st) s)"
  "registry_kept s (emit (Dma_enabler_create st) s)"
  by (simp_all add: registry_kept_def)

lemma registry_kept_events: "registry_kept s t \<Longrightarrow> events u = events t \<Longrightarrow> registry_kept s u"
  by (simp add: registry_kept_def)

text \<open>Finding the card changes the card alone.\<close>

definition same_but_card :: "driver \<Rightarrow> driver \<Rightarrow> bool" where
  "same_but_card s s' \<longleftrightarrow> (\<exists>h c. s' = s\<lparr>events := h, port_card := c\<rparr>)"

lemma set_bar_simps [simp]:
  "events (set_bar n b s) = events s" "same_but_card s (set_bar n b s)"
  "same_but_card s (set_bar n b (emit e s))"
proof -
  show "events (set_bar n b s) = events s" by (simp add: set_bar_def)
  show "same_but_card s (set_bar n b s)"
    unfolding same_but_card_def set_bar_def by (intro exI [of _ "events s"] exI) simp
  show "same_but_card s (set_bar n b (emit e s))"
    unfolding same_but_card_def set_bar_def emit_def by (intro exI) simp
qed

lemma same_but_card_trans: "same_but_card s t \<Longrightarrow> same_but_card t u \<Longrightarrow> same_but_card s u"
  unfolding same_but_card_def by (elim exE, hypsubst) (intro exI, simp)

lemma card_init_loop_result:
  assumes "None \<notin> set resources"
  shows "\<exists>s'. card_init_loop P i bar_num resources s = (STATUS_SUCCESS, s') \<and> same_but_card s s' \<and> registry_kept s s'"
  using assms
proof (induction P i bar_num resources s rule: card_init_loop.induct)
  case (1 P i bar_num s)
  have "same_but_card s s"
    unfolding same_but_card_def by (intro exI [of _ "events s"] exI [of _ "port_card s"]) simp
  then show ?case by simp
next
  case (2 P i bar_num rest s)
  then show ?case by simp
next
  case (3 P i bar_num start rest s)
  let ?s1 = "set_bar (bar_of i bar_num) \<lparr>address = ucast start, memory_mapped = FALSE\<rparr> s"
  from 3 obtain s' where s': "card_init_loop P (i + 1) (bar_of i bar_num) rest ?s1 = (STATUS_SUCCESS, s')"
    "same_but_card ?s1 s'" "registry_kept ?s1 s'" by auto
  have "same_but_card s s'" using same_but_card_trans [OF _ s'(2)] by simp
  with s' show ?case by (simp add: registry_kept_def)
next
  case (4 P i bar_num start len rest s)
  let ?e = "Framework (Map_io_space start len) STATUS_SUCCESS"
  let ?s1 = "set_bar (bar_of i bar_num)
    \<lparr>address = mapped_address P (events s) start len, memory_mapped = TRUE\<rparr> (emit ?e s)"
  from 4 obtain s' where s': "card_init_loop P (i + 1) (bar_of i bar_num) rest ?s1 = (STATUS_SUCCESS, s')"
    "same_but_card ?s1 s'" "registry_kept ?s1 s'" by (auto simp: Let_def)
  have "same_but_card s s'" using same_but_card_trans [OF _ s'(2)] by simp
  with s' show ?case by (simp add: registry_kept_def Let_def)
next
  case (5 P i bar_num rest s)
  then show ?case by simp
qed

lemma read_config_result:
  "\<exists>error w h. PCIReadConfigWord P off s = (error, w, s\<lparr>events := h\<rparr>) \<and> registry_kept s (s\<lparr>events := h\<rparr>)"
proof (cases "irp_built P (events s)")
  case True
  then show ?thesis
    by (intro exI [of _ 0] exI [of _ "config_word P (events s) off"] exI [of _ "Framework (Read_config off) STATUS_SUCCESS # events s"])
      (simp add: PCIReadConfigWord_def emit_def registry_kept_def)
next
  case False
  then show ?thesis
    by (intro exI [of _ "- 1"] exI [of _ None] exI [of _ "events s"]) (simp add: PCIReadConfigWord_def)
qed

lemma card_init_result:
  assumes "None \<notin> set resources"
  shows "\<exists>s'. fscc_card_init P resources s = (STATUS_SUCCESS, s') \<and> same_but_card s s' \<and> registry_kept s s'"
proof -
  let ?s1 = "s\<lparr>port_card := (port_card s)\<lparr>device_id := 0\<rparr>\<rparr>"
  have s1: "same_but_card s ?s1" "registry_kept s ?s1"
    unfolding same_but_card_def registry_kept_def by (intro exI [of _ "events s"] exI, simp) simp
  from card_init_loop_result [OF assms] obtain s2 where s2:
    "card_init_loop P 0 0 resources ?s1 = (STATUS_SUCCESS, s2)" "same_but_card ?s1 s2" "registry_kept ?s1 s2"
    by blast
  obtain error w h where cfg: "PCIReadConfigWord P 0x02 s2 = (error, w, s2\<lparr>events := h\<rparr>)"
    "registry_kept s2 (s2\<lparr>events := h\<rparr>)" using read_config_result by blast
  let ?s3 = "s2\<lparr>events := h\<rparr>"
  let ?s4 = "case w of None \<Rightarrow> ?s3 | Some w \<Rightarrow> ?s3\<lparr>port_card := (port_card ?s3)\<lparr>device_id := ucast w\<rparr>\<rparr>"
  have run: "fscc_card_init P resources s = (STATUS_SUCCESS, ?s4)"
    unfolding fscc_card_init_def Let_def s2(1) by (simp add: cfg(1))
  have "same_but_card s2 ?s4"
  proof (cases w)
    case None
    then show ?thesis unfolding same_but_card_def by (intro exI [of _ h] exI [of _ "port_card s2"]) simp
  next
    case (Some x)
    then show ?thesis unfolding same_but_card_def
      by (intro exI [of _ h] exI [of _ "(port_card s2)\<lparr>device_id := ucast x\<rparr>"]) simp
  qed
  then have step: "same_but_card s ?s4" using same_but_card_trans [OF same_but_card_trans [OF s1(1) s2(2)]] by blast
  have "registry_kept s2 ?s4" using cfg(2) by (cases w) (simp_all add: registry_kept_def)
  then have "registry_kept s ?s4" using registry_kept_trans [OF registry_kept_trans [OF s1(2) s2(3)]] by blast
  with run step show ?thesis by blast
qed

text \<open>The settings a prepared port starts with.\<close>

definition with_default_settings :: "driver \<Rightarrow> driver" where
  "with_default_settings s = s\<lparr>append_status := 0, append_timestamp := 0, ignore_timeout := 0, tx_modifiers := 0,
     rx_multiple := 0, wait_on_write := 0, blocking_write := 0,
     force_fifo := (if has_dma s \<noteq> 0 then 0 else force_fifo s)\<rparr>"

lemma default_settings_result:
  "same_port (with_default_settings s) (default_settings E s) \<and> registry_kept s (default_settings E s)"
proof -
  let ?s7 = "s\<lparr>append_status := 0, append_timestamp := 0, ignore_timeout := 0, tx_modifiers := 0,
     rx_multiple := 0, wait_on_write := 0, blocking_write := 0\<rparr>"
  have run: "default_settings E s = snd (fscc_port_set_force_fifo E 0 ?s7)"
    by (simp add: default_settings_def fscc_port_set_append_status_def fscc_port_set_append_timestamp_def
        fscc_port_set_ignore_timeout_def fscc_port_set_tx_modifiers_def fscc_port_set_rx_multiple_def
        fscc_port_set_wait_on_write_def fscc_port_set_blocking_write_def)
  show ?thesis
  proof (cases "has_dma s \<noteq> 0 \<and> force_fifo s \<noteq> 0")
    case True
    let ?s8 = "?s7\<lparr>force_fifo := FALSE\<rparr>"
    have "default_settings E s = snd (fscc_dma_port_enable E ?s8)"
      using True unfolding run fscc_port_set_force_fifo_def by (simp add: Let_def)
    moreover have "io_step ?s8 (snd (fscc_dma_port_enable E ?s8))" by (simp add: fscc_dma_port_enable_def)
    moreover have "?s8 = with_default_settings s" using True by (simp add: with_default_settings_def)
    moreover have "registry_kept s ?s8" by (simp add: registry_kept_def)
    ultimately show ?thesis using same_port_io_step registry_kept_io_step registry_kept_trans by metis
  next
    case False
    have "default_settings E s = ?s7"
      using False unfolding run fscc_port_set_force_fifo_def by auto
    moreover have "?s7 = with_default_settings s" using False by (cases s) (auto simp: with_default_settings_def)
    ultimately have eq: "default_settings E s = with_default_settings s" by argo
    show ?thesis unfolding eq by (simp add: registry_kept_def with_default_settings_def)
  qed
qed

lemma io_initialize_result:
  "\<exists>st b es. fscc_io_initialize E s = (st, (emits es s)\<lparr>has_dma := b\<rparr>) \<and> list_all quiet es \<and>
     st = dma_enabler_create E (events s) \<and> b = (if NT_SUCCESS st then has_dma s else 0)"
proof -
  define st where "st = dma_enabler_create E (events s)"
  have "(emits [Dma_enabler_create st] s)\<lparr>has_dma := has_dma s\<rparr> = emits [Dma_enabler_create st] s"
    by (cases s) (simp add: emits_def)
  then have "fscc_io_initialize E s = (st, (emits [Dma_enabler_create st] s)\<lparr>has_dma :=
      (if NT_SUCCESS st then has_dma s else 0)\<rparr>)"
    by (simp add: fscc_io_initialize_def st_def [symmetric] Let_def emit_emits)
  then show ?thesis unfolding st_def [symmetric] by (intro exI conjI) (assumption, simp_all)
qed

text \<open>The address of the first BAR tells the channel.\<close>

definition bar0_low :: "platform \<Rightarrow> resource option list \<Rightarrow> driver \<Rightarrow> u32" where
  "bar0_low P resources s = ucast (address (bar (port_card (snd (fscc_card_init P resources s))) ! 0)) AND 0xFF"

text \<open>Bit 10 of \<open>VSTR\<close> tells whether the board has DMA; the framework has to give an enabler
  for it. \<open>VSTR\<close> is read once the card is mapped.\<close>

definition dma_offered :: "env \<Rightarrow> platform \<Rightarrow> resource option list \<Rightarrow> driver \<Rightarrow> bool" where
  "dma_offered E P resources s \<longleftrightarrow>
     (let s1 = snd (fscc_card_init P resources s);
          v = hw_reg E (port_card s1) (events s1) 0 VSTR_OFFSET
      in bit v 10 \<and> NT_SUCCESS (dma_enabler_create E (rd (port_card s1) 0 VSTR_OFFSET v # events s1)))"

lemma prev_bit: "((ucast (drop_bit 8 (v AND 0x0000FF00)) :: u8) AND 0x04 \<noteq> 0) = bit (v :: u32) 10"
proof -
  let ?w = "ucast (drop_bit 8 (v AND 0x0000FF00)) :: u8"
  have "(?w AND push_bit 2 1 \<noteq> 0) = bit ?w 2" by (rule bit_iff_and_push_bit_not_eq_0 [symmetric])
  moreover have "push_bit 2 1 = (4 :: u8)" by simp
  moreover have "bit (0x0000FF00 :: u32) 10" by (simp add: bit_iff_odd)
  then have "bit ?w 2 = bit v 10" unfolding bit_ucast_iff bit_drop_bit_eq o_def bit_and_iff by simp
  ultimately show ?thesis by metis
qed

definition ready_port :: "driver \<Rightarrow> bool" where
  "ready_port s \<longleftrightarrow> rx_ring_ok True s \<and> rx_queue s = [] \<and> tx_ring_ok True s \<and> tx_queue s = [] \<and>
     append_status s = 0 \<and> append_timestamp s = 0 \<and> ignore_timeout s = 0 \<and> tx_modifiers s = XF \<and>
     rx_multiple s = 0 \<and> wait_on_write s = 0 \<and> blocking_write s = 0 \<and>
     fscc_port_uses_dma s = has_dma s \<and> last_isr_value s = 0"

lemma started_ready:
  assumes "ring_made rn rs rxs" "ring_made tn ts txs" "same_port (started rxs txs s) s'"
    and "unat (rx_num (memory s)) = length rxs" "unat (tx_num (memory s)) = length txs"
  shows "rx_ring_ok True s'" "rx_queue s' = []" "rx_free s' = map reset_rx_frame rxs"
    "tx_ring_ok True s'" "tx_queue s' = []" "tx_free s' = map reset_tx_frame txs"
proof -
  have ne: "rxs \<noteq> []" "txs \<noteq> []" using assms(1,2) by (auto simp: ring_made_def)
  note f = same_portD [OF assms(3), unfolded started_def rx_emptied_def tx_emptied_def, simplified]
  show "rx_ring_ok True s'" "rx_queue s' = []" "rx_free s' = map reset_rx_frame rxs"
    using empty_rx_ring [of s' "map reset_rx_frame rxs"] assms(1,4) ne f
    by (simp_all add: ring_made_def list_all_iff reset_rx_frame_simps)
  show "tx_ring_ok True s'" "tx_queue s' = []" "tx_free s' = map reset_tx_frame txs"
    using empty_tx_ring [of s' "map reset_tx_frame txs"] assms(2,5) ne f
    by (simp_all add: ring_made_def list_all_iff reset_tx_frame_simps)
qed

lemma rings_to_ready:
  assumes "memory_available E" "buffers_as_asked E" "registry_works P R0" "registry_after R0 (events s) = R"
    "sizes_usable R d"
  shows "\<exists>s6 s7 rxs txs. create_rings E P d (default_settings E s) = Some (STATUS_SUCCESS, s6) \<and>
    start_port E (write_default_registers E P d s6) = Some s7 \<and>
    (\<forall>s8. same_port s7 s8 \<longrightarrow> ready_port s8 \<and> rx_free s8 = map reset_rx_frame rxs \<and>
      tx_free s8 = map reset_tx_frame txs \<and> channel s8 = channel s \<and> has_dma s8 = has_dma s) \<and>
    ring_made (registry_size R d ''RxNum'' DEFAULT_BUFFER_RX_NUM) (registry_size R d ''RxSize'' DEFAULT_BUFFER_RX_SIZE) rxs \<and>
    ring_made (registry_size R d ''TxNum'' DEFAULT_BUFFER_TX_NUM) (registry_size R d ''TxSize'' DEFAULT_BUFFER_TX_SIZE) txs"
proof -
  let ?D = "default_settings E s"
  have R: "registry_after R0 (events ?D) = R"
    using default_settings_result [of s E] assms(4) by (simp add: registry_kept_def)
  obtain rxs txs h m where rings: "create_rings E P d ?D = Some (STATUS_SUCCESS,
      ?D\<lparr>events := h, rx_descriptors := Some rxs, tx_descriptors := Some txs, memory := m\<rparr>)"
    and made: "ring_made (registry_size R d ''RxNum'' DEFAULT_BUFFER_RX_NUM) (registry_size R d ''RxSize'' DEFAULT_BUFFER_RX_SIZE) rxs"
      "ring_made (registry_size R d ''TxNum'' DEFAULT_BUFFER_TX_NUM) (registry_size R d ''TxSize'' DEFAULT_BUFFER_TX_SIZE) txs"
    and num: "unat (rx_num m) = length rxs" "unat (tx_num m) = length txs"
    using create_rings_ready [OF assms(1-3), of ?D d, unfolded R, OF assms(5)] by blast
  let ?s6 = "?D\<lparr>events := h, rx_descriptors := Some rxs, tx_descriptors := Some txs, memory := m\<rparr>"
  let ?W = "write_default_registers E P d ?s6"
  note W = write_default_registers_same_port [of ?s6 E P d]
  have ne: "rxs \<noteq> []" "txs \<noteq> []" using made by (auto simp: ring_made_def)
  have mem: "unat (rx_num (memory ?W)) = length rxs" "unat (tx_num (memory ?W)) = length txs"
    using num by (simp_all add: same_portD [OF W])
  obtain s7 where s7: "start_port E ?W = Some s7" "same_port (started rxs txs ?W) s7"
    using start_port_ready [of ?W rxs txs E] mem ne by (auto simp: same_portD [OF W])
  have "ready_port s8 \<and> rx_free s8 = map reset_rx_frame rxs \<and>
      tx_free s8 = map reset_tx_frame txs \<and> channel s8 = channel s \<and> has_dma s8 = has_dma s"
    if s8: "same_port s7 s8" for s8
  proof -
    note all = same_port_trans [OF s7(2) s8]
    note f = same_portD [OF all, unfolded started_def rx_emptied_def tx_emptied_def, simplified]
      same_portD [OF W, simplified]
      same_portD [OF default_settings_result [of s E, THEN conjunct1], unfolded with_default_settings_def, simplified]
    show ?thesis
      using started_ready [OF made all mem] by (simp add: ready_port_def f fscc_port_uses_dma_def)
  qed
  with rings s7(1) made show ?thesis by blast
qed

lemma linked_reset: "linked (map reset_rx_frame fs) = linked fs" "linked (map reset_tx_frame fs) = linked fs"
  by (simp_all add: linked_def rotate1_map reset_rx_frame_def reset_tx_frame_def o_def)

lemma prepare_ready:
  assumes "memory_available E" "buffers_as_asked E" "registry_works P R0"
    and "sizes_usable (registry_after R0 (events s)) d" "None \<notin> set resources"
  shows "case FsccEvtDevicePrepareHardware E P d resources s of
      None \<Rightarrow> False
    | Some (st, s') \<Rightarrow>
        if bar0_low P resources s \<noteq> 0 \<and> bar0_low P resources s \<noteq> 0x80 then st = STATUS_UNSUCCESSFUL
        else (\<exists>h. st = answer P h Timer_create) \<and> ready_port s' \<and>
          channel s' = (if bar0_low P resources s = 0 then 0 else 1) \<and>
          length (rx_free s') = max 2 (unat (registry_size (registry_after R0 (events s)) d ''RxNum'' DEFAULT_BUFFER_RX_NUM)) \<and>
          length (tx_free s') = max 2 (unat (registry_size (registry_after R0 (events s)) d ''TxNum'' DEFAULT_BUFFER_TX_NUM)) \<and>
          linked (rx_free s') \<and> linked (tx_free s') \<and>
          list_all (\<lambda>f. data_size f =
            round_size (registry_size (registry_after R0 (events s)) d ''RxSize'' DEFAULT_BUFFER_RX_SIZE)) (rx_free s') \<and>
          list_all (\<lambda>f. data_size f =
            round_size (registry_size (registry_after R0 (events s)) d ''TxSize'' DEFAULT_BUFFER_TX_SIZE)) (tx_free s') \<and>
          has_dma s' = (if dma_offered E P resources s then 1 else 0)"
proof -
  let ?R = "registry_after R0 (events s)"
  obtain s1 where s1: "fscc_card_init P resources s = (STATUS_SUCCESS, s1)" "registry_kept s s1"
    using card_init_result [OF assms(5)] by blast
  let ?low = "(ucast (address (bar (port_card s1) ! 0)) :: u32) AND 0x000000FF"
  have low: "bar0_low P resources s = ?low" by (simp add: bar0_low_def s1(1))
  let ?s2 = "s1\<lparr>channel := (if ?low = 0x00 then 0 else 1)\<rparr>"
  obtain vstr s3 where s3: "fscc_port_get_PREV E ?s2 = (vstr, s3)" by fastforce
  then have step3: "io_step ?s2 s3"
    by (auto simp: fscc_port_get_PREV_def split: prod.splits dest: get_register_io_step)
  let ?v = "hw_reg E (port_card s1) (events s1) 0 VSTR_OFFSET"
  have "fscc_port_get_PREV E ?s2 =
      (ucast (drop_bit 8 (?v AND 0x0000FF00)), emits [rd (port_card s1) 0 VSTR_OFFSET ?v] ?s2)"
    by (simp add: fscc_port_get_PREV_def get_register_eq port_offset_def Let_def)
  with s3 have prev: "vstr = ucast (drop_bit 8 (?v AND 0x0000FF00))" "s3 = emits [rd (port_card s1) 0 VSTR_OFFSET ?v] ?s2"
    by simp_all
  have vstr: "(vstr AND 0x04 \<noteq> 0) = bit ?v 10" "events s3 = rd (port_card s1) 0 VSTR_OFFSET ?v # events s1"
    unfolding prev(1) prev_bit by (simp_all add: prev(2))
  let ?s4 = "s3\<lparr>has_dma := (if vstr AND 0x04 \<noteq> 0 then 1 else 0)\<rparr>"
  obtain st5 b es where s5: "fscc_io_initialize E ?s4 = (st5, (emits es ?s4)\<lparr>has_dma := b\<rparr>)" "list_all quiet es"
    "st5 = dma_enabler_create E (events ?s4)" "b = (if NT_SUCCESS st5 then has_dma ?s4 else 0)"
    using io_initialize_result by blast
  let ?s5 = "(emits es ?s4)\<lparr>has_dma := b\<rparr>"
  have "registry_after R0 (events ?s5) = registry_after R0 (events s3)"
    using s5(2) by (simp add: registry_after_quiet)
  also have "\<dots> = ?R"
    using registry_kept_io_step [OF step3] s1(2) by (simp add: registry_kept_def)
  finally obtain s6 s7 rxs txs where rings:
    "create_rings E P d (default_settings E ?s5) = Some (STATUS_SUCCESS, s6)"
    "start_port E (write_default_registers E P d s6) = Some s7"
    "\<And>s8. same_port s7 s8 \<Longrightarrow> ready_port s8 \<and> rx_free s8 = map reset_rx_frame rxs \<and>
      tx_free s8 = map reset_tx_frame txs \<and> channel s8 = channel ?s5 \<and> has_dma s8 = has_dma ?s5"
    "ring_made (registry_size ?R d ''RxNum'' DEFAULT_BUFFER_RX_NUM) (registry_size ?R d ''RxSize'' DEFAULT_BUFFER_RX_SIZE) rxs"
    "ring_made (registry_size ?R d ''TxNum'' DEFAULT_BUFFER_TX_NUM) (registry_size ?R d ''TxSize'' DEFAULT_BUFFER_TX_SIZE) txs"
    using rings_to_ready [OF assms(1-3) _ assms(4), of ?s5] by blast
  let ?st = "answer P (events s7) Timer_create"
  let ?s8 = "s7\<lparr>events := Framework Timer_create ?st # events s7\<rparr>"
  let ?s9 = "if NT_SUCCESS ?st then emit Timer_start ?s8 else ?s8"
  show ?thesis
  proof (cases "?low \<noteq> 0 \<and> ?low \<noteq> 0x80")
    case True
    then have "FsccEvtDevicePrepareHardware E P d resources s = Some (STATUS_UNSUCCESSFUL, s1)"
      by (simp add: FsccEvtDevicePrepareHardware_def s1(1))
    with True show ?thesis by (simp add: low)
  next
    case False
    have run: "FsccEvtDevicePrepareHardware E P d resources s = Some (?st, ?s9)"
      unfolding FsccEvtDevicePrepareHardware_def s1(1) Let_def prod.case s3 s5(1) rings(1)
      using False by (auto simp: rings(2) framework_def Let_def)
    have "same_port s7 ?s9" by (simp add: emit_def)
    note fin = rings(3) [OF this]
    have chan: "channel ?s5 = (if ?low = 0 then 0 else 1)" by (simp add: io_stepD [OF step3])
    have dma: "has_dma ?s5 = (if dma_offered E P resources s then 1 else 0)"
      using s5(3,4) vstr by (simp add: dma_offered_def s1(1) Let_def)
    have size: "data_size (reset_rx_frame f) = data_size f" "data_size (reset_tx_frame f) = data_size f" for f
      by (simp_all add: reset_rx_frame_def reset_tx_frame_def)
    have linked: "linked (map reset_rx_frame rxs)" "linked (map reset_tx_frame txs)"
      using rings(4,5) by (simp_all add: ring_made_def linked_reset)
    show ?thesis
      unfolding run low option.case prod.case using False fin rings(4,5) chan linked dma
      by (auto simp: ring_made_def list_all_iff size)
  qed
qed

text \<open>Property C29. A port that finds its hardware starts in the state the rest of the driver
  relies on. With memory available, a registry that works and holds usable sizes, and the
  first BAR of the card mapped at one of the two channels, preparing the hardware accesses no
  invalid memory; both rings are well formed and empty, with the number of frames the registry
  asks for (but at least two), linked in a circle, and buffers of the size it asks for, rounded
  up to whole words; the FIFO cursors are in step, and the flags are off. The port uses DMA exactly when bit 10 of
  \<open>VSTR\<close> says that the board has it and the framework gives a DMA enabler. The status is that of creating
  the timer. At any other address it fails.\<close>

theorem prepared_port_ready:
  assumes "memory_available E" "buffers_as_asked E" "registry_works P R0"
    and "sizes_usable (registry_after R0 (events s)) d" "None \<notin> set resources"
  shows "case FsccEvtDevicePrepareHardware E P d resources s of
      None \<Rightarrow> False
    | Some (st, s') \<Rightarrow>
        if bar0_low P resources s \<noteq> 0 \<and> bar0_low P resources s \<noteq> 0x80 then st = STATUS_UNSUCCESSFUL
        else (\<exists>h. st = answer P h Timer_create) \<and> ready_port s' \<and>
          channel s' = (if bar0_low P resources s = 0 then 0 else 1) \<and>
          length (rx_free s') = max 2 (unat (registry_size (registry_after R0 (events s)) d ''RxNum'' DEFAULT_BUFFER_RX_NUM)) \<and>
          length (tx_free s') = max 2 (unat (registry_size (registry_after R0 (events s)) d ''TxNum'' DEFAULT_BUFFER_TX_NUM)) \<and>
          linked (rx_free s') \<and> linked (tx_free s') \<and>
          list_all (\<lambda>f. data_size f =
            round_size (registry_size (registry_after R0 (events s)) d ''RxSize'' DEFAULT_BUFFER_RX_SIZE)) (rx_free s') \<and>
          list_all (\<lambda>f. data_size f =
            round_size (registry_size (registry_after R0 (events s)) d ''TxSize'' DEFAULT_BUFFER_TX_SIZE)) (tx_free s') \<and>
          has_dma s' = (if dma_offered E P resources s then 1 else 0)"
  using prepare_ready [OF assms] .

definition example_resources :: "resource option list" where
  "example_resources = [Some (CmResourceTypeMemory 0xF000 0x100), Some CmResourceTypeOther,
     Some (CmResourceTypeMemory 0x2080 0x80)]"

definition empty_registry :: registry where
  "empty_registry = (\<lambda>key key_str. None)"

lemma example_available: "memory_available example_env" "buffers_as_asked example_env"
  by (simp_all add: memory_available_def buffers_as_asked_def example_env_def)

lemma prepared_port_ready_witness:
  "case FsccEvtDevicePrepareHardware example_env (platform_over empty_registry) 5 example_resources (new_port []) of
      None \<Rightarrow> False
    | Some (st, s') \<Rightarrow>
        if bar0_low (platform_over empty_registry) example_resources (new_port []) \<noteq> 0 \<and>
           bar0_low (platform_over empty_registry) example_resources (new_port []) \<noteq> 0x80
        then st = STATUS_UNSUCCESSFUL
        else (\<exists>h. st = answer (platform_over empty_registry) h Timer_create) \<and> ready_port s' \<and>
          channel s' = (if bar0_low (platform_over empty_registry) example_resources (new_port []) = 0 then 0 else 1) \<and>
          length (rx_free s') = max 2 (unat (registry_size (registry_after empty_registry (events (new_port []))) 5
            ''RxNum'' DEFAULT_BUFFER_RX_NUM)) \<and>
          length (tx_free s') = max 2 (unat (registry_size (registry_after empty_registry (events (new_port []))) 5
            ''TxNum'' DEFAULT_BUFFER_TX_NUM)) \<and>
          linked (rx_free s') \<and> linked (tx_free s') \<and>
          list_all (\<lambda>f. data_size f = round_size (registry_size (registry_after empty_registry (events (new_port []))) 5
            ''RxSize'' DEFAULT_BUFFER_RX_SIZE)) (rx_free s') \<and>
          list_all (\<lambda>f. data_size f = round_size (registry_size (registry_after empty_registry (events (new_port []))) 5
            ''TxSize'' DEFAULT_BUFFER_TX_SIZE)) (tx_free s') \<and>
          has_dma s' = (if dma_offered example_env (platform_over empty_registry) example_resources (new_port []) then 1 else 0)"
  by (rule prepared_port_ready [OF example_available platform_over_works])
    (simp_all add: sizes_usable_def value_or_def new_port_def empty_registry_def example_resources_def)

lemma example_bar0_low: "bar0_low (platform_over R) example_resources (new_port []) = 0x80"
  by (simp add: bar0_low_def fscc_card_init_def example_resources_def bar_of_def set_bar_def new_port_def
      platform_over_def PCIReadConfigWord_def Let_def numeral_3_eq_3)

text \<open>Releasing the hardware unmaps other addresses than those mapped: the first resource was
  mapped as the third BAR, but its length is used to unmap the first; the third BAR stays
  mapped, and the second, which never was, is unmapped.\<close>

lemma card_delete_wrong_bars:
  assumes "fscc_card_init P [Some (CmResourceTypeMemory a n), Some CmResourceTypeOther,
      Some (CmResourceTypeMemory b m)] s = (st, s1)" "length (bar (port_card s)) = 3"
  shows "fscc_card_delete [Some (CmResourceTypeMemory a n), Some CmResourceTypeOther,
      Some (CmResourceTypeMemory b m)] s1 =
    Some (STATUS_SUCCESS, emits
      [Framework (Unmap_io_space (address (bar (port_card s1) ! 0)) n) STATUS_SUCCESS,
       Framework (Unmap_io_space (address (bar (port_card s) ! 1)) m) STATUS_SUCCESS] s1)"
    "\<exists>h. address (bar (port_card s1) ! 2) = mapped_address P h a n"
    "\<exists>h. address (bar (port_card s1) ! 0) = mapped_address P h b m"
  using assms by (auto simp: fscc_card_init_def fscc_card_delete_def bar_of_def set_bar_def
      PCIReadConfigWord_def Let_def emit_emits emits_emits split: option.splits if_splits)

section \<open>A new device\<close>

abbreviation (input) succeeded :: "framework_call \<Rightarrow> event" where
  "succeeded c \<equiv> Framework c STATUS_SUCCESS"

lemma in_order_result:
  "\<exists>es. snd (in_order P cleanup cs h) = es @ h \<and>
     (fst (in_order P cleanup cs h) \<longrightarrow> es = rev (map succeeded cs)) \<and>
     (\<not> fst (in_order P cleanup cs h) \<longrightarrow>
       (\<exists>pre c st rest. cs = pre @ c # rest \<and> \<not> NT_SUCCESS st \<and>
          es = rev (map succeeded cleanup) @ Framework c st # rev (map succeeded pre)))"
proof (induction cs arbitrary: h)
  case Nil
  then show ?case by simp
next
  case (Cons c cs)
  let ?st = "answer P h c"
  have clean: "fold logged xs h' = rev (map succeeded xs) @ h'" for xs h'
    by (induction xs arbitrary: h') (simp_all add: logged_def)
  show ?case
  proof (cases "NT_SUCCESS ?st")
    case False
    then have "in_order P cleanup (c # cs) h = (False, rev (map succeeded cleanup) @ Framework c ?st # h)"
      by (simp add: framework_def clean Let_def)
    with False show ?thesis
      by (intro exI [of _ "rev (map succeeded cleanup) @ [Framework c ?st]"]) (fastforce intro: exI [of _ "[]"])
  next
    case True
    then have run: "in_order P cleanup (c # cs) h = in_order P cleanup cs (succeeded c # h)"
      by (simp add: framework_def Let_def)
    from Cons.IH [of "succeeded c # h"] obtain es where IH:
      "snd (in_order P cleanup cs (succeeded c # h)) = es @ succeeded c # h"
      "fst (in_order P cleanup cs (succeeded c # h)) \<longrightarrow> es = rev (map succeeded cs)"
      "\<not> fst (in_order P cleanup cs (succeeded c # h)) \<longrightarrow>
       (\<exists>pre d st rest. cs = pre @ d # rest \<and> \<not> NT_SUCCESS st \<and>
          es = rev (map succeeded cleanup) @ Framework d st # rev (map succeeded pre))" by blast
    show ?thesis
    proof (intro exI [of _ "es @ [succeeded c]"] conjI impI)
      assume "\<not> fst (in_order P cleanup (c # cs) h)"
      with IH(3) run obtain pre d st rest where "cs = pre @ d # rest" "\<not> NT_SUCCESS st"
        "es = rev (map succeeded cleanup) @ Framework d st # rev (map succeeded pre)" by auto
      then show "\<exists>pre e st rest. c # cs = pre @ e # rest \<and> \<not> NT_SUCCESS st \<and>
          es @ [succeeded c] = rev (map succeeded cleanup) @ Framework e st # rev (map succeeded pre)"
        by (intro exI [of _ "c # pre"]) auto
    qed (use IH run in auto)
  qed
qed

text \<open>A framework on which every call but a query of the registry succeeds.\<close>

definition calls_succeed :: "platform \<Rightarrow> bool" where
  "calls_succeed P \<longleftrightarrow> (\<forall>h c. (\<forall>key key_str. c \<noteq> Query_ulong key key_str) \<longrightarrow> answer P h c = STATUS_SUCCESS)"

lemma calls_succeedD: "calls_succeed P \<Longrightarrow> (\<And>key key_str. c \<noteq> Query_ulong key key_str) \<Longrightarrow> answer P h c = STATUS_SUCCESS"
  by (simp add: calls_succeed_def)

lemma in_order_succeeds:
  assumes "calls_succeed P" "list_all (\<lambda>c. \<forall>key key_str. c \<noteq> Query_ulong key key_str) cs"
  shows "in_order P cleanup cs h = (True, rev (map succeeded cs) @ h)"
  using assms(2)
  by (induction cs arbitrary: h) (simp_all add: framework_def Let_def calls_succeedD [OF assms(1)])

lemma registry_after_calls:
  "list_all (\<lambda>c. \<forall>key key_str v. c \<noteq> Assign_ulong key key_str v) cs \<Longrightarrow>
   registry_after R (rev (map succeeded cs) @ h) = registry_after R h"
proof (induction cs arbitrary: h)
  case (Cons c cs)
  then have "registry_step (succeeded c) (registry_after R h) = registry_after R h" by (cases c) auto
  with Cons show ?case by simp
qed simp

lemma no_registry_calls:
  "list_all (\<lambda>c. \<forall>key key_str. c \<noteq> Query_ulong key key_str) (link_locks_and_dpcs nm)"
  "list_all (\<lambda>c. \<forall>key key_str v. c \<noteq> Assign_ulong key key_str v) (link_locks_and_dpcs nm)"
  "list_all (\<lambda>c. \<forall>key key_str. c \<noteq> Query_ulong key key_str) interrupt_and_queues"
  "list_all (\<lambda>c. \<forall>key key_str v. c \<noteq> Assign_ulong key key_str v) interrupt_and_queues"
  by (simp_all add: link_locks_and_dpcs_def interrupt_and_queues_def)

lemma length_decimal: "n < 10 ^ k \<Longrightarrow> 0 < k \<Longrightarrow> length (decimal n) \<le> k"
proof (induction n arbitrary: k rule: decimal.induct)
  case (1 n)
  show ?case
  proof (cases "n < 10")
    case True
    then show ?thesis using "1.prems" by (simp add: decimal.simps [of n])
  next
    case False
    then obtain j where k: "k = Suc j" "0 < j" using "1.prems" by (cases k; cases "k - 1") auto
    then have "n div 10 < 10 ^ j" using "1.prems"(1) by (simp add: less_mult_imp_div_less mult.commute)
    with "1.IH" [OF False this k(2)] False k show ?thesis by (simp add: decimal.simps [of n])
  qed
qed

lemma length_print_int: "length (print_int v) \<le> 11"
proof -
  have "sint v < 2147483648" "- 2147483648 \<le> sint v"
    using sint_lt [of v] sint_ge [of v] by simp_all
  then have "sint v < 10000000000" "- sint v < 10000000000" by linarith+
  then have "nat (sint v) < 10 ^ 10" "nat (- sint v) < 10 ^ 10" by simp_all
  from length_decimal [OF this(1)] length_decimal [OF this(2)] show ?thesis
    by (auto simp: print_int_def)
qed

text \<open>The port number in a registry that works: reading it, and storing it.\<close>

lemma port_number_read:
  assumes "registry_works P R0"
  shows "\<exists>es. fscc_driver_get_last_port_num P v h =
      (case registry_after R0 h Driver_key ''LastPortNumber'' of
         None \<Rightarrow> (STATUS_OBJECT_NAME_NOT_FOUND, v, es @ h) | Some w \<Rightarrow> (STATUS_SUCCESS, w, es @ h)) \<and>
      registry_after R0 (es @ h) = registry_after R0 h"
    "\<exists>es. fscc_port_get_port_num P d v h =
      (case registry_after R0 h (Device_key d) ''PortNumber'' of
         None \<Rightarrow> (STATUS_OBJECT_NAME_NOT_FOUND, v, es @ h) | Some w \<Rightarrow> (STATUS_SUCCESS, w, es @ h)) \<and>
      registry_after R0 (es @ h) = registry_after R0 h"
proof -
  have query: "\<exists>st w. WdfRegistryQueryULong P key nm (succeeded (Open_registry_key key) # h) =
      (st, w, Framework (Query_ulong key nm) st # succeeded (Open_registry_key key) # h) \<and>
      (case registry_after R0 h key nm of None \<Rightarrow> st = STATUS_OBJECT_NAME_NOT_FOUND
        | Some u \<Rightarrow> st = STATUS_SUCCESS \<and> w = u)" for key nm
    using registry_worksD(3,4) [OF assms, of "succeeded (Open_registry_key key) # h" key nm]
    by (auto simp: WdfRegistryQueryULong_def framework_def Let_def split: option.splits)
  show "\<exists>es. fscc_driver_get_last_port_num P v h =
      (case registry_after R0 h Driver_key ''LastPortNumber'' of
         None \<Rightarrow> (STATUS_OBJECT_NAME_NOT_FOUND, v, es @ h) | Some w \<Rightarrow> (STATUS_SUCCESS, w, es @ h)) \<and>
      registry_after R0 (es @ h) = registry_after R0 h"
  proof (cases "registry_after R0 h Driver_key ''LastPortNumber''")
    case None
    then show ?thesis using query [of Driver_key "''LastPortNumber''"] registry_worksD(1) [OF assms]
      by (intro exI [of _ "[Framework (Query_ulong Driver_key ''LastPortNumber'') STATUS_OBJECT_NAME_NOT_FOUND,
          succeeded (Open_registry_key Driver_key)]"])
        (auto simp: fscc_driver_get_last_port_num_def framework_def)
  next
    case (Some w)
    then show ?thesis using query [of Driver_key "''LastPortNumber''"] registry_worksD(1) [OF assms]
      by (intro exI [of _ "[succeeded (Registry_close Driver_key),
          Framework (Query_ulong Driver_key ''LastPortNumber'') STATUS_SUCCESS,
          succeeded (Open_registry_key Driver_key)]"])
        (auto simp: fscc_driver_get_last_port_num_def framework_def logged_def)
  qed
  show "\<exists>es. fscc_port_get_port_num P d v h =
      (case registry_after R0 h (Device_key d) ''PortNumber'' of
         None \<Rightarrow> (STATUS_OBJECT_NAME_NOT_FOUND, v, es @ h) | Some w \<Rightarrow> (STATUS_SUCCESS, w, es @ h)) \<and>
      registry_after R0 (es @ h) = registry_after R0 h"
  proof (cases "registry_after R0 h (Device_key d) ''PortNumber''")
    case None
    then show ?thesis using query [of "Device_key d" "''PortNumber''"] registry_worksD(1) [OF assms]
      by (intro exI [of _ "[Framework (Query_ulong (Device_key d) ''PortNumber'') STATUS_OBJECT_NAME_NOT_FOUND,
          succeeded (Open_registry_key (Device_key d))]"])
        (auto simp: fscc_port_get_port_num_def framework_def)
  next
    case (Some w)
    then show ?thesis using query [of "Device_key d" "''PortNumber''"] registry_worksD(1) [OF assms]
      by (intro exI [of _ "[succeeded (Registry_close (Device_key d)),
          Framework (Query_ulong (Device_key d) ''PortNumber'') STATUS_SUCCESS,
          succeeded (Open_registry_key (Device_key d))]"])
        (auto simp: fscc_port_get_port_num_def framework_def logged_def)
  qed
qed

lemma port_number_stored:
  assumes "registry_works P R0"
  shows "\<exists>es. fscc_driver_set_last_port_num P v h = (STATUS_SUCCESS, es @ h) \<and>
      registry_after R0 (es @ h) = store_value Driver_key ''LastPortNumber'' v (registry_after R0 h)"
    "\<exists>es. fscc_port_set_port_num P d v h = (STATUS_SUCCESS, es @ h) \<and>
      registry_after R0 (es @ h) = store_value (Device_key d) ''PortNumber'' v (registry_after R0 h)"
proof -
  show "\<exists>es. fscc_driver_set_last_port_num P v h = (STATUS_SUCCESS, es @ h) \<and>
      registry_after R0 (es @ h) = store_value Driver_key ''LastPortNumber'' v (registry_after R0 h)"
    using registry_worksD(1,2) [OF assms]
    by (intro exI [of _ "[succeeded (Registry_close Driver_key),
        succeeded (Assign_ulong Driver_key ''LastPortNumber'' v), succeeded (Open_registry_key Driver_key)]"])
      (simp add: fscc_driver_set_last_port_num_def framework_def logged_def)
  show "\<exists>es. fscc_port_set_port_num P d v h = (STATUS_SUCCESS, es @ h) \<and>
      registry_after R0 (es @ h) = store_value (Device_key d) ''PortNumber'' v (registry_after R0 h)"
    using registry_worksD(1,2) [OF assms]
    by (intro exI [of _ "[succeeded (Registry_close (Device_key d)),
        succeeded (Assign_ulong (Device_key d) ''PortNumber'' v), succeeded (Open_registry_key (Device_key d))]"])
      (simp add: fscc_port_set_port_num_def framework_def logged_def)
qed

lemma friendly_name_set:
  assumes "calls_succeed P"
  shows "fscc_port_set_friendly_name P v h =
    (STATUS_SUCCESS, succeeded (Assign_friendly_name (''FSCC Port (FSCC'' @ print_int v @ '')'')) # h)"
  using length_print_int [of v] calls_succeedD [OF assms]
  by (simp add: fscc_port_set_friendly_name_def framework_def Let_def)

definition dos_name :: "u32 \<Rightarrow> string" where
  "dos_name v = [CHR 0x5C] @ ''DosDevices'' @ [CHR 0x5C] @ ''FSCC'' @ print_int v"

lemma dos_name_inj: "dos_name v = dos_name w \<longleftrightarrow> v = w"
  by (simp add: dos_name_def print_int_inj)

text \<open>The number a device gets.\<close>

definition number_for :: "registry \<Rightarrow> device \<Rightarrow> u32 \<Rightarrow> u32" where
  "number_for R d lst = value_or R (Device_key d) ''PortNumber'' (lst + 1)"

lemma number_port_works:
  assumes "calls_succeed P" "registry_works P R0"
  defines "R h \<equiv> registry_after R0 h"
  shows "\<exists>es. number_port P d lst h = (Some (new_port (es @ h)), es @ h) \<and>
    R (es @ h) = store_value Driver_key ''LastPortNumber'' (number_for (R h) d lst)
      (store_value (Device_key d) ''PortNumber'' (number_for (R h) d lst) (R h)) \<and>
    succeeded (Create_symbolic_link (dos_name (number_for (R h) d lst))) \<in> set es"
proof -
  let ?n = "number_for (R h) d lst"
  have "\<exists>es1. port_number P d lst h = (STATUS_SUCCESS, ?n, es1 @ h) \<and>
      R (es1 @ h) = store_value (Device_key d) ''PortNumber'' ?n (R h)"
  proof (cases "R h (Device_key d) ''PortNumber''")
    case None
    obtain es1 where es1: "fscc_port_get_port_num P d 0 h = (STATUS_OBJECT_NAME_NOT_FOUND, 0, es1 @ h)"
      "R (es1 @ h) = R h"
      using port_number_read(2) [OF assms(2), of d 0 h] None unfolding R_def by auto
    obtain es2 where "fscc_port_set_port_num P d (lst + 1) (es1 @ h) = (STATUS_SUCCESS, es2 @ es1 @ h)"
      "R (es2 @ es1 @ h) = store_value (Device_key d) ''PortNumber'' (lst + 1) (R (es1 @ h))"
      using port_number_stored(2) [OF assms(2)] unfolding R_def by blast
    with es1 None show ?thesis
      by (intro exI [of _ "es2 @ es1"]) (simp add: port_number_def number_for_def R_def value_or_def)
  next
    case (Some w)
    obtain es1 where "fscc_port_get_port_num P d 0 h = (STATUS_SUCCESS, w, es1 @ h)" "R (es1 @ h) = R h"
      using port_number_read(2) [OF assms(2), of d 0 h] Some unfolding R_def by auto
    with Some show ?thesis
      by (intro exI [of _ es1]) (auto simp: port_number_def number_for_def R_def value_or_def store_value_def fun_eq_iff)
  qed
  then obtain es1 where num: "port_number P d lst h = (STATUS_SUCCESS, ?n, es1 @ h)"
    "R (es1 @ h) = store_value (Device_key d) ''PortNumber'' ?n (R h)" by blast
  let ?f = "succeeded (Assign_friendly_name (''FSCC Port (FSCC'' @ print_int ?n @ '')''))"
  obtain es2 where es2: "fscc_driver_set_last_port_num P ?n (?f # es1 @ h) = (STATUS_SUCCESS, es2 @ ?f # es1 @ h)"
    "R (es2 @ ?f # es1 @ h) = store_value Driver_key ''LastPortNumber'' ?n (R (?f # es1 @ h))"
    using port_number_stored(1) [OF assms(2)] unfolding R_def by blast
  let ?links = "rev (map succeeded (link_locks_and_dpcs (dos_name ?n)))"
  let ?es = "?links @ es2 @ ?f # es1"
  have len: "\<not> 30 < length (dos_name ?n)" using length_print_int [of ?n] by (simp add: dos_name_def)
  have "number_port P d lst h = (Some (new_port (?es @ h)), ?es @ h)"
    using num(1) len es2(1) in_order_succeeds [OF assms(1) no_registry_calls(1), of "[Device_delete d]"]
    unfolding number_port_def dos_name_def [symmetric]
    by (simp add: friendly_name_set [OF assms(1)] Let_def)
  moreover have "R (?es @ h) = store_value Driver_key ''LastPortNumber'' ?n
      (store_value (Device_key d) ''PortNumber'' ?n (R h))"
    using es2(2) num(2) registry_after_calls [OF no_registry_calls(2), of R0] by (simp add: R_def)
  moreover have "succeeded (Create_symbolic_link (dos_name ?n)) \<in> set ?es"
    by (simp add: link_locks_and_dpcs_def)
  ultimately show ?thesis by blast
qed

lemma create_device_works:
  assumes "calls_succeed P" "registry_works P R0" "length (print_int inst) \<le> 8"
  shows "\<exists>es. create_device P d lst inst h = (Some (new_port (es @ h)), es @ h) \<and>
    registry_after R0 (es @ h) = store_value Driver_key ''LastPortNumber'' (number_for (registry_after R0 h) d lst)
      (store_value (Device_key d) ''PortNumber'' (number_for (registry_after R0 h) d lst) (registry_after R0 h)) \<and>
    succeeded (Create_symbolic_link (dos_name (number_for (registry_after R0 h) d lst))) \<in> set es"
proof -
  let ?name = "[CHR 0x5C] @ ''Device'' @ [CHR 0x5C] @ ''FSCC'' @ print_int inst"
  let ?calls = "[Init_assign_name ?name, Init_assign_sddl] @ (Device_create d # interrupt_and_queues) @ [Create_interface]"
  let ?es1 = "rev (map succeeded ?calls)"
  have ok: "list_all (\<lambda>c. \<forall>key key_str. c \<noteq> Query_ulong key key_str) (Device_create d # interrupt_and_queues)"
    using no_registry_calls(3) by simp
  have kept: "registry_after R0 (?es1 @ h) = registry_after R0 h"
    by (rule registry_after_calls) (use no_registry_calls(4) in simp)
  obtain es where es: "number_port P d lst (?es1 @ h) = (Some (new_port (es @ ?es1 @ h)), es @ ?es1 @ h)"
    "registry_after R0 (es @ ?es1 @ h) = store_value Driver_key ''LastPortNumber'' (number_for (registry_after R0 h) d lst)
      (store_value (Device_key d) ''PortNumber'' (number_for (registry_after R0 h) d lst) (registry_after R0 h))"
    "succeeded (Create_symbolic_link (dos_name (number_for (registry_after R0 h) d lst))) \<in> set es"
    using number_port_works [OF assms(1,2), of d lst "?es1 @ h", unfolded kept] by blast
  have "create_device P d lst inst h = number_port P d lst (?es1 @ h)"
    using assms(3) in_order_succeeds [OF assms(1) ok]
    by (simp add: create_device_def framework_def calls_succeedD [OF assms(1)] Let_def)
  with es show ?thesis by (intro exI [of _ "es @ ?es1"]) simp
qed

lemma port_new_works:
  assumes "calls_succeed P" "registry_works P R0" "length (print_int inst) \<le> 8"
  shows "\<exists>es. fscc_port_new P d inst h = (Some (new_port (es @ h)), inst + 1, es @ h) \<and>
    registry_after R0 (es @ h) = store_value Driver_key ''LastPortNumber''
      (number_for (registry_after R0 h) d (value_or (registry_after R0 h) Driver_key ''LastPortNumber'' (- 1)))
      (store_value (Device_key d) ''PortNumber''
        (number_for (registry_after R0 h) d (value_or (registry_after R0 h) Driver_key ''LastPortNumber'' (- 1)))
        (registry_after R0 h)) \<and>
    succeeded (Create_symbolic_link (dos_name
      (number_for (registry_after R0 h) d (value_or (registry_after R0 h) Driver_key ''LastPortNumber'' (- 1))))) \<in> set es"
proof -
  let ?R = "registry_after R0 h" and ?nm = "''LastPortNumber''"
  have start: "\<exists>es1. fscc_port_new P d inst h = (let (port, h3) = create_device P d (value_or ?R Driver_key ?nm (- 1)) inst (es1 @ h)
        in (port, inst + 1, h3)) \<and>
      (registry_after R0 (es1 @ h) = ?R \<or> registry_after R0 (es1 @ h) = store_value Driver_key ?nm (- 1) ?R)"
  proof (cases "?R Driver_key ?nm")
    case None
    obtain es1 where es1: "fscc_driver_get_last_port_num P (- 1) h = (STATUS_OBJECT_NAME_NOT_FOUND, - 1, es1 @ h)"
      "registry_after R0 (es1 @ h) = ?R"
      using port_number_read(1) [OF assms(2), of "- 1" h] None by auto
    obtain es2 where es2: "fscc_driver_set_last_port_num P (- 1) (es1 @ h) = (STATUS_SUCCESS, es2 @ es1 @ h)"
      "registry_after R0 (es2 @ es1 @ h) = store_value Driver_key ?nm (- 1) (registry_after R0 (es1 @ h))"
      using port_number_stored(1) [OF assms(2)] by blast
    have "value_or ?R Driver_key ?nm (- 1) = - 1" using None by (simp add: value_or_def)
    with es1 es2 show ?thesis
      by (intro exI [of _ "es2 @ es1"]) (simp add: fscc_port_new_def)
  next
    case (Some w)
    obtain es1 where es1: "fscc_driver_get_last_port_num P (- 1) h = (STATUS_SUCCESS, w, es1 @ h)"
      "registry_after R0 (es1 @ h) = ?R"
      using port_number_read(1) [OF assms(2), of "- 1" h] Some by auto
    have "value_or ?R Driver_key ?nm (- 1) = w" using Some by (simp add: value_or_def)
    with es1 show ?thesis by (intro exI [of _ es1]) (simp add: fscc_port_new_def)
  qed
  then obtain es1 where es1: "fscc_port_new P d inst h = (let (port, h3) = create_device P d
      (value_or ?R Driver_key ?nm (- 1)) inst (es1 @ h) in (port, inst + 1, h3))"
    "registry_after R0 (es1 @ h) = ?R \<or> registry_after R0 (es1 @ h) = store_value Driver_key ?nm (- 1) ?R" by blast
  let ?n = "number_for ?R d (value_or ?R Driver_key ?nm (- 1))"
  have n: "number_for (registry_after R0 (es1 @ h)) d l = number_for ?R d l" for l
    using es1(2) by (auto simp: number_for_def value_or_def store_value_def)
  have store: "store_value Driver_key ?nm ?n (store_value (Device_key d) ''PortNumber'' ?n (registry_after R0 (es1 @ h))) =
      store_value Driver_key ?nm ?n (store_value (Device_key d) ''PortNumber'' ?n ?R)"
    using es1(2) by (auto simp: store_value_def fun_eq_iff)
  from create_device_works [OF assms, of d "value_or ?R Driver_key ?nm (- 1)" "es1 @ h", unfolded n store]
  obtain es where "create_device P d (value_or ?R Driver_key ?nm (- 1)) inst (es1 @ h) =
      (Some (new_port (es @ es1 @ h)), es @ es1 @ h)"
    "registry_after R0 (es @ es1 @ h) = store_value Driver_key ?nm ?n (store_value (Device_key d) ''PortNumber'' ?n ?R)"
    "succeeded (Create_symbolic_link (dos_name ?n)) \<in> set es" by blast
  with es1(1) show ?thesis by (intro exI [of _ "es @ es1"]) simp
qed

text \<open>The numbers in a registry run up to the last one given.\<close>

definition numbers_in_order :: "registry \<Rightarrow> bool" where
  "numbers_in_order R \<longleftrightarrow> (\<forall>d v. R (Device_key d) ''PortNumber'' = Some v \<longrightarrow>
     sint v \<le> sint (value_or R Driver_key ''LastPortNumber'' (- 1)))"

text \<open>Property C30. A device that never had a port number gets one no other device has. With a
  registry that works, while every other call of the framework succeeds, the numbers stored run up to the last one
  given, that one is below \<open>2 ^ 31 - 1\<close>, and the instance number has at most 8 characters, the new
  device is created, gets the next number, is linked under a name no other device's number has, and
  the numbers still run up to the last one given. (The last number is also replaced when a
  device with a stored number comes back, so the hypothesis does not survive that: lemma
  \<open>number_given_twice\<close>.)\<close>

theorem new_port_number_unused:
  assumes "calls_succeed P" "registry_works P R0" "length (print_int inst) \<le> 8"
    and "numbers_in_order (registry_after R0 h)" "registry_after R0 h (Device_key d) ''PortNumber'' = None"
    and "sint (value_or (registry_after R0 h) Driver_key ''LastPortNumber'' (- 1)) < 2 ^ 31 - 1"
  shows "case fscc_port_new P d inst h of (port, inst', h') \<Rightarrow>
    port = Some (new_port h') \<and> inst' = inst + 1 \<and>
    (\<exists>v. registry_after R0 h' (Device_key d) ''PortNumber'' = Some v \<and>
       v = value_or (registry_after R0 h) Driver_key ''LastPortNumber'' (- 1) + 1 \<and>
       succeeded (Create_symbolic_link (dos_name v)) \<in> set h' \<and>
       (\<forall>d' v'. d' \<noteq> d \<longrightarrow> registry_after R0 h' (Device_key d') ''PortNumber'' = Some v' \<longrightarrow>
          v' \<noteq> v \<and> dos_name v' \<noteq> dos_name v)) \<and>
    numbers_in_order (registry_after R0 h')"
proof -
  let ?R = "registry_after R0 h"
  let ?last = "value_or ?R Driver_key ''LastPortNumber'' (- 1)"
  let ?n = "?last + 1"
  have n: "number_for ?R d ?last = ?n" using assms(5) by (simp add: number_for_def value_or_def)
  obtain es where es: "fscc_port_new P d inst h = (Some (new_port (es @ h)), inst + 1, es @ h)"
    "registry_after R0 (es @ h) = store_value Driver_key ''LastPortNumber'' ?n (store_value (Device_key d) ''PortNumber'' ?n ?R)"
    "succeeded (Create_symbolic_link (dos_name ?n)) \<in> set es"
    using port_new_works [OF assms(1-3), of d h, unfolded n] by blast
  have sn: "sint ?n = sint ?last + 1"
    using assms(6) sint_ge [of ?last] by (simp add: sint_word_ariths(1) signed_take_bit_int_eq_self)
  have other: "sint v' \<le> sint ?last" if "?R (Device_key d') ''PortNumber'' = Some v'" for d' v'
    using assms(4) that by (auto simp: numbers_in_order_def)
  have differ: "v' \<noteq> ?n \<and> dos_name v' \<noteq> dos_name ?n"
    if "d' \<noteq> d" "registry_after R0 (es @ h) (Device_key d') ''PortNumber'' = Some v'" for d' v'
    using that other [of d' v'] sn by (auto simp: es(2) store_value_apply dos_name_inj)
  have order: "numbers_in_order (registry_after R0 (es @ h))"
    unfolding numbers_in_order_def es(2) using other sn
    by (auto simp: store_value_apply value_or_def split: if_splits) (smt (verit) option.simps(5))
  show ?thesis
    unfolding es(1) prod.case using es(2,3) differ order by (auto simp: store_value_apply)
qed

definition two_ports :: registry where
  "two_ports = (\<lambda>key key_str.
     if key = Driver_key \<and> key_str = ''LastPortNumber'' then Some 1
     else if key = Device_key 1 \<and> key_str = ''PortNumber'' then Some 0
     else if key = Device_key 2 \<and> key_str = ''PortNumber'' then Some 1 else None)"

lemma platform_over_calls: "calls_succeed (platform_over R)"
  by (simp add: calls_succeed_def platform_over_def split: framework_call.splits)

lemma new_port_number_unused_witness:
  "case fscc_port_new (platform_over two_ports) 3 2 [] of (port, inst', h') \<Rightarrow>
    port = Some (new_port h') \<and> inst' = 2 + 1 \<and>
    (\<exists>v. registry_after two_ports h' (Device_key 3) ''PortNumber'' = Some v \<and>
       v = value_or (registry_after two_ports []) Driver_key ''LastPortNumber'' (- 1) + 1 \<and>
       succeeded (Create_symbolic_link (dos_name v)) \<in> set h' \<and>
       (\<forall>d' v'. d' \<noteq> 3 \<longrightarrow> registry_after two_ports h' (Device_key d') ''PortNumber'' = Some v' \<longrightarrow>
          v' \<noteq> v \<and> dos_name v' \<noteq> dos_name v)) \<and>
    numbers_in_order (registry_after two_ports h')"
  by (rule new_port_number_unused [OF platform_over_calls platform_over_works])
    (simp_all add: two_ports_def numbers_in_order_def value_or_def print_int_def decimal.simps)

text \<open>When a device with a stored number is started again, its number becomes the last one
  given: with ports 0 and 1 stored, starting port 0 again and then adding a new device gives
  the new device the number 1 a second time, and the name of port 1.\<close>

lemma number_given_twice:
  assumes "fscc_port_new (platform_over two_ports) 1 0 [] = (port1, i1, h1)"
    and "fscc_port_new (platform_over two_ports) 3 i1 h1 = (port3, i3, h3)"
  shows "registry_after two_ports h3 (Device_key 3) ''PortNumber'' = Some 1"
    "registry_after two_ports h3 (Device_key 2) ''PortNumber'' = Some 1"
    "succeeded (Create_symbolic_link (dos_name 1)) \<in> set h3"
proof -
  note works = port_new_works [OF platform_over_calls platform_over_works]
  have R: "registry_after two_ports [] = two_ports" by simp
  have short: "length (print_int 0) \<le> 8" "length (print_int 1) \<le> 8"
    by (simp_all add: print_int_def decimal.simps)
  have n1: "number_for two_ports 1 (value_or two_ports Driver_key ''LastPortNumber'' (- 1)) = 0"
    by (simp add: number_for_def value_or_def two_ports_def)
  from works [OF short(1), of two_ports 1 "[]", unfolded R n1] assms(1) have i1: "i1 = 1"
    and R1: "registry_after two_ports h1 = store_value Driver_key ''LastPortNumber'' 0
      (store_value (Device_key 1) ''PortNumber'' 0 two_ports)" by auto
  have n3: "number_for (registry_after two_ports h1) 3
      (value_or (registry_after two_ports h1) Driver_key ''LastPortNumber'' (- 1)) = 1"
    unfolding R1 by (simp add: number_for_def value_or_def store_value_apply two_ports_def)
  from works [OF short(2), of two_ports 3 h1, unfolded n3] assms(2) i1
  have R3: "registry_after two_ports h3 = store_value Driver_key ''LastPortNumber'' 1
      (store_value (Device_key 3) ''PortNumber'' 1 (registry_after two_ports h1))"
    and "succeeded (Create_symbolic_link (dos_name 1)) \<in> set h3" by auto
  then show "registry_after two_ports h3 (Device_key 3) ''PortNumber'' = Some 1"
    "registry_after two_ports h3 (Device_key 2) ''PortNumber'' = Some 1"
    "succeeded (Create_symbolic_link (dos_name 1)) \<in> set h3"
    unfolding R3 R1 by (simp_all add: store_value_apply two_ports_def)
qed

section \<open>Errors while a device is created\<close>

text \<open>Histories that grow by calls to the registry only.\<close>

fun registry_call :: "event \<Rightarrow> bool" where
  "registry_call (Framework (Open_registry_key key) st) = True"
| "registry_call (Framework (Query_ulong key key_str) st) = True"
| "registry_call (Framework (Assign_ulong key key_str v) st) = True"
| "registry_call (Framework (Registry_close key) st) = True"
| "registry_call (Framework (Assign_friendly_name nm) st) = True"
| "registry_call _ = False"

definition extends :: "history \<Rightarrow> history \<Rightarrow> bool" where
  "extends h h' \<longleftrightarrow> (\<exists>es. h' = es @ h \<and> list_all registry_call es)"

lemma extends_simps [simp]:
  "extends h h" "extends h h' \<Longrightarrow> registry_call e \<Longrightarrow> extends h (e # h')"
  unfolding extends_def by (auto intro: exI [of _ "[]"])

lemma extends_trans [trans]: "extends h h' \<Longrightarrow> extends h' h'' \<Longrightarrow> extends h h''"
  unfolding extends_def by (metis append.assoc list_all_append)

lemma registry_extends:
  "extends h (snd (snd (fscc_driver_get_last_port_num P v h)))"
  "extends h (snd (snd (fscc_port_get_port_num P d w h)))"
  "extends h (snd (fscc_driver_set_last_port_num P v h))"
  "extends h (snd (fscc_port_set_port_num P d w h))"
  "extends h (snd (fscc_port_set_friendly_name P w h))"
  by (simp_all add: fscc_driver_get_last_port_num_def fscc_port_get_port_num_def
      fscc_driver_set_last_port_num_def fscc_port_set_port_num_def fscc_port_set_friendly_name_def
      WdfRegistryQueryULong_def framework_def logged_def Let_def)

text \<open>What numbering a port leaves: everything done, or the device deleted.\<close>

definition numbered_or_deleted :: "device \<Rightarrow> history \<Rightarrow> driver option \<times> history \<Rightarrow> bool" where
  "numbered_or_deleted d h r \<longleftrightarrow> (case r of
     (Some s, h') \<Rightarrow> s = new_port h' \<and>
       (\<exists>v h1. extends h h1 \<and> h' = rev (map succeeded (link_locks_and_dpcs (dos_name v))) @ h1)
   | (None, h') \<Rightarrow> h' \<noteq> [] \<and> hd h' = succeeded (Device_delete d))"

lemma numbered_deleted [simp]: "numbered_or_deleted d h (None, logged (Device_delete d) h')"
  by (simp add: numbered_or_deleted_def logged_def)

lemma port_number_extends: "extends h (snd (snd (port_number P d lst h)))"
proof -
  obtain st n h1 where 1: "fscc_port_get_port_num P d 0 h = (st, n, h1)" by (cases "fscc_port_get_port_num P d 0 h")
  have "extends h h1" using registry_extends(2) [of h P d 0] by (simp add: 1)
  then show ?thesis
    using extends_trans [OF _ registry_extends(4)] by (simp add: port_number_def 1 Let_def split_beta)
qed

lemma number_port_result: "numbered_or_deleted d h (number_port P d lst h)"
proof -
  obtain st n h2 where 2: "port_number P d lst h = (st, n, h2)" by (cases "port_number P d lst h")
  obtain st3 h3 where 3: "fscc_port_set_friendly_name P n h2 = (st3, h3)" by fastforce
  obtain st4 h4 where 4: "fscc_driver_set_last_port_num P n h3 = (st4, h4)" by fastforce
  have "extends h h2" using port_number_extends [of h P d lst] by (simp add: 2)
  also note registry_extends(5) [of h2 P n, unfolded 3 snd_conv]
  also note registry_extends(3) [of h3 P n, unfolded 4 snd_conv]
  finally have ext: "extends h h4" .
  obtain ok h5 where 5: "in_order P [Device_delete d] (link_locks_and_dpcs (dos_name n)) h4 = (ok, h5)" by fastforce
  have fin: "numbered_or_deleted d h (if \<not> ok then (None, h5) else (Some (new_port h5), h5))"
    using in_order_result [of P "[Device_delete d]" "link_locks_and_dpcs (dos_name n)" h4] ext
    by (auto simp: 5 numbered_or_deleted_def)
  show ?thesis
    using fin unfolding number_port_def dos_name_def [symmetric] by (simp add: 2 3 4 5 Let_def)
qed

lemma in_order_ok: "in_order P cleanup cs h = (ok, h') \<Longrightarrow> ok \<Longrightarrow> h' = rev (map succeeded cs) @ h"
  using in_order_result [of P cleanup cs h] by auto

lemma in_order_failed:
  "in_order P cleanup cs h = (ok, h') \<Longrightarrow> \<not> ok \<Longrightarrow> \<exists>es. h' = rev (map succeeded cleanup) @ es @ h \<and>
     list_all (\<lambda>e. \<exists>c\<in>set cs. \<exists>st. e = Framework c st) es"
  using in_order_result [of P cleanup cs h] by (fastforce simp: list_all_iff)

text \<open>Every call that creates a part of the device, in order.\<close>

definition creation_calls :: "device \<Rightarrow> string \<Rightarrow> framework_call list" where
  "creation_calls d nm =
     [Init_assign_name nm, Init_assign_sddl, Device_create d] @ interrupt_and_queues @ [Create_interface]"

lemma create_device_result:
  "case create_device P d lst inst h of
     (Some s, h') \<Rightarrow> s = new_port h' \<and> (\<exists>v nm h1. extends (rev (map succeeded (creation_calls d nm)) @ h) h1 \<and>
       h' = rev (map succeeded (link_locks_and_dpcs (dos_name v))) @ h1)
   | (None, h') \<Rightarrow> (\<exists>es. h' = es @ h \<and> (\<forall>st. Framework Create_interface st \<notin> set es)) \<or>
       hd h' = succeeded (Device_delete d)"
proof -
  let ?name = "[CHR 0x5C] @ ''Device'' @ [CHR 0x5C] @ ''FSCC'' @ print_int inst"
  let ?two = "[Init_assign_name ?name, Init_assign_sddl]" and ?all = "Device_create d # interrupt_and_queues"
  obtain ok1 h1 where r1: "in_order P [Init_free] ?two h = (ok1, h1)" by fastforce
  obtain ok2 h2 where r2: "in_order P [] ?all h1 = (ok2, h2)" by fastforce
  obtain ok3 h3 where r3: "in_order P [Device_delete d] [Create_interface] h2 = (ok3, h3)" by fastforce
  have run: "create_device P d lst inst h = (if length ?name > 20 then (None, h) else if \<not> ok1 then (None, h1)
      else if \<not> ok2 then (None, h2) else if \<not> ok3 then (None, h3) else number_port P d lst h3)"
    unfolding create_device_def Let_def r1 prod.case r2 r3 by (simp split: prod.splits)
  have no_interface: "Create_interface \<notin> set interrupt_and_queues" by (simp add: interrupt_and_queues_def)
  consider "length ?name > 20" | "\<not> length ?name > 20" "\<not> ok1" | "\<not> length ?name > 20" "ok1" "\<not> ok2"
    | "\<not> length ?name > 20" "ok1" "ok2" "\<not> ok3" | "\<not> length ?name > 20" "ok1" "ok2" "ok3" by blast
  then show ?thesis
  proof cases
    case 1
    then show ?thesis by (auto simp: run intro: exI [of _ "[]"])
  next
    case 2
    then obtain es where "h1 = [succeeded Init_free] @ es @ h"
      "list_all (\<lambda>e. \<exists>c\<in>set ?two. \<exists>st. e = Framework c st) es"
      using in_order_failed [OF r1] by auto
    with 2 show ?thesis
      by (auto simp: run list_all_iff intro!: exI [of _ "succeeded Init_free # es"])
  next
    case 3
    then have h1: "h1 = rev (map succeeded ?two) @ h" using in_order_ok [OF r1] by blast
    from 3 obtain es where "h2 = es @ h1" "list_all (\<lambda>e. \<exists>c\<in>set ?all. \<exists>st. e = Framework c st) es"
      using in_order_failed [OF r2] by auto
    with 3 h1 no_interface show ?thesis
      by (auto simp: run list_all_iff intro!: exI [of _ "es @ rev (map succeeded ?two)"])
  next
    case 4
    then show ?thesis
      using in_order_failed [OF r3] by (auto simp: run)
  next
    case 5
    then have "h1 = rev (map succeeded ?two) @ h" "h2 = rev (map succeeded ?all) @ h1"
      "h3 = rev (map succeeded [Create_interface]) @ h2"
      using in_order_ok [OF r1] in_order_ok [OF r2] in_order_ok [OF r3] by blast+
    then have h3: "h3 = rev (map succeeded (creation_calls d ?name)) @ h" by (simp add: creation_calls_def)
    obtain port h' where np: "number_port P d lst h3 = (port, h')" by fastforce
    with 5 have dev: "create_device P d lst inst h = (port, h')" by (simp add: run)
    note res = number_port_result [of d h3 P lst, unfolded np numbered_or_deleted_def prod.case]
    show ?thesis
    proof (cases port)
      case None
      with res dev show ?thesis by simp
    next
      case (Some s)
      with res dev show ?thesis unfolding h3 by fastforce
    qed
  qed
qed

lemma extends_keeps:
  assumes "extends h h1"
  shows "\<exists>es. h1 = es @ h \<and> (\<forall>st. Framework Create_interface st \<notin> set es)"
proof -
  obtain es where "h1 = es @ h" "list_all registry_call es" using assms by (auto simp: extends_def)
  moreover from this have "Framework Create_interface st \<notin> set es" for st
    by (auto simp: list_all_iff)
  ultimately show ?thesis by blast
qed

definition parts_made :: "device \<Rightarrow> string \<Rightarrow> u32 \<Rightarrow> history \<Rightarrow> bool" where
  "parts_made d nm v h \<longleftrightarrow> succeeded (Device_create d) \<in> set h \<and> succeeded Interrupt_create \<in> set h \<and>
     (\<forall>q. succeeded (Queue_create q) \<in> set h) \<and>
     (\<forall>q\<in>{ioctl_queue, write_queue, read_queue}. succeeded (Configure_dispatching q) \<in> set h) \<and>
     succeeded Create_interface \<in> set h \<and> succeeded (Create_symbolic_link (dos_name v)) \<in> set h \<and>
     (\<forall>l. succeeded (Spinlock_create l) \<in> set h) \<and> (\<forall>c. succeeded (Dpc_create c) \<in> set h)"

lemma parts_made_calls:
  assumes "extends (rev (map succeeded (creation_calls d nm)) @ h) h1"
  shows "parts_made d nm v (rev (map succeeded (link_locks_and_dpcs (dos_name v))) @ h1)"
proof -
  obtain es where h1: "h1 = es @ rev (map succeeded (creation_calls d nm)) @ h"
    using assms by (auto simp: extends_def)
  have queue: "Queue_create q \<in> set (creation_calls d nm)" for q
    by (cases q) (simp_all add: creation_calls_def interrupt_and_queues_def)
  have lock: "Spinlock_create l \<in> set (link_locks_and_dpcs (dos_name v))" for l
    by (cases l) (simp_all add: link_locks_and_dpcs_def)
  have dpc: "Dpc_create c \<in> set (link_locks_and_dpcs (dos_name v))" for c
    by (cases c) (simp_all add: link_locks_and_dpcs_def)
  show ?thesis
    using queue lock dpc unfolding parts_made_def h1
    by (auto simp: creation_calls_def interrupt_and_queues_def link_locks_and_dpcs_def)
qed

lemma port_new_result:
  "case fscc_port_new P d inst h of
     (Some s, inst', h') \<Rightarrow> s = new_port h' \<and> inst' = inst + 1 \<and> (\<exists>nm v. parts_made d nm v h')
   | (None, inst', h') \<Rightarrow> (\<exists>es. h' = es @ h \<and> (\<forall>st. Framework Create_interface st \<notin> set es)) \<or>
       hd h' = succeeded (Device_delete d)"
proof -
  obtain st l h1 where get: "fscc_driver_get_last_port_num P (- 1) h = (st, l, h1)"
    by (cases "fscc_driver_get_last_port_num P (- 1) h")
  obtain st2 h2 where set: "fscc_driver_set_last_port_num P (- 1) h1 = (st2, h2)" by fastforce
  have e1: "extends h h1" using registry_extends(1) [of h P "- 1"] by (simp add: get)
  have e2: "extends h h2" using extends_trans [OF e1 registry_extends(3) [of h1 P "- 1"]] by (simp add: set)
  obtain h3 l3 where run: "extends h h3" "fscc_port_new P d inst h = (None, inst, h3) \<or>
      fscc_port_new P d inst h = (let (port, h4) = create_device P d l3 inst h3 in (port, inst + 1, h4))"
    using e1 e2 by (cases "st = STATUS_OBJECT_NAME_NOT_FOUND"; cases "NT_SUCCESS st2"; cases "NT_SUCCESS st")
      (auto simp: fscc_port_new_def get set)
  from extends_keeps [OF run(1)] obtain es where es: "h3 = es @ h" "\<And>st. Framework Create_interface st \<notin> set es"
    by blast
  obtain port h4 where dev: "create_device P d l3 inst h3 = (port, h4)" by fastforce
  from run(2) show ?thesis
  proof
    assume "fscc_port_new P d inst h = (None, inst, h3)"
    then show ?thesis using es by auto
  next
    assume "fscc_port_new P d inst h = (let (port, h4) = create_device P d l3 inst h3 in (port, inst + 1, h4))"
    then have new: "fscc_port_new P d inst h = (port, inst + 1, h4)" by (simp add: dev)
    note res = create_device_result [where P = P and d = d and lst = l3 and inst = inst and h = h3, unfolded dev prod.case]
    show ?thesis
    proof (cases port)
      case None
      with res consider es' where "h4 = es' @ h3" "\<And>st. Framework Create_interface st \<notin> set es'"
        | "hd h4 = succeeded (Device_delete d)" by auto
      then show ?thesis
      proof cases
        case (1 es')
        with None es new show ?thesis by (auto intro!: exI [of _ "es' @ es"])
      qed (simp add: new None)
    next
      case (Some s)
      with res new parts_made_calls show ?thesis by fastforce
    qed
  qed
qed

text \<open>Property C40. Adding a device makes it whole or reports an error. With success there is a
  cleared port, and the device object, the interrupt, every queue, the three dispatch rules,
  the interface, the link, every spin lock and every deferred routine have been created. With
  an error there is no port, and if the interface was already announced, the last thing done
  is deleting the device.\<close>

theorem device_whole_or_refused:
  "case FSCCEvtDeviceAdd P d inst h of
     (st, None, inst', h') \<Rightarrow> st = STATUS_INTERNAL_ERROR \<and>
       ((\<exists>es. h' = es @ h \<and> (\<forall>st. Framework Create_interface st \<notin> set es)) \<or> hd h' = succeeded (Device_delete d))
   | (st, Some s, inst', h') \<Rightarrow> st = STATUS_SUCCESS \<and> s = new_port h' \<and> inst' = inst + 1 \<and>
       (\<exists>nm v. parts_made d nm v h')"
  using port_new_result [where P = P and d = d and inst = inst and h = h]
  by (auto simp: FSCCEvtDeviceAdd_def split: prod.splits option.splits)

end
