(* ===== verification/Fscc_Engine.thy ===== *)
theory Fscc_Engine
  imports Fscc_Memory
begin

text \<open>
  The DMA engine of the card. It is hardware, and what it does to the descriptors is input of
  the model: which descriptor it finishes, with which control word and data. The driver relies
  on this much of it (\<open>defines.h\<close>, \<open>io.c\<close>): it takes the descriptors of a ring in their
  order, fills a receive descriptor before it sets \<open>DESC_CSTOP_BIT\<close> there, sets that bit in a
  transmit descriptor when it has sent it, and leaves the sizes of the buffers alone. The FIFO
  cursors of the port do not move with it.
\<close>

section \<open>Receiving\<close>

definition engine_rx_desc :: "driver \<Rightarrow> u32" where
  "engine_rx_desc s = of_nat ((unat (user_rx_desc s) + length (rx_queue s)) mod unat (rx_num (memory s)))"

definition dma_receives :: "dma_frame \<Rightarrow> driver \<Rightarrow> driver" where
  "dma_receives f s = s\<lparr>rx_descriptors := put_frame (rx_descriptors s) (engine_rx_desc s) f\<rparr>"

text \<open>A finished descriptor: what the engine may change, and what it may not.\<close>

definition received_into :: "dma_frame \<Rightarrow> dma_frame \<Rightarrow> bool" where
  "received_into g f \<longleftrightarrow> rx_done f \<and> rx_count_ok f \<and> data_size f = data_size g \<and>
     length (buffer f) = length (buffer g) \<and> desc_physical_address f = desc_physical_address g"

definition may_receive :: "dma_frame \<Rightarrow> driver \<Rightarrow> bool" where
  "may_receive f s \<longleftrightarrow> fscc_port_uses_dma s \<noteq> 0 \<and> (case rx_free s of [] \<Rightarrow> False | g # _ \<Rightarrow> received_into g f)"

lemma unat_of_mod: "0 < n \<Longrightarrow> n \<le> unat (w :: u32) \<Longrightarrow> unat (of_nat (k mod n) :: u32) = k mod n"
proof -
  assume "0 < n" "n \<le> unat w"
  then have "k mod n < unat w" by (meson less_le_trans mod_less_divisor)
  also have "\<dots> < 2 ^ LENGTH(32)" by (rule unsigned_less)
  finally show ?thesis by (simp add: unsigned_of_nat take_bit_nat_eq_self)
qed

lemma dma_receives_state:
  assumes "rx_state fifo s D (g # C)" "received_into g f"
  shows "rx_state False (dma_receives f s) (D @ [f]) C"
proof -
  have ring: "ring_at (rx_descriptors s) (rx_num (memory s)) (user_rx_desc s)"
    and view: "view_from (rx_descriptors s) (user_rx_desc s) = D @ g # C"
    and k: "length D < unat (rx_num (memory s))" and queue: "rx_queue s = D"
    using assms(1) rx_state_num [OF assms(1)] rx_state_queue(1) [OF assms(1)] by (simp_all add: rx_state_def rx_view_def)
  have "unat (engine_rx_desc s) = (unat (user_rx_desc s) + length D) mod unat (rx_num (memory s))"
    using k unfolding engine_rx_desc_def queue by (intro unat_of_mod [of _ "rx_num (memory s)"]) simp_all
  note put = view_from_put(1,2) [OF ring this k, of f]
  have "frame_ok f" using assms by (simp add: rx_state_def frame_ok_def received_into_def)
  with assms put view rx_free_ok_tail [of g C] show ?thesis
    by (simp add: rx_state_def rx_view_def dma_receives_def received_into_def)
qed

section \<open>Transmitting\<close>

definition engine_tx_desc :: "driver \<Rightarrow> u32" where
  "engine_tx_desc s = of_nat ((unat (user_tx_desc s) + length (tx_free s)) mod unat (tx_num (memory s)))"

definition dma_sends :: "u32 \<Rightarrow> driver \<Rightarrow> driver" where
  "dma_sends ctl s = s\<lparr>tx_descriptors := put_frame (tx_descriptors s) (engine_tx_desc s)
     (set_control ctl (hd (tx_queue s)))\<rparr>"

definition may_send :: "u32 \<Rightarrow> driver \<Rightarrow> bool" where
  "may_send ctl s \<longleftrightarrow> fscc_port_uses_dma s \<noteq> 0 \<and> tx_queue s \<noteq> [] \<and> ctl AND DESC_CSTOP_BIT = DESC_CSTOP_BIT"

lemma dma_sends_state:
  assumes "tx_state fifo s (f # P) F" "ctl AND DESC_CSTOP_BIT = DESC_CSTOP_BIT"
  shows "tx_state False (dma_sends ctl s) P (F @ [set_control ctl f])"
proof -
  have ring: "ring_at (tx_descriptors s) (tx_num (memory s)) (user_tx_desc s)"
    and view: "view_from (tx_descriptors s) (user_tx_desc s) = F @ f # P"
    and k: "length F < unat (tx_num (memory s))" and queue: "tx_queue s = f # P" "tx_free s = F"
    using assms(1) tx_state_num [OF assms(1)] tx_state_queue [OF assms(1)] by (simp_all add: tx_state_def tx_view_def)
  have "unat (engine_tx_desc s) = (unat (user_tx_desc s) + length F) mod unat (tx_num (memory s))"
    using k unfolding engine_tx_desc_def queue by (intro unat_of_mod [of _ "tx_num (memory s)"]) simp_all
  note put = view_from_put(1,2) [OF ring this k, of "set_control ctl f"]
  have "frame_ok (set_control ctl f)" "\<not> tx_filled (set_control ctl f)"
    using assms by (simp_all add: tx_state_def frame_ok_def tx_filled_def)
  with assms put view queue show ?thesis
    by (simp add: tx_state_def tx_view_def dma_sends_def)
qed

section \<open>Both rings\<close>

text \<open>What the driver relies on: with the FIFO the cursors are in step; with the DMA engine they
  need not be.\<close>

definition rings_ok :: "driver \<Rightarrow> bool" where
  "rings_ok s \<longleftrightarrow> 
     rx_ring_ok (fscc_port_uses_dma s = 0) s \<and> tx_ring_ok (fscc_port_uses_dma s = 0) s"

definition in_step :: "driver \<Rightarrow> bool" where
  "in_step s \<longleftrightarrow> rx_ring_ok True s \<and> tx_ring_ok True s"

lemma rings_okD:
  "rings_ok s \<Longrightarrow> rx_ring_ok False s" "rings_ok s \<Longrightarrow> tx_ring_ok False s"
  "rings_ok s \<Longrightarrow> fscc_port_uses_dma s = 0 \<Longrightarrow> in_step s"
  by (simp_all add: rings_ok_def in_step_def rx_ring_ok_def tx_ring_ok_def)

lemma in_step_ok: "in_step s \<Longrightarrow> rings_ok s"
  by (simp add: rings_ok_def in_step_def ring_in_step)

lemma rings_ok_kept:
  assumes "rings_kept s s'" "rings_ok s"
  shows "rings_ok s'"
proof -
  have "fscc_port_uses_dma s' = fscc_port_uses_dma s"
    using assms(1) by (intro same_engine_uses_dma) (simp add: rings_kept_def)
  with assms show ?thesis by (simp add: rings_ok_def rings_kept_def)
qed

lemma rings_ok_dma: "fscc_port_uses_dma s \<noteq> 0 \<Longrightarrow> rings_ok s = (rx_ring_ok False s \<and> tx_ring_ok False s)"
  by (simp add: rings_ok_def)

lemma in_step_kept: "rings_kept s s' \<Longrightarrow> in_step s \<Longrightarrow> in_step s'"
  by (simp add: in_step_def rings_kept_def)

lemma dma_receives_ok:
  assumes "rings_ok s" "may_receive f s"
  shows "rings_ok (dma_receives f s)" "rx_queue (dma_receives f s) = rx_queue s @ [f]"
    "tx_queue (dma_receives f s) = tx_queue s"
proof -
  obtain g C where g: "rx_free s = g # C" "received_into g f" "fscc_port_uses_dma s \<noteq> 0"
    using assms(2) by (auto simp: may_receive_def split: list.splits)
  from dma_receives_state [OF _ g(2)] rx_ring_ok_state [OF rings_okD(1) [OF assms(1)]] g(1)
  have "rx_state False (dma_receives f s) (rx_queue s @ [f]) C" by simp
  note rx = rx_state_queue [OF this]
  have "tx_ring_ok False (dma_receives f s) = tx_ring_ok False s"
    by (rule tx_ring_same) (simp_all add: dma_receives_def)
  moreover have "fscc_port_uses_dma (dma_receives f s) = fscc_port_uses_dma s"
    by (simp add: dma_receives_def fscc_port_uses_dma_def)
  ultimately show "rings_ok (dma_receives f s)"
    using rx(3) rings_okD(2) [OF assms(1)] g(3) by (simp add: rings_ok_dma)
  show "rx_queue (dma_receives f s) = rx_queue s @ [f]" by (rule rx(1))
  show "tx_queue (dma_receives f s) = tx_queue s" by (simp add: tx_queue_def tx_view_def dma_receives_def)
qed

lemma dma_sends_ok:
  assumes "rings_ok s" "may_send ctl s"
  shows "rings_ok (dma_sends ctl s)" "tx_queue (dma_sends ctl s) = tl (tx_queue s)"
    "rx_queue (dma_sends ctl s) = rx_queue s"
proof -
  obtain f P where f: "tx_queue s = f # P" "ctl AND DESC_CSTOP_BIT = DESC_CSTOP_BIT" "fscc_port_uses_dma s \<noteq> 0"
    using assms(2) by (cases "tx_queue s") (auto simp: may_send_def)
  from dma_sends_state [OF _ f(2)] tx_ring_ok_state [OF rings_okD(2) [OF assms(1)]] f(1)
  have "tx_state False (dma_sends ctl s) P (tx_free s @ [set_control ctl f])" by simp
  note tx = tx_state_queue [OF this]
  have "rx_ring_ok False (dma_sends ctl s) = rx_ring_ok False s"
    by (rule rx_ring_same) (simp_all add: dma_sends_def)
  moreover have "fscc_port_uses_dma (dma_sends ctl s) = fscc_port_uses_dma s"
    by (simp add: dma_sends_def fscc_port_uses_dma_def)
  ultimately show "rings_ok (dma_sends ctl s)"
    using tx(3) rings_okD(1) [OF assms(1)] f(3) by (simp add: rings_ok_dma)
  show "tx_queue (dma_sends ctl s) = tl (tx_queue s)" using tx(1) f(1) by simp
  show "rx_queue (dma_sends ctl s) = rx_queue s" by (simp add: rx_queue_def rx_view_def dma_sends_def)
qed

text \<open>The engine does leave the FIFO cursor behind. A switch to the FIFO keeps the cursors, so that
  the FIFO side would go on at a descriptor the user's side is not waiting for.\<close>

lemma engine_leaves_cursor:
  assumes "rx_ring_ok True s" "may_receive f s" "1 < unat (rx_num (memory s))"
  shows "\<not> in_step (dma_receives f s)"
proof
  assume "in_step (dma_receives f s)"
  then have "rx_ring_ok True (dma_receives f s)" by (simp add: in_step_def)
  moreover obtain g C where g: "rx_free s = g # C" "received_into g f"
    using assms(2) by (auto simp: may_receive_def split: list.splits)
  moreover have "rx_queue (dma_receives f s) = rx_queue s @ [f]"
    using rx_state_queue(1) [OF dma_receives_state [OF _ g(2)]] rx_ring_ok_state [OF assms(1)] g(1) by simp
  ultimately have "(unat (user_rx_desc s) + length (rx_queue s)) mod unat (rx_num (memory s)) =
      Suc (unat (user_rx_desc s) + length (rx_queue s)) mod unat (rx_num (memory s))"
    using assms(1) by (simp add: rx_ring_ok_def dma_receives_def)
  with assms(3) show False by (simp add: mod_Suc split: if_splits)
qed

end
