(* ===== verification/Fscc_Driver.thy ===== *)
theory Fscc_Driver
  imports Fscc_Requests Fscc_Device Fscc_Engine
begin

text \<open>
  A port in operation: the framework calls the handlers the driver registered for it
  (\<open>port.c\<close>) in any order, one at a time, as the spinlocks and the sequential queues of the
  code make it appear. With DMA the engine of the card takes its steps between them. A run is a
  sequence of such calls and steps from a given state; the theorems hold in every state a run
  reaches, whatever the card and the framework answer.
\<close>

section \<open>Handlers\<close>

datatype handler =
    Interrupt
  | Deferred dpc
  | Timer
  | Write request nat
  | Read request nat
  | Device_control request u32
  | File_create request
  | File_close
  | Engine_receives dma_frame
  | Engine_sends u32

text \<open>The routines the deferred procedure calls were created with.\<close>

fun deferred :: "env \<Rightarrow> dpc \<Rightarrow> driver \<Rightarrow> driver option" where
  "deferred E oframe_dpc s = oframe_worker E s"
| "deferred E iframe_dpc s = iframe_worker E s"
| "deferred E process_read_dpc s = FsccProcessRead E s"
| "deferred E isr_alert_dpc s = isr_alert_worker E s"
| "deferred E request_dpc s = request_worker E s"
| "deferred E alls_dpc s = alls_worker E s"
| "deferred E timestamp_dpc s = timestamp_worker E s"

fun handle :: "env \<Rightarrow> handler \<Rightarrow> driver \<Rightarrow> driver option" where
  "handle E Interrupt s = Some (snd (fscc_isr E s))"
| "handle E (Deferred d) s = deferred E d s"
| "handle E Timer s = Some (timer_handler s)"
| "handle E (Write req len) s = FsccEvtIoWrite E req len s"
| "handle E (Read req len) s = Some (FsccEvtIoRead E req len s)"
| "handle E (Device_control req code) s = FsccEvtIoDeviceControl E req code s"
| "handle E (File_create req) s = Some (FsccDeviceFileCreate E req s)"
| "handle E File_close s = Some (FsccFileClose E s)"
| "handle E (Engine_receives f) s = Some (dma_receives f s)"
| "handle E (Engine_sends ctl) s = Some (dma_sends ctl s)"

text \<open>The request a handler is passed.\<close>

fun arrival :: "handler \<Rightarrow> request list" where
  "arrival (Write req len) = [req]"
| "arrival (Read req len) = [req]"
| "arrival (Device_control req code) = [req]"
| "arrival (File_create req) = [req]"
| "arrival _ = []"

definition arrivals :: "handler list \<Rightarrow> request list" where
  "arrivals as = concat (map arrival as)"

lemma arrivals_simps [simp]: "arrivals [] = []" "arrivals (as @ bs) = arrivals as @ arrivals bs"
  "arrivals [a] = arrival a"
  by (simp_all add: arrivals_def)

text \<open>Writes are shorter than a descriptor can express; an empty write is never blocked. The engine
  moves only while DMA is in use. Nobody switches from DMA to the FIFO while the FIFO cursors are
  out of step, that is, after the engine has moved and before both sides were purged: the code
  does not bring the cursors up to date when it switches.\<close>

definition writable :: "nat \<Rightarrow> bool" where
  "writable len \<longleftrightarrow> 0 < len \<and> len < 2 ^ 29"

fun enabled :: "env \<Rightarrow> handler \<Rightarrow> driver \<Rightarrow> bool" where
  "enabled E (Write req len) s = (len = 0 \<or> writable len)"
| "enabled E (Deferred request_dpc) s =
     (case find_request E (events s) blocking_request_queue None of
        (st, req) \<Rightarrow> NT_SUCCESS st \<longrightarrow> writable (request_length E req))"
| "enabled E (Device_control req code) s =
     (ioctl_of code = Some FSCC_ENABLE_FORCE_FIFO \<and> fscc_port_uses_dma s \<noteq> 0 \<longrightarrow> in_step s)"
| "enabled E (Engine_receives f) s = may_receive f s"
| "enabled E (Engine_sends ctl) s = may_send ctl s"
| "enabled E a s = True"

inductive run :: "env \<Rightarrow> driver \<Rightarrow> handler list \<Rightarrow> driver \<Rightarrow> bool" for E s0 where
  run_start: "run E s0 [] s0"
| run_step: "run E s0 as s \<Longrightarrow> enabled E a s \<Longrightarrow> handle E a s = Some s' \<Longrightarrow> run E s0 (as @ [a]) s'"

inductive_cases run_snocE: "run E s0 (as @ [a]) s"

section \<open>One handler\<close>

text \<open>What a handler that was passed the requests \<open>rs\<close> does to the rings, to the allocated
  memory and to the ledger.\<close>

definition well_behaved :: "request list \<Rightarrow> driver \<Rightarrow> driver \<Rightarrow> bool" where
  "well_behaved rs s s' \<longleftrightarrow> rings_kept s s' \<and> grows s 0 0 s' \<and>
     ledger (events s') = ledger (events s) + mset rs"

text \<open>An operation that touches no request and keeps the rings.\<close>

definition harmless :: "driver \<Rightarrow> driver \<Rightarrow> bool" where
  "harmless s s' \<longleftrightarrow> rings_kept s s' \<and> (\<exists>es. events s' = rev es @ events s \<and> list_all quiet es)"

lemma harmless_trans [trans]: "harmless s t \<Longrightarrow> harmless t u \<Longrightarrow> harmless s u"
proof -
  assume st: "harmless s t" and tu: "harmless t u"
  then obtain es es' where "events t = rev es @ events s" "events u = rev es' @ events t"
    "list_all quiet es" "list_all quiet es'" by (auto simp: harmless_def)
  then have "events u = rev (es @ es') @ events s" "list_all quiet (es @ es')" by simp_all
  moreover have "rings_kept s u" using st tu by (auto simp: harmless_def intro: rings_kept_trans)
  ultimately show ?thesis unfolding harmless_def by blast
qed

lemma harmless_io_step: "io_step s t \<Longrightarrow> harmless s t"
  by (auto simp: harmless_def rings_kept_io_step dest: io_step_events)

lemma harmless_emits [simp]: "list_all quiet es \<Longrightarrow> harmless s (emits es s)" "harmless s s"
  by (auto simp: harmless_def intro: exI [of _ "[]"])

lemma harmless_same:
  assumes "rings_kept s t" "events t = events s"
  shows "harmless s t"
  using assms by (auto simp: harmless_def intro: exI [of _ "[]"])

lemma harmless_behaved: "harmless s s' \<Longrightarrow> well_behaved [] s s'"
  by (auto simp: harmless_def well_behaved_def ledger_all_quiet grows_def live_quiet)

lemma handled_behaved: "handled req s (Some s') \<Longrightarrow> well_behaved [req] s s'"
  by (auto simp: handled_def well_behaved_def ledger_answered grows_def answers_once_def)

lemma accounts_behaved: "accounts s s' \<Longrightarrow> well_behaved [] s s'"
  by (auto simp: accounts_def well_behaved_def grows_def)

lemma harmless_emit_dpc [simp]: "harmless s (emit (Dpc_enqueue d) s)" "harmless s (enqueue_if b d s)"
  by (simp_all add: emit_emits enqueue_if_eq)

lemma isr_harmless: "harmless s (snd (fscc_isr E s))"
proof -
  let ?v = "hw_reg E (port_card s) (events s) 0 (port_offset s 0 ISR_OFFSET)"
  let ?s1 = "emits [rd (port_card s) 0 (port_offset s 0 ISR_OFFSET) ?v] s"
  have read: "fscc_port_get_register E 0 ISR_OFFSET s = (?v, ?s1)" unfolding get_register_eq Let_def ..
  have r1: "harmless s ?s1" by simp
  have r2: "harmless ?s1 (?s1\<lparr>last_isr_value := w\<rparr>)" for w
    by (rule harmless_same) (simp_all add: rings_kept_same)
  have r3: "harmless t (enqueue_if b d (enqueue_if b' d' t))" for t b d b' d'
    by (rule harmless_trans [OF harmless_emit_dpc(2) harmless_emit_dpc(2)])
  have r4: "harmless t (emit (Dpc_enqueue d) (enqueue_if b d' t))" for t b d d'
    by (rule harmless_trans [OF harmless_emit_dpc(2) harmless_emit_dpc(1)])
  show ?thesis
    unfolding fscc_isr_def read split_conv Let_def
    using r1 harmless_trans [OF harmless_trans [OF r1 r2] harmless_trans [OF r3 r4]] by simp
qed

lemma timer_harmless: "harmless s (timer_handler s)"
  using harmless_trans [OF harmless_emit_dpc(1) harmless_emit_dpc(1)] by (simp add: timer_handler_def)

lemma iframe_harmless:
  assumes "rings_ok s"
  shows "\<exists>s'. iframe_worker E s = Some s' \<and> harmless s s'"
proof (cases "fscc_port_uses_dma s = 0")
  case True
  note in_step = rings_okD(3) [OF assms True, unfolded in_step_def]
  from fifo_read_loop_ok [OF rx_ring_ok_state [OF conjunct1 [OF in_step]], of E "unat (rx_num (memory s))"] obtain s' D C es where
    r: "fifo_read_loop E (unat (rx_num (memory s))) s = Some s'" "rx_state True s' D C" "fifo_rx_change s s'"
    "events s' = rev es @ events s" "list_all quiet es" by blast
  have "harmless s s'"
    using rings_kept_fifo_rx [OF r(3)] rx_state_queue(3) [OF r(2)] r(4,5) by (auto simp: harmless_def)
  from harmless_trans [OF this harmless_emit_dpc(1)] r(1) True show ?thesis
    by (simp add: iframe_worker_def fscc_fifo_read_data_def)
qed (simp add: iframe_worker_def)

lemma oframe_harmless:
  assumes "rings_ok s"
  shows "\<exists>s'. oframe_worker E s = Some s' \<and> harmless s s'"
proof (cases "fscc_port_uses_dma s = 0")
  case fifo: True
  note in_step = rings_okD(3) [OF assms fifo, unfolded in_step_def]
  have "\<exists>w s1. fscc_fifo_write_data E s = Some (w, s1) \<and> harmless s s1"
  proof (rule fifo_write_data_cases [OF tx_ring_ok_state [OF conjunct2 [OF in_step]], of E], goal_cases)
    case (1 es)
    then show ?case by auto
  next
    case (2 Q R s' tfc txc)
    have "rings_kept s s'" using rings_kept_tx_step [OF 2(7)] ring_in_step(2) [OF tx_state_queue(3) [OF 2(6)]] .
    with 2(1) tx_step_events [OF 2(7)] show ?case by (auto simp: harmless_def)
  qed
  then obtain w s1 where w: "fscc_fifo_write_data E s = Some (w, s1)" "harmless s s1" by blast
  have "harmless s1 (fscc_io_execute_transmit E False s1)"
    by (intro harmless_io_step) (simp add: execute_transmit_io_step)
  from harmless_trans [OF w(2) this] w fifo show ?thesis
    by (simp add: oframe_worker_def fscc_io_transmit_frame_def)
qed (simp add: oframe_worker_def)

lemma timestamp_harmless:
  assumes "rings_ok s"
  shows "\<exists>s'. timestamp_worker E s = Some s' \<and> harmless s s'"
proof -
  from apply_timestamps_keeps [OF ring_as_good(1) [OF rings_okD(1) [OF assms]], of E] obtain s' es where
    "fscc_dma_apply_timestamps E s = Some s'" "rx_ring_ok (rx_ring_ok True s) s'" "user_rx_change s s'" "events s' = rev es @ events s" "list_all quiet es" by blast
  then show ?thesis using rings_kept_user_rx by (auto simp: timestamp_worker_def harmless_def intro: exI [of _ "[]"])
qed

lemma file_close_harmless: "harmless s (FsccFileClose E s)"
proof -
  have count: "harmless s (s\<lparr>open_counter := c\<rparr>)" for c by (rule harmless_same) (simp_all add: rings_kept_same)
  have written: "harmless t (snd (fscc_port_set_register E 2 off v t))" for t off v by (simp add: harmless_io_step)
  have read: "harmless t (snd (fscc_port_get_register E 2 off t))" for t off
    by (simp add: get_register_eq Let_def)
  show ?thesis
    using harmless_trans [OF count harmless_trans [OF read written]] count
    by (simp add: FsccFileClose_def Let_def split_beta)
qed

lemma file_create_handled: "handled req s (Some (FsccDeviceFileCreate E req s))"
proof -
  have count: "harmless t (t\<lparr>open_counter := c\<rparr>)" for t c by (rule harmless_same) (simp_all add: rings_kept_same)
  have written: "harmless t (snd (fscc_port_set_register E 2 off v t))" for t off v by (simp add: harmless_io_step)
  have read: "harmless t (snd (fscc_port_get_register E 2 off t))" for t off
    by (simp add: get_register_eq Let_def)
  have async: "harmless s (snd (fscc_port_using_async E s))"
    by (simp add: fscc_port_using_async_def get_register_eq Let_def harmless_io_step io_stepI)
  have "\<exists>t st. FsccDeviceFileCreate E req s = complete req st 0 t \<and> harmless s t"
    using async harmless_trans [OF async count] harmless_trans [OF harmless_trans [OF async count] harmless_trans [OF read written]]
    by (auto simp: FsccDeviceFileCreate_def Let_def split_beta)
  then obtain t st es where t: "FsccDeviceFileCreate E req s = emits [Request_complete req st 0] t" "rings_kept s t"
    "events t = rev es @ events s" "list_all quiet es"
    by (auto simp: harmless_def complete_def emit_emits)
  have "answers_once req (es @ [Request_complete req st 0])"
    using answers_quiet [OF t(4)] only_about_quiet [OF t(4)] live_quiet [OF t(4)] by (simp add: answers_once_def)
  with t rings_kept_trans [OF t(2) rings_kept_emits(1)] show ?thesis
    by (auto simp: handled_def intro!: exI [of _ "es @ [Request_complete req st 0]"])
qed

section \<open>Every handler behaves\<close>

text \<open>What the handlers rely on: well-formed rings (\<open>rings_ok\<close>), an environment as documented.\<close>

definition works :: "env \<Rightarrow> bool" where
  "works E \<longleftrightarrow> inputs_as_asked E \<and> (\<forall>q. queue_works E q)"

lemma worksD: "works E \<Longrightarrow> inputs_as_asked E" "works E \<Longrightarrow> queue_works E q"
  by (simp_all add: works_def)

lemma request_worker_behaved:
  assumes "works E" "rings_ok s" "enabled E (Deferred request_dpc) s"
  shows "\<exists>s'. request_worker E s = Some s' \<and> well_behaved [] s s'"
proof -
  obtain st req where find: "find_request E (events s) blocking_request_queue None = (st, req)" by fastforce
  have "NT_SUCCESS st \<Longrightarrow> 0 < request_length E req \<and> request_length E req < 2 ^ 29"
    using assms(3) find by (simp add: writable_def)
  moreover have "tx_ring_ok (tx_ring_ok True s) s" using ring_as_good(2) [OF rings_okD(2) [OF assms(2)]] .
  ultimately obtain s' es where r: "request_worker E s = Some s'" "events s' = rev es @ events s" "rings_kept s s'"
    "found_run req st (retrieve_found E (Queue_find blocking_request_queue None st req # events s)
      blocking_request_queue req) es"
    using request_worker_result [OF tx_ring_ok_state worksD(1) [OF assms(1)] find refl] by blast
  with ledger_found_run [OF worksD(2) [OF assms(1)] refl r(4)] taking_live(2) [OF r(4)]
  show ?thesis by (simp add: well_behaved_def grows_def)
qed

lemma process_read_behaved:
  assumes "works E" "rings_ok s" "FsccProcessRead E s = Some s'"
  shows "well_behaved [] s s'"
proof -
  obtain st req where nxt: "retrieve_next E (events s) read_queue2 = (st, req)" by fastforce
  from process_read_left [OF rings_okD(1) [OF assms(2)] assms(3) nxt] have "rings_kept s s'"
    "s' = s \<or> (\<exists>es. events s' = rev es @ events s \<and> read_run st req es)" by simp_all
  then show ?thesis using ledger_read_run [OF worksD(2) [OF assms(1)] nxt]
    by (auto simp: well_behaved_def grows_def taking_live(1))
qed

lemma deferred_behaved:
  assumes "works E" "rings_ok s" "enabled E (Deferred d) s" "deferred E d s = Some s'"
  shows "well_behaved [] s s'"
proof (cases d)
  case oframe_dpc
  with oframe_harmless [OF assms(2), of E] assms(4) show ?thesis by (auto intro: harmless_behaved)
next
  case iframe_dpc
  with iframe_harmless [OF assms(2), of E] assms(4) show ?thesis by (auto intro: harmless_behaved)
next
  case isr_alert_dpc
  let ?t = "s\<lparr>last_isr_value := 0\<rparr>"
  from isr_alert_dpc assms(4) have "isr_alert_loop E (last_isr_value s) None ?t = Some s'"
    by (simp add: isr_alert_worker_def)
  from accounts_behaved [OF isr_alert_loop_accounts [OF this worksD(2) [OF assms(1)]]]
  have "well_behaved [] ?t s'" .
  moreover have "rings_kept s ?t" by (rule rings_kept_same) simp_all
  ultimately show ?thesis by (auto simp: well_behaved_def grows_def intro: rings_kept_trans)
next
  case request_dpc
  with request_worker_behaved [OF assms(1,2)] assms(3,4) show ?thesis by auto
next
  case process_read_dpc
  with process_read_behaved [OF assms(1,2)] assms(4) show ?thesis by simp
next
  case alls_dpc
  with assms(4) alls_loop_accounts [OF _ worksD(2) [OF assms(1)], of s s'] show ?thesis
    by (auto simp: alls_worker_def intro: accounts_behaved harmless_behaved split: if_splits)
next
  case timestamp_dpc
  with timestamp_harmless [OF assms(2), of E] assms(4) show ?thesis by (auto intro: harmless_behaved)
qed

fun engine_step :: "handler \<Rightarrow> bool" where
  "engine_step (Engine_receives f) = True"
| "engine_step (Engine_sends ctl) = True"
| "engine_step a = False"

text \<open>A request that chooses between FIFO and DMA behaves on the port with the new choice.\<close>

lemma chosen_sel [simp]: "memory (chosen s y) = memory s" "port_card (chosen s y) = port_card s"
  "rx_ring_ok fifo (chosen s y) = rx_ring_ok fifo s" "tx_ring_ok fifo (chosen s y) = tx_ring_ok fifo s"
  by (simp_all add: chosen_def rx_ring_same [of "s\<lparr>force_fifo := y\<rparr>" s] tx_ring_same [of "s\<lparr>force_fifo := y\<rparr>" s])

lemma chosen_ok:
  assumes "rings_ok s" "choice enables s y" "enables \<and> fscc_port_uses_dma s \<noteq> 0 \<longrightarrow> in_step s"
  shows "rings_ok (chosen s y)"
proof (cases "in_step s")
  case True
  then show ?thesis by (simp add: rings_ok_def in_step_def ring_in_step)
next
  case False
  then have dma: "fscc_port_uses_dma s \<noteq> 0" using rings_okD(3) [OF assms(1)] by blast
  then have "y = 0 \<and> force_fifo s = 0 \<and> has_dma s \<noteq> 0"
    using False assms(2,3) by (auto simp: choice_def fscc_port_uses_dma_def split: if_splits)
  then have "chosen s y = s" by (simp add: chosen_def)
  with assms(1) show ?thesis by simp
qed

lemma plain_behaved:
  assumes "works E" "rings_ok s" "enabled E a s" "handle E a s = Some s'" "\<not> engine_step a"
    and "\<And>req code. a \<noteq> Device_control req code"
  shows "well_behaved (arrival a) s s'"
proof (cases a)
  case Interrupt
  with isr_harmless [of s E] assms(4) show ?thesis by (auto intro: harmless_behaved)
next
  case (Deferred d)
  with deferred_behaved [OF assms(1,2), of d s'] assms(3,4) show ?thesis by simp
next
  case Timer
  with timer_harmless [of s] assms(4) show ?thesis by (auto intro: harmless_behaved)
next
  case (Write req len)
  then have "len < 2 ^ 29" using assms(3) by (auto simp: writable_def)
  from io_write_handled [OF rings_okD(2) [OF assms(2)] worksD(1) [OF assms(1)] this, of req] Write assms(4)
  show ?thesis by (auto intro!: handled_behaved)
next
  case (Read req len)
  with io_read_handled [of req s E len] assms(4) show ?thesis by (auto intro: handled_behaved)
next
  case (File_create req)
  with file_create_handled [of req s E] assms(4) show ?thesis by (auto intro: handled_behaved)
next
  case File_close
  with file_close_harmless [of s E] assms(4) show ?thesis by (auto intro: harmless_behaved)
qed (use assms(5,6) in simp_all)

lemma handler_behaved:
  assumes "works E" "rings_ok s" "enabled E a s" "handle E a s = Some s'" "\<not> engine_step a"
  shows "\<exists>y. well_behaved (arrival a) (chosen s y) s' \<and> rings_ok (chosen s y)"
proof (cases "\<exists>req code. a = Device_control req code")
  case True
  then obtain req code where a: "a = Device_control req code" by blast
  from device_control_handled [OF rings_exist_ok [OF rings_okD(1,2) [OF assms(2)]] worksD(1) [OF assms(1)], of req code]
    a assms(4) obtain y where "well_behaved (arrival a) (chosen s y) s'"
    "choice (ioctl_of code = Some FSCC_ENABLE_FORCE_FIFO) s y" by (auto dest: handled_behaved)
  with chosen_ok [OF assms(2)] assms(3) a show ?thesis by auto
next
  case False
  then have "well_behaved (arrival a) (chosen s (force_fifo s)) s'" using plain_behaved [OF assms] by simp
  with assms(2) show ?thesis by (metis chosen_same(1))
qed

text \<open>What holds of every step of a run, the engine's included.\<close>

definition settled :: "request list \<Rightarrow> driver \<Rightarrow> driver \<Rightarrow> bool" where
  "settled rs s s' \<longleftrightarrow> rings_ok s' \<and> memory s' = memory s \<and> port_card s' = port_card s \<and> grows s 0 0 s' \<and>
     ledger (events s') = ledger (events s) + mset rs"

lemma handle_settles:
  assumes "works E" "rings_ok s" "enabled E a s" "handle E a s = Some s'"
  shows "settled (arrival a) s s'"
proof (cases "engine_step a")
  case False
  from handler_behaved [OF assms False] obtain y where
    y: "well_behaved (arrival a) (chosen s y) s'" "rings_ok (chosen s y)" by blast
  then have "rings_ok s'" using rings_ok_kept [OF _ y(2)] by (simp add: well_behaved_def)
  with y show ?thesis by (simp add: settled_def well_behaved_def rings_kept_def grows_def)
next
  case True
  then show ?thesis using assms dma_receives_ok(1) [OF assms(2)] dma_sends_ok(1) [OF assms(2)]
    by (cases a) (auto simp: settled_def grows_def dma_receives_def dma_sends_def)
qed

text \<open>Only the engine brings a FIFO cursor out of step.\<close>

lemma handle_in_step:
  assumes "works E" "in_step s" "enabled E a s" "handle E a s = Some s'" "\<not> engine_step a"
  shows "in_step s'"
proof -
  from handler_behaved [OF assms(1) in_step_ok [OF assms(2)] assms(3-5)] obtain y where
    "rings_kept (chosen s y) s'" by (auto simp: well_behaved_def)
  from in_step_kept [OF this] assms(2) show ?thesis by (simp add: in_step_def)
qed

text \<open>When a handler returns: always, but for the read routine, which needs a queue it can read, and
  the alert routine, which needs every request to wait at most once.\<close>

fun returns_here :: "handler \<Rightarrow> driver \<Rightarrow> bool" where
  "returns_here (Deferred process_read_dpc) s = readable s"
| "returns_here a s = True"

lemma process_read_returns:
  assumes "rx_ring_ok fifo s" "readable s"
  shows "\<exists>s'. FsccProcessRead E s = Some s'"
proof -
  obtain ready n where scan: "fscc_user_next_read_size s = Some (ready, n)"
    using next_read_size_eq [OF rx_ring_ok_state [OF assms(1)]] by (metis prod.collapse)
  obtain st req where nxt: "retrieve_next E (events s) read_queue2 = (st, req)" by fastforce
  let ?s1 = "emit (Queue_retrieve read_queue2 st req) s" and ?len = "of_nat (request_length E req) :: u32"
  have "readable ?s1" "rx_ring_ok fifo ?s1"
    using assms by (simp_all add: emit_emits emits_ring)
  from read_outcome [OF this(2,1), of ?len E] obtain st2 out s2 where
    "(if fscc_io_is_streaming s \<noteq> 0 then fscc_user_read_stream ?len ?s1 else fscc_user_read_frame E ?len ?s1) =
      Some (st2, out, s2)" unfolding emit_emits streaming_emits by blast
  then show ?thesis by (simp add: FsccProcessRead_def scan nxt Let_def)
qed

lemma handle_returns:
  assumes "works E" "rings_ok s" "enabled E a s" "returns_here a s"
    and "distinct (queue_contents isr_queue (events s))"
  shows "\<exists>s'. handle E a s = Some s'"
proof (cases a)
  case (Deferred d)
  show ?thesis
  proof (cases d)
    case oframe_dpc
    with oframe_harmless [OF assms(2), of E] Deferred show ?thesis by auto
  next
    case iframe_dpc
    with iframe_harmless [OF assms(2), of E] Deferred show ?thesis by auto
  next
    case isr_alert_dpc
    from isr_alert_loop_returns [OF worksD(2) [OF assms(1)] worksD(1) [OF assms(1)],
        of "s\<lparr>last_isr_value := 0\<rparr>" "[]" "queue_contents isr_queue (events s)" None
        "length (queue_contents isr_queue (events s))" "last_isr_value s"] assms(5)
    show ?thesis by (simp add: Deferred isr_alert_dpc isr_alert_worker_def)
  next
    case request_dpc
    with request_worker_behaved [OF assms(1,2)] Deferred assms(3) show ?thesis by auto
  next
    case process_read_dpc
    with process_read_returns [OF rings_okD(1) [OF assms(2)]] Deferred assms(4) show ?thesis by simp
  next
    case alls_dpc
    from alls_loop_drains [OF worksD(2) [OF assms(1)] refl, of s]
    show ?thesis by (auto simp: Deferred alls_dpc alls_worker_def)
  next
    case timestamp_dpc
    with timestamp_harmless [OF assms(2), of E] Deferred show ?thesis by auto
  qed
next
  case (Write req len)
  then have "len < 2 ^ 29" using assms(3) by (auto simp: writable_def)
  with io_write_handled [OF rings_okD(2) [OF assms(2)] worksD(1) [OF assms(1)], of len req] Write
  show ?thesis by (auto simp: handled_def)
next
  case (Device_control req code)
  from device_control_handled [OF rings_exist_ok [OF rings_okD(1,2) [OF assms(2)]] worksD(1) [OF assms(1)], of req code]
    Device_control show ?thesis by (auto simp: handled_def)
qed simp_all

section \<open>Runs\<close>

lemma run_behaved:
  assumes "run E s0 as s" "works E" "rings_ok s0"
  shows "rings_ok s \<and> memory s = memory s0 \<and> port_card s = port_card s0 \<and> grows s0 0 0 s \<and>
    ledger (events s) = ledger (events s0) + mset (arrivals as)"
  using assms
proof (induction rule: run.induct)
  case (run_step as s a s')
  then have s: "rings_ok s" "memory s = memory s0" "port_card s = port_card s0" "grows s0 0 0 s" "ledger (events s) = ledger (events s0) + mset (arrivals as)"
    by simp_all
  from handle_settles [OF run_step.prems(1) s(1) run_step.hyps(2,3)] s show ?case
    by (simp add: settled_def grows_def)
qed (simp add: grows_def)

lemma distinct_part:
  assumes "mset xs \<subseteq># mset ys" "distinct ys"
  shows "distinct xs"
proof -
  obtain zs where "mset ys = mset (xs @ zs)"
    using assms(1) by (metis ex_mset mset_append mset_subset_eq_exists_conv)
  then have "distinct (xs @ zs)" using assms(2) by (metis mset_eq_imp_distinct_iff)
  then show ?thesis by simp
qed

lemma waiting_once:
  assumes "ledger h = mset rs" "distinct rs"
  shows "distinct (queue_contents q h)"
proof -
  have "mset (queue_contents q h) \<subseteq># pending h"
    unfolding pending_def by (subst sum.remove [of UNIV q]) simp_all
  also have "pending h \<subseteq># mset rs" unfolding assms(1) [symmetric] ledger_def by (simp add: add.assoc)
  finally have "mset (queue_contents q h) \<subseteq># mset rs" .
  from distinct_part [OF this assms(2)] show ?thesis .
qed

text \<open>Property C2. Every request that reaches the driver is accounted for: whatever sequence of
  handlers the framework runs, and whatever the card and the framework answer, each request
  that arrived was completed, waits in one of the driver's queues, or was given back by a
  purge, and only one of these; in particular none is completed twice, none is completed while
  it still waits, and none is lost. The framework's queues work as documented, and no request
  arrives twice.\<close>

theorem requests_answered_once:
  assumes "run E s0 as s" "works E" "rings_ok s0" "ledger (events s0) = {#}" "distinct (arrivals as)"
  shows "mset (completed (events s)) + pending (events s) + cancelled (events s) = mset (arrivals as) \<and>
    distinct (completed (events s)) \<and>
    (\<forall>r. r \<in># pending (events s) \<longrightarrow> r \<notin> set (completed (events s))) \<and>
    (\<forall>q. distinct (queue_contents q (events s)))"
proof -
  have l: "ledger (events s) = mset (arrivals as)" using run_behaved [OF assms(1-3)] assms(4) by simp
  then have sum: "mset (completed (events s)) + pending (events s) + cancelled (events s) = mset (arrivals as)"
    by (simp add: ledger_def ac_simps)
  then have part: "mset (completed (events s)) \<subseteq># mset (arrivals as)"
    by (metis add.assoc mset_subset_eq_add_left)
  have "r \<notin> set (completed (events s))" if r: "r \<in># pending (events s)" for r
  proof
    assume "r \<in> set (completed (events s))"
    then have "0 < count (mset (completed (events s))) r" by (metis count_greater_zero_iff set_mset_mset)
    moreover have "0 < count (pending (events s)) r" using r by simp
    moreover have "count (mset (arrivals as)) r \<le> 1" using assms(5) by (simp add: distinct_count_atmost_1)
    ultimately show False unfolding sum [symmetric] count_union by linarith
  qed
  with sum distinct_part [OF part assms(5)] waiting_once [OF l assms(5)] show ?thesis by blast
qed

text \<open>Property C1. A port in operation never faults: in every state that a sequence of handlers
  reaches from well-formed rings, with the FIFO or with the DMA engine taking its steps in
  between, both rings are well formed and have the frames they were created with, and every handler the framework may call next returns without an invalid
  memory access and without looping forever. Two handlers are restricted: the read routine runs on a
  readable port only (streaming, no whole frame waiting, or the frames the read is to deliver cut into
  descriptors as the driver cuts a frame of known size, one frame or, with rx_multiple, all of them),
  and a write of 2^29 bytes or more is not enabled. A port with DMA is switched to the FIFO only while
  the FIFO cursors are in step.\<close>

theorem driver_never_faults:
  assumes "run E s0 as s" "works E" "rings_ok s0" "ledger (events s0) = {#}" "distinct (arrivals as)"
  shows "rings_ok s \<and> memory s = memory s0 \<and>
    (\<forall>a. enabled E a s \<and> returns_here a s \<longrightarrow> handle E a s \<noteq> None)"
proof -
  note inv = run_behaved [OF assms(1-3)]
  have "distinct (queue_contents isr_queue (events s))"
    using inv assms(4) by (intro waiting_once [OF _ assms(5)]) simp
  then show ?thesis using inv handle_returns [OF assms(2)] by auto
qed

section \<open>On a concrete port\<close>

text \<open>A read that has to wait, a write, the feeding of the FIFO and an interrupt.\<close>

definition example_handlers :: "handler list" where
  "example_handlers = [Read 2 10, Write 3 6, Deferred oframe_dpc, Interrupt]"

fun play :: "env \<Rightarrow> handler list \<Rightarrow> driver \<Rightarrow> driver option" where
  "play E [] s = Some s"
| "play E (a # as) s = (if enabled E a s then do { s1 \<leftarrow> handle E a s; play E as s1 } else None)"

lemma play_append: "play E (as @ bs) s = do { s1 \<leftarrow> play E as s; play E bs s1 }"
  by (induction as arbitrary: s) (auto split: bind_split)

text \<open>The runs are what this interpreter computes.\<close>

lemma run_play: "run E s0 as s \<longleftrightarrow> play E as s0 = Some s"
proof
  assume "run E s0 as s"
  then show "play E as s0 = Some s"
    by (induction rule: run.induct) (simp_all add: play_append)
next
  assume "play E as s0 = Some s"
  then show "run E s0 as s"
  proof (induction as arbitrary: s rule: rev_induct)
    case Nil
    then show ?case by (simp add: run_start)
  next
    case (snoc a as)
    then obtain s1 where "play E as s0 = Some s1" "enabled E a s1" "handle E a s1 = Some s"
      by (auto simp: play_append bind_eq_Some_conv split: if_splits)
    with snoc.IH run_step show ?case by blast
  qed
qed

lemma queue_env_ok: "works queue_env"
  by (auto simp: works_def queue_env_works inputs_as_asked_def) (simp add: queue_env_def)

lemma free_port_in_step: "in_step free_port"
  by (simp add: in_step_def free_port_rx) (simp add: tx_ring_defs example_defs)

lemmas free_port_ok = in_step_ok [OF free_port_in_step]

lemma example_run: "\<exists>s. run queue_env free_port example_handlers s"
proof -
  let ?s1 = "FsccEvtIoRead queue_env 2 10 free_port"
  have r1: "run queue_env free_port ([] @ [Read 2 10]) ?s1" by (rule run_step [OF run_start]) simp_all
  have ok1: "rings_ok ?s1" using run_behaved [OF r1 queue_env_ok free_port_ok] by blast
  have w: "enabled queue_env (Write 3 6) ?s1" by (simp add: writable_def)
  obtain s2 where "FsccEvtIoWrite queue_env 3 6 ?s1 = Some s2"
    using io_write_handled [OF rings_okD(2) [OF ok1] worksD(1) [OF queue_env_ok], of 6 3] by (auto simp: handled_def)
  then have r2: "run queue_env free_port (([] @ [Read 2 10]) @ [Write 3 6]) s2" by (intro run_step [OF r1 w]) simp
  have ok2: "rings_ok s2" using run_behaved [OF r2 queue_env_ok free_port_ok] by blast
  obtain s3 where "oframe_worker queue_env s2 = Some s3"
    using oframe_harmless [OF ok2, of queue_env] by auto
  then have r3: "run queue_env free_port ((([] @ [Read 2 10]) @ [Write 3 6]) @ [Deferred oframe_dpc]) s3"
    by (intro run_step [OF r2]) simp_all
  have "run queue_env free_port (((([] @ [Read 2 10]) @ [Write 3 6]) @ [Deferred oframe_dpc]) @ [Interrupt])
      (snd (fscc_isr queue_env s3))" by (rule run_step [OF r3]) simp_all
  then show ?thesis by (auto simp: example_handlers_def)
qed

lemma example_arrivals: "arrivals example_handlers = [2, 3]"
  by (simp add: example_handlers_def arrivals_def)

lemma requests_answered_once_witness:
  "\<exists>s. run queue_env free_port example_handlers s \<and>
    mset (completed (events s)) + pending (events s) + cancelled (events s) = mset (arrivals example_handlers) \<and>
    distinct (completed (events s)) \<and>
    (\<forall>r. r \<in># pending (events s) \<longrightarrow> r \<notin> set (completed (events s))) \<and>
    (\<forall>q. distinct (queue_contents q (events s)))"
proof -
  obtain s where r: "run queue_env free_port example_handlers s" using example_run ..
  have "ledger (events free_port) = {#}" "distinct (arrivals example_handlers)"
    by (simp add: example_defs, simp add: example_arrivals)
  from r requests_answered_once [OF r queue_env_ok free_port_ok this] show ?thesis by blast
qed

text \<open>With DMA: a read that has to wait, a frame of six bytes from the engine, a write, an interrupt.\<close>

definition dma_port :: driver where
  "dma_port = free_port\<lparr>has_dma := 1\<rparr>"

definition dma_handlers :: "handler list" where
  "dma_handlers = [Read 2 10, Engine_receives (example_frame 0x100 0xC0000006 8), Write 3 6, Interrupt]"

lemma dma_port_ok: "rings_ok dma_port"
proof -
  have "rx_ring_ok True dma_port = rx_ring_ok True free_port" by (rule rx_ring_same) (simp_all add: dma_port_def)
  moreover have "tx_ring_ok True dma_port = tx_ring_ok True free_port"
    by (rule tx_ring_same) (simp_all add: dma_port_def)
  ultimately show ?thesis using free_port_ok rings_okD(3) [OF free_port_ok]
    by (intro in_step_ok) (simp add: in_step_def fscc_port_uses_dma_def example_defs)
qed

lemma dma_run: "\<exists>s. run queue_env dma_port dma_handlers s"
proof -
  let ?s1 = "FsccEvtIoRead queue_env 2 10 dma_port" and ?f = "example_frame 0x100 0xC0000006 8"
  have r1: "run queue_env dma_port ([] @ [Read 2 10]) ?s1" by (rule run_step [OF run_start]) simp_all
  have ok1: "rings_ok ?s1" using run_behaved [OF r1 queue_env_ok dma_port_ok] by blast
  have may: "enabled queue_env (Engine_receives ?f) ?s1"
    by (simp add: may_receive_def received_into_def rx_done_def rx_count_ok_def FsccEvtIoRead_def Let_def emit_def
        fscc_port_uses_dma_def rx_ring_defs dma_port_def example_defs queue_env_def)
  let ?s2 = "dma_receives ?f ?s1"
  have r2: "run queue_env dma_port (([] @ [Read 2 10]) @ [Engine_receives ?f]) ?s2" by (rule run_step [OF r1 may]) simp
  have ok2: "rings_ok ?s2" using run_behaved [OF r2 queue_env_ok dma_port_ok] by blast
  have w: "enabled queue_env (Write 3 6) ?s2" by (simp add: writable_def)
  obtain s3 where "FsccEvtIoWrite queue_env 3 6 ?s2 = Some s3"
    using io_write_handled [OF rings_okD(2) [OF ok2] worksD(1) [OF queue_env_ok], of 6 3] by (auto simp: handled_def)
  then have r3: "run queue_env dma_port ((([] @ [Read 2 10]) @ [Engine_receives ?f]) @ [Write 3 6]) s3"
    by (intro run_step [OF r2 w]) simp
  have "run queue_env dma_port (((([] @ [Read 2 10]) @ [Engine_receives ?f]) @ [Write 3 6]) @ [Interrupt])
      (snd (fscc_isr queue_env s3))" by (rule run_step [OF r3]) simp_all
  then show ?thesis by (auto simp: dma_handlers_def)
qed

lemma driver_never_faults_witness:
  "\<exists>s. run queue_env dma_port dma_handlers s \<and> rings_ok s \<and> memory s = memory dma_port \<and>
    (\<forall>a. enabled queue_env a s \<and> returns_here a s \<longrightarrow> handle queue_env a s \<noteq> None)"
proof -
  obtain s where r: "run queue_env dma_port dma_handlers s" using dma_run ..
  have "ledger (events dma_port) = {#}" "distinct (arrivals dma_handlers)"
    by (simp add: dma_port_def example_defs, simp add: dma_handlers_def arrivals_def)
  from r driver_never_faults [OF r queue_env_ok dma_port_ok this] show ?thesis by blast
qed

end
