(* ===== verification/Fscc_Ics703.thy ===== *)
theory Fscc_Ics703
  imports Fscc_Defs
begin

text \<open>
  The user-space search for the dividers and the loop filter of the ICS307-03 clock generator
  (\<open>GetICS30703Data\<close> in \<open>lib/raw/calculate-clock-bits.c\<close>), and the twenty bytes it programs
  them into, which \<open>FSCC_SET_CLOCK_BITS\<close> hands to the driver. The arithmetic on \<open>double\<close> is a
  parameter, a record of the operations the code uses, so what is proved holds for every
  rounding; \<open>unsigned long\<close> has 32 bits, as on Windows. The fields of the result structure the
  code only writes (\<open>target\<close>, \<open>errorPPM\<close>, \<open>failed\<close>, \<open>count\<close>) are left out.
\<close>

section \<open>Arithmetic on doubles\<close>

text \<open>\<open>lit m e\<close> is the literal \<open>m\<close> times \<open>10\<close> to the power of \<open>e\<close>.\<close>

record 'd doubles =
  lit :: "int \<Rightarrow> int \<Rightarrow> 'd"
  dbl :: "int \<Rightarrow> 'd"
  mul :: "'d \<Rightarrow> 'd \<Rightarrow> 'd"
  quot :: "'d \<Rightarrow> 'd \<Rightarrow> 'd"
  minus_d :: "'d \<Rightarrow> 'd \<Rightarrow> 'd"
  sqrt_d :: "'d \<Rightarrow> 'd"
  fabs :: "'d \<Rightarrow> 'd"
  less_d :: "'d \<Rightarrow> 'd \<Rightarrow> bool"
  le_d :: "'d \<Rightarrow> 'd \<Rightarrow> bool"
  to_int :: "'d \<Rightarrow> i32"
  to_ulong :: "'d \<Rightarrow> u32"

section \<open>The search\<close>

record 'd solution_703 =
  freq :: 'd
  VCO_Div :: u32
  refDiv :: u32
  outDiv :: u32
  filter_Rs :: u32
  filter_icpnum :: u32

abbreviation (input) min_V :: u32 where "min_V \<equiv> 12"
abbreviation (input) max_V :: u32 where "max_V \<equiv> 2055"
abbreviation (input) minR :: u32 where "minR \<equiv> 1"
abbreviation (input) maxR :: u32 where "maxR \<equiv> 1200"

definition inputfreq :: "'d doubles \<Rightarrow> 'd" where
  "inputfreq D = lit D 24000000 0"

definition pdf :: "'d doubles \<Rightarrow> u32 \<Rightarrow> 'd" where
  "pdf D r = quot D (inputfreq D) (dbl D (uint r))"

definition rule2_fails :: "'d doubles \<Rightarrow> u32 \<Rightarrow> bool" where
  "rule2_fails D r \<longleftrightarrow> less_d D (pdf D r) (lit D 20000 0) \<or> less_d D (lit D 100000000 0) (pdf D r)"

definition rule1_fails :: "'d doubles \<Rightarrow> u32 \<Rightarrow> u32 \<Rightarrow> u32 \<Rightarrow> bool" where
  "rule1_fails D r od v \<longleftrightarrow>
     (let rule1 = mul D (inputfreq D) (quot D (dbl D (uint v)) (dbl D (uint r)));
          limit = (if od = 2 then lit D 540000000 0
                   else if od = 3 then lit D 720000000 0
                   else if od \<ge> 38 \<and> od \<le> 1029 then lit D 570000000 0
                   else lit D 730000000 0)
      in less_d D rule1 (lit D 90000000 0) \<or> less_d D limit rule1)"

definition freq_703 :: "'d doubles \<Rightarrow> u32 \<Rightarrow> u32 \<Rightarrow> u32 \<Rightarrow> 'd" where
  "freq_703 D r od v =
     mul D (inputfreq D) (quot D (dbl D (uint v)) (mul D (dbl D (uint r)) (dbl D (uint od))))"

definition freq_err :: "'d doubles \<Rightarrow> u32 \<Rightarrow> u32 \<Rightarrow> u32 \<Rightarrow> u32 \<Rightarrow> 'd" where
  "freq_err D desired r od v = fabs D (minus_d D (freq_703 D r od v) (dbl D (uint desired)))"

text \<open>The product of the two \<open>unsigned long\<close> values wraps before it becomes a \<open>double\<close>.\<close>

definition allowable_error :: "'d doubles \<Rightarrow> u32 \<Rightarrow> u32 \<Rightarrow> 'd" where
  "allowable_error D ppm desired = quot D (dbl D (uint (ppm * desired))) (lit D 1 6)"

definition Rs_table :: "u32 list" where
  "Rs_table = [64000, 52000, 16000, 4000]"

text \<open>The charge pump currents: \<open>icpnum\<close> is the current in units of 10 nA.\<close>

definition icp_table :: "u32 list" where
  "icp_table = [125, 250, 375, 500, 625, 750, 875, 1000, 1125, 1250,
     1500, 1750, 1875, 2000, 2250, 2500, 2625, 3000, 3500, 4000]"

definition icp :: "'d doubles \<Rightarrow> u32 \<Rightarrow> 'd" where
  "icp D icpnum = lit D (uint icpnum) (- 8)"

definition ratio :: "'d doubles \<Rightarrow> u32 \<Rightarrow> u32 \<Rightarrow> u32 \<Rightarrow> u32 \<Rightarrow> 'd" where
  "ratio D r v Rs icpnum =
     (let nbw = quot D (mul D (mul D (dbl D (uint Rs)) (icp D icpnum)) (lit D 310 6))
                  (mul D (mul D (lit D 2 0) (lit D 314159 (- 5))) (dbl D (uint v)));
          ten = mul D (quot D (pdf D r) nbw) (lit D 10 0);
          tempint = to_int D ten;
          tempint = (if le_d D (lit D 0 0) (minus_d D ten (dbl D (sint tempint)))
                     then tempint + 1 else tempint)
      in quot D (dbl D (sint tempint)) (lit D 10 0))"

definition df :: "'d doubles \<Rightarrow> u32 \<Rightarrow> u32 \<Rightarrow> u32 \<Rightarrow> 'd" where
  "df D v Rs icpnum =
     mul D (quot D (dbl D (uint Rs)) (dbl D 2))
       (sqrt_d D (quot D (mul D (icp D icpnum) (lit D 93 (- 3))) (dbl D (uint v))))"

definition filter_fails :: "'d doubles \<Rightarrow> u32 \<Rightarrow> u32 \<Rightarrow> u32 \<Rightarrow> u32 \<Rightarrow> bool" where
  "filter_fails D r v Rs icpnum \<longleftrightarrow>
     less_d D (dbl D 30) (ratio D r v Rs icpnum) \<or> less_d D (ratio D r v Rs icpnum) (dbl D 7) \<or>
     less_d D (lit D 2 0) (df D v Rs icpnum) \<or> less_d D (df D v Rs icpnum) (lit D 2 (- 1))"

fun icp_loop :: "'d doubles \<Rightarrow> u32 \<Rightarrow> u32 \<Rightarrow> u32 \<Rightarrow> u32 list \<Rightarrow> u32 option" where
  "icp_loop D r v Rs [] = None"
| "icp_loop D r v Rs (c # cs) =
     (if filter_fails D r v Rs c then icp_loop D r v Rs cs else Some c)"

fun Rs_loop :: "'d doubles \<Rightarrow> u32 \<Rightarrow> u32 \<Rightarrow> u32 list \<Rightarrow> (u32 \<times> u32) option" where
  "Rs_loop D r v [] = None"
| "Rs_loop D r v (Rs # Rss) =
     (case icp_loop D r v Rs icp_table of None \<Rightarrow> Rs_loop D r v Rss | Some c \<Rightarrow> Some (Rs, c))"

text \<open>One VCO divider.\<close>

definition try_703 :: "'d doubles \<Rightarrow> u32 \<Rightarrow> 'd \<Rightarrow> u32 \<Rightarrow> u32 \<Rightarrow> u32 \<Rightarrow> 'd solution_703 option" where
  "try_703 D desired err r od v =
     (if rule1_fails D r od v then None
      else if less_d D err (freq_err D desired r od v) then None
      else if le_d D (freq_err D desired r od v) err then
        (case Rs_loop D r v Rs_table of None \<Rightarrow> None
         | Some (Rs, icpnum) \<Rightarrow> Some \<lparr>freq = freq_703 D r od v, VCO_Div = v, refDiv = r, outDiv = od,
              filter_Rs = Rs, filter_icpnum = icpnum\<rparr>)
      else None)"

lemma unat_next:
  assumes "v \<le> n" "n < (2 ^ 31 :: u32)"
  shows "unat (v + 1) = unat v + 1"
proof -
  have "unat v < 2 ^ 31" using assms by (simp add: word_le_nat_alt word_less_nat_alt)
  then show ?thesis by (simp add: unat_word_ariths)
qed

function v_loop :: "'d doubles \<Rightarrow> u32 \<Rightarrow> 'd \<Rightarrow> u32 \<Rightarrow> u32 \<Rightarrow> u32 \<Rightarrow> 'd solution_703 option" where
  "v_loop D desired err r od v =
     (if v \<le> max_V then
        (case try_703 D desired err r od v of None \<Rightarrow> v_loop D desired err r od (v + 1)
         | Some x \<Rightarrow> Some x)
      else None)"
  by pat_completeness auto
termination
proof (relation "measure (\<lambda>(D, desired, err, r, od, v). 2056 - unat v)", goal_cases)
  case (2 D desired err r od v)
  then show ?case using unat_next [of v max_V] by (simp add: word_le_nat_alt)
qed simp

declare v_loop.simps [simp del]

definition V_Divstart :: "'d doubles \<Rightarrow> u32 \<Rightarrow> 'd \<Rightarrow> u32 \<Rightarrow> u32 \<Rightarrow> u32" where
  "V_Divstart D desired err r od =
     (let start = to_int D (quot D (mul D (mul D (minus_d D (dbl D (uint desired)) err)
                    (dbl D (uint r))) (dbl D (uint od))) (inputfreq D))
      in if start < min_V then min_V else if start > max_V then max_V else start)"

definition next_od :: "u32 \<Rightarrow> u32" where
  "next_od od =
     (if od \<le> 1030 then od - 1 else if od \<le> 2060 then od - 2 else if od \<le> 4120 then od - 4 else od - 8)"

lemma next_od_less: "1 < od \<Longrightarrow> next_od od < od"
  by (auto simp: next_od_def word_less_nat_alt word_le_nat_alt unat_sub)

function od_loop_703 :: "'d doubles \<Rightarrow> u32 \<Rightarrow> 'd \<Rightarrow> u32 \<Rightarrow> u32 \<Rightarrow> 'd solution_703 option" where
  "od_loop_703 D desired err r od =
     (if 1 < od then
        (case v_loop D desired err r od (V_Divstart D desired err r od) of
           None \<Rightarrow> od_loop_703 D desired err r (next_od od)
         | Some x \<Rightarrow> Some x)
      else None)"
  by pat_completeness auto
termination
  by (relation "measure (\<lambda>(D, desired, err, r, od). unat od)")
    (use next_od_less in \<open>auto simp: word_less_nat_alt\<close>)

declare od_loop_703.simps [simp del]

function r_loop :: "'d doubles \<Rightarrow> u32 \<Rightarrow> 'd \<Rightarrow> u32 \<Rightarrow> 'd solution_703 option" where
  "r_loop D desired err r =
     (if r \<le> maxR then
        (if rule2_fails D r then r_loop D desired err (r + 1)
         else case od_loop_703 D desired err r 8232 of
                None \<Rightarrow> r_loop D desired err (r + 1)
              | Some x \<Rightarrow> Some x)
      else None)"
  by pat_completeness auto
termination
proof (relation "measure (\<lambda>(D, desired, err, r). 1201 - unat r)", goal_cases)
  case (2 D desired err r)
  then show ?case using unat_next [of r maxR] by (simp add: word_le_nat_alt)
next
  case (3 D desired err r)
  then show ?case using unat_next [of r maxR] by (simp add: word_le_nat_alt)
qed simp

declare r_loop.simps [simp del]

text \<open>The outer loop raises the allowed error. It is partial: with the largest \<open>requestedppm\<close>
  the counter can never exceed it.\<close>

partial_function (option) ppm_loop ::
  "'d doubles \<Rightarrow> u32 \<Rightarrow> u32 \<Rightarrow> u32 \<Rightarrow> 'd solution_703 option option" where
  "ppm_loop D desired requestedppm ppm =
     (case r_loop D desired (allowable_error D ppm desired) minR of
        Some x \<Rightarrow> Some (Some x)
      | None \<Rightarrow> if ppm + 1 > requestedppm then Some None
                else ppm_loop D desired requestedppm (ppm + 1))"

end
