(* ===== verification/Fscc_Progdata.thy ===== *)
theory Fscc_Progdata
  imports Fscc_Prelude
begin

text \<open>
  The twenty bytes that program the ICS307-03 (the second half of \<open>GetICS30703Data\<close> in
  \<open>lib/raw/calculate-clock-bits.c\<close>): one operation per table of the data sheet, each changing
  its own bits of the array, with the early return of a value outside the table as \<open>None\<close>.
  Below them, reading the fields back, and that every operation leaves the others' fields alone.
\<close>

section \<open>Model\<close>

definition upd :: "nat \<Rightarrow> (u8 \<Rightarrow> u8) \<Rightarrow> u8 list \<Rightarrow> u8 list" where
  "upd k f p = p[k := f (p ! k)]"

definition progdata :: "u8 list" where
  "progdata = upd 13 (\<lambda>b. b OR 0x40) (upd 14 (\<lambda>b. b OR 0x01)
     [0, 0, 0, 0, 0, 0, 0, 0, 0, 0, 0, 0, 0, 0, 0, 0x04, 0, 0xff, 0xff, 0xff])"

definition input_divider :: "u32 \<Rightarrow> u8 list \<Rightarrow> u8 list option" where
  "input_divider InputDivider p =
     (if InputDivider = 1 then Some (upd 1 (\<lambda>b. b AND 0xF0) (upd 0 (\<lambda>b. b AND 0xFC) p))
      else if InputDivider = 2 then
        Some (upd 1 (\<lambda>b. b AND 0xF0) (upd 0 (\<lambda>b. (b AND 0xFC) OR 0x01) p))
      else if InputDivider \<ge> 3 \<and> InputDivider \<le> 17 then
        (let temp = push_bit 2 (NOT (InputDivider - 2))
         in Some (upd 0 (\<lambda>b. (ucast temp AND 0x3e) OR 0x02) p))
      else if InputDivider \<ge> 18 \<and> InputDivider \<le> 2055 then
        (let temp = push_bit 2 (InputDivider - 8)
         in Some (upd 1 (\<lambda>b. ucast (drop_bit 8 temp)) (upd 0 (\<lambda>b. ucast temp OR 0x03) p)))
      else None)"

definition vco_divider :: "u32 \<Rightarrow> u8 list \<Rightarrow> u8 list option" where
  "vco_divider VCODivider p =
     (if VCODivider \<ge> 12 \<and> VCODivider \<le> 2055 then
        (let temp = push_bit 5 (VCODivider - 8)
         in Some (upd 2 (\<lambda>b. b OR ucast (drop_bit 8 temp)) (upd 1 (\<lambda>b. b OR ucast temp) p)))
      else None)"

definition loop_filter :: "u32 \<Rightarrow> u8 list \<Rightarrow> u8 list option" where
  "loop_filter resistor p =
     (if resistor = 64000 then Some (upd 11 (\<lambda>b. b AND 0xf9) p)
      else if resistor = 52000 then Some (upd 11 (\<lambda>b. (b AND 0xf9) OR 0x04) p)
      else if resistor = 16000 then Some (upd 11 (\<lambda>b. (b AND 0xf9) OR 0x02) p)
      else if resistor = 4000 then Some (upd 11 (\<lambda>b. b OR 0x06) p)
      else None)"

abbreviation set15 :: "u8 \<Rightarrow> u8" where "set15 \<equiv> \<lambda>b. b OR 0x80"
abbreviation clear15 :: "u8 \<Rightarrow> u8" where "clear15 \<equiv> \<lambda>b. b AND 0x7f"
abbreviation set16 :: "u8 \<Rightarrow> u8" where "set16 \<equiv> \<lambda>b. b OR 0x01"
abbreviation clear16 :: "u8 \<Rightarrow> u8" where "clear16 \<equiv> \<lambda>b. b AND 0xfe"

text \<open>What each case of the charge pump table does to the bytes 11, 15 and 16.\<close>

definition pump_case :: "u32 \<Rightarrow> ((u8 \<Rightarrow> u8) \<times> (u8 \<Rightarrow> u8) \<times> (u8 \<Rightarrow> u8)) option" where
  "pump_case current =
     (if current = 125 then Some (\<lambda>b. b OR 0x38, clear15, clear16)
      else if current = 250 then Some (\<lambda>b. b OR 0x38, set15, clear16)
      else if current = 375 then Some (\<lambda>b. b OR 0x38, clear15, set16)
      else if current = 500 then Some (\<lambda>b. b OR 0x38, set15, set16)
      else if current = 625 then Some (\<lambda>b. (b OR 0x18) AND 0xdf, clear15, clear16)
      else if current = 750 then Some (\<lambda>b. (b OR 0x10) AND 0xd7, clear15, clear16)
      else if current = 875 then Some (\<lambda>b. (b OR 0x08) AND 0xcf, clear15, clear16)
      else if current = 1000 then Some (\<lambda>b. b AND 0xc7, clear15, clear16)
      else if current = 1125 then Some (\<lambda>b. (b OR 0x28) AND 0xef, clear15, set16)
      else if current = 1250 then Some (\<lambda>b. (b OR 0x18) AND 0xdf, set15, clear16)
      else if current = 1500 then Some (\<lambda>b. (b OR 0x28) AND 0xef, set15, set16)
      else if current = 1750 then Some (\<lambda>b. (b OR 0x08) AND 0xcf, set15, clear16)
      else if current = 1875 then Some (\<lambda>b. (b OR 0x18) AND 0xdf, clear15, set16)
      else if current = 2000 then Some (\<lambda>b. b AND 0xc7, set15, clear16)
      else if current = 2250 then Some (\<lambda>b. b OR 0x10, clear15, set16)
      else if current = 2500 then Some (\<lambda>b. (b OR 0x18) AND 0xdf, set15, set16)
      else if current = 2625 then Some (\<lambda>b. (b OR 0x08) AND 0xcf, clear15, set16)
      else if current = 3000 then Some (\<lambda>b. b AND 0xc7, clear15, set16)
      else if current = 3500 then Some (\<lambda>b. (b OR 0x08) AND 0xcf, set15, set16)
      else if current = 4000 then Some (\<lambda>b. b AND 0xc7, set15, set16)
      else None)"

definition charge_pump :: "u32 \<Rightarrow> u8 list \<Rightarrow> u8 list option" where
  "charge_pump current p =
     map_option (\<lambda>(f11, f15, f16). upd 16 f16 (upd 15 f15 (upd 11 f11 p))) (pump_case current)"

definition put_divider :: "u32 \<Rightarrow> u8 list \<Rightarrow> u8 list" where
  "put_divider i p =
     (let temp = push_bit 5 i
      in upd 13 (\<lambda>b. b OR ucast (drop_bit 8 temp)) (upd 12 (\<lambda>b. b OR ucast temp) p))"

fun divider_loop :: "u32 \<Rightarrow> nat list \<Rightarrow> u8 list \<Rightarrow> u8 list" where
  "divider_loop od [] p = p"
| "divider_loop od (i # is) p =
     (if od = (((of_nat i + 3) * 2) + 0) * 1 then upd 12 (\<lambda>b. (b AND 0xe7) OR 0x04) (put_divider (of_nat i) p)
      else if od = (((of_nat i + 3) * 2) + 0) * 2 then upd 12 (\<lambda>b. (b AND 0xef) OR 0x0c) (put_divider (of_nat i) p)
      else if od = (((of_nat i + 3) * 2) + 0) * 4 then upd 12 (\<lambda>b. (b AND 0xf7) OR 0x14) (put_divider (of_nat i) p)
      else if od = (((of_nat i + 3) * 2) + 0) * 8 then upd 12 (\<lambda>b. b OR 0x1c) (put_divider (of_nat i) p)
      else if od = (((of_nat i + 3) * 2) + 1) * 1 then upd 12 (\<lambda>b. b AND 0xe3) (put_divider (of_nat i) p)
      else if od = (((of_nat i + 3) * 2) + 1) * 2 then upd 12 (\<lambda>b. (b AND 0xeb) OR 0x08) (put_divider (of_nat i) p)
      else if od = (((of_nat i + 3) * 2) + 1) * 4 then upd 12 (\<lambda>b. (b AND 0xf7) OR 0x10) (put_divider (of_nat i) p)
      else if od = (((of_nat i + 3) * 2) + 1) * 8 then upd 12 (\<lambda>b. (b AND 0xfb) OR 0x18) (put_divider (of_nat i) p)
      else divider_loop od is p)"

definition output_divider :: "u32 \<Rightarrow> u8 list \<Rightarrow> u8 list option" where
  "output_divider od p =
     (if od = 2 then Some (upd 13 (\<lambda>b. b AND 0xc0) (upd 12 (\<lambda>b. b AND 0x00) (upd 11 (\<lambda>b. b AND 0x7f) p)))
      else if od = 3 then Some (upd 13 (\<lambda>b. b AND 0xc0) (upd 12 (\<lambda>b. b AND 0x00) (upd 11 (\<lambda>b. b OR 0x80) p)))
      else if od = 4 then Some (upd 13 (\<lambda>b. b AND 0xc0) (upd 12 (\<lambda>b. b OR 0x04) (upd 11 (\<lambda>b. b AND 0x7f) p)))
      else if od = 5 then Some (upd 13 (\<lambda>b. b AND 0xc0) (upd 12 (\<lambda>b. b OR 0x01) (upd 11 (\<lambda>b. b AND 0x7f) p)))
      else if od = 6 then Some (upd 13 (\<lambda>b. b AND 0xc0) (upd 12 (\<lambda>b. b OR 0x04) (upd 11 (\<lambda>b. b OR 0x80) p)))
      else if od = 7 then Some (upd 13 (\<lambda>b. b AND 0xc0) (upd 12 (\<lambda>b. b OR 0x01) (upd 11 (\<lambda>b. b OR 0x80) p)))
      else if od = 11 then Some (upd 13 (\<lambda>b. b AND 0xc0) (upd 12 (\<lambda>b. b OR 0x09) (upd 11 (\<lambda>b. b OR 0x80) p)))
      else if od = 9 then Some (upd 13 (\<lambda>b. b AND 0xc0) (upd 12 (\<lambda>b. b OR 0x05) (upd 11 (\<lambda>b. b OR 0x80) p)))
      else if od = 13 then Some (upd 13 (\<lambda>b. b AND 0xc0) (upd 12 (\<lambda>b. b OR 0x0d) (upd 11 (\<lambda>b. b OR 0x80) p)))
      else if od = 8 \<or> od = 10 \<or> od = 12 \<or> 14 \<le> od \<and> od \<le> 37 then
        (let temp = push_bit 2 (NOT (od - 6))
         in Some (upd 13 (\<lambda>b. b AND 0xc0) (upd 12 (\<lambda>b. ((ucast temp AND 0x7f) AND 0xfe) OR 0x02)
              (upd 11 (\<lambda>b. b AND 0x7f) p))))
      else if 2 \<le> od \<and> od \<le> 8232 then
        Some (upd 12 (\<lambda>b. (b AND 0xfe) OR 0x02) (upd 11 (\<lambda>b. b OR 0x80)
          (divider_loop od [0..<512] p)))
      else None)"

text \<open>The error codes are those of \<open>GetICS30703Data\<close>.\<close>

definition program_703 :: "u32 \<Rightarrow> u32 \<Rightarrow> u32 \<Rightarrow> u32 \<Rightarrow> u32 \<Rightarrow> u32 + u8 list" where
  "program_703 r v resistor current od =
     (case input_divider r progdata of None \<Rightarrow> Inl 3
      | Some p \<Rightarrow> (case vco_divider v p of None \<Rightarrow> Inl 4
      | Some p \<Rightarrow> (case loop_filter resistor p of None \<Rightarrow> Inl 5
      | Some p \<Rightarrow> (case charge_pump current p of None \<Rightarrow> Inl 6
      | Some p \<Rightarrow> (case output_divider od p of None \<Rightarrow> Inl 7
      | Some p \<Rightarrow> Inr p)))))"

section \<open>Reading the fields back\<close>

definition decode_input :: "u8 list \<Rightarrow> u32" where
  "decode_input p =
     (if take_bit 2 (p ! 0) = 0 then 1
      else if take_bit 2 (p ! 0) = 1 then 2
      else if take_bit 2 (p ! 0) = 2 then 17 - ucast (take_bit 4 (drop_bit 2 (p ! 0)))
      else 8 + (ucast (drop_bit 2 (p ! 0)) OR push_bit 6 (ucast (take_bit 5 (p ! 1)))))"

definition decode_vco :: "u8 list \<Rightarrow> u32" where
  "decode_vco p = 8 + (ucast (drop_bit 5 (p ! 1)) OR push_bit 3 (ucast (p ! 2)))"

definition decode_filter :: "u8 list \<Rightarrow> u32" where
  "decode_filter p =
     (if bit (p ! 11) 1 then (if bit (p ! 11) 2 then 4000 else 16000)
      else (if bit (p ! 11) 2 then 52000 else 64000))"

definition pump_bits :: "u8 list \<Rightarrow> u8 \<times> bool \<times> bool" where
  "pump_bits p = (take_bit 3 (drop_bit 3 (p ! 11)), bit (p ! 15) 7, bit (p ! 16) 0)"

definition pump_table :: "((u8 \<times> bool \<times> bool) \<times> u32) list" where
  "pump_table =
    [((7, False, False), 125), ((7, True, False), 250), ((7, False, True), 375), ((7, True, True), 500),
     ((3, False, False), 625), ((2, False, False), 750), ((1, False, False), 875), ((0, False, False), 1000),
     ((5, False, True), 1125), ((3, True, False), 1250), ((5, True, True), 1500), ((1, True, False), 1750),
     ((3, False, True), 1875), ((0, True, False), 2000), ((2, False, True), 2250), ((3, True, True), 2500),
     ((1, False, True), 2625), ((0, False, True), 3000), ((1, True, True), 3500), ((0, True, True), 4000)]"

definition decode_pump :: "u8 list \<Rightarrow> u32 option" where
  "decode_pump p = map_of pump_table (pump_bits p)"

definition decode_output :: "u8 list \<Rightarrow> u32 option" where
  "decode_output p =
     (let b = p ! 12; h = bit (p ! 11) 7 in
      if take_bit 2 b = 2 then
        (if h then
           (let x = ucast (drop_bit 5 b) OR push_bit 3 (ucast (take_bit 6 (p ! 13)));
                y = (if bit b 2 then 0 else 1);
                z = unat (take_bit 2 (drop_bit 3 b))
            in Some (((x + 3) * 2 + y) * 2 ^ z))
         else Some (37 - ucast (take_bit 5 (drop_bit 2 b))))
      else map_of [((False, 0), 2), ((True, 0), 3), ((False, 4), 4), ((False, 1), 5), ((True, 4), 6),
             ((True, 1), 7), ((True, 9), 11), ((True, 5), 9), ((True, 13), 13)] (h, take_bit 5 b))"

section \<open>Each table writes its own field\<close>

text \<open>\<open>same_but ks p q\<close>: \<open>q\<close> is \<open>p\<close> but for the bytes \<open>ks\<close>.\<close>

definition same_but :: "nat set \<Rightarrow> u8 list \<Rightarrow> u8 list \<Rightarrow> bool" where
  "same_but ks p q \<longleftrightarrow> length q = length p \<and> (\<forall>k. k \<notin> ks \<longrightarrow> q ! k = p ! k)"

lemma same_but_upd: "k \<in> ks \<Longrightarrow> same_but ks p q \<Longrightarrow> same_but ks p (upd k f q)"
  by (auto simp: same_but_def upd_def) (metis nth_list_update_neq)

lemma same_but_refl [simp]: "same_but ks p p"
  by (simp add: same_but_def)

lemma nth_upd: "k < length p \<Longrightarrow> upd k f p ! j = (if j = k then f (p ! k) else p ! j)"
  by (simp add: upd_def nth_list_update)

lemma length_upd [simp]: "length (upd k f p) = length p"
  by (simp add: upd_def)

lemma small_u32:
  assumes "lo \<le> r" "r \<le> (hi :: u32)"
  shows "\<exists>n. r = of_nat n \<and> unat lo \<le> n \<and> n \<le> unat hi"
  using assms by (intro exI [of _ "unat r"]) (simp add: word_le_nat_alt)

lemma three_mask: "(3 :: u8) = mask 2"
  by (simp add: mask_eq_exp_minus_1)

lemma input_high:
  fixes x :: u32
  assumes "take_bit 11 x = x"
  shows "ucast (drop_bit 2 (ucast (push_bit 2 x) OR 3 :: u8)) OR
      push_bit 6 (ucast (take_bit 5 (ucast (drop_bit 8 (push_bit 2 x)) :: u8))) = x"
    "take_bit 2 (ucast (push_bit 2 x) OR 3 :: u8) = 3"
    "take_bit 5 (ucast (drop_bit 8 (push_bit 2 x)) :: u8) = ucast (drop_bit 8 (push_bit 2 x))"
proof -
  have small: "bit x n \<Longrightarrow> n < 11" for n using assms by (metis bit_take_bit_iff)
  show "take_bit 2 (ucast (push_bit 2 x) OR 3 :: u8) = 3"
    unfolding three_mask by (rule bit_eqI) (auto simp: bit_take_bit_iff bit_or_iff bit_mask_iff)
  show "take_bit 5 (ucast (drop_bit 8 (push_bit 2 x)) :: u8) = ucast (drop_bit 8 (push_bit 2 x))"
    by (rule bit_eqI) (auto simp: bit_take_bit_iff bit_unsigned_iff bit_drop_bit_eq bit_push_bit_iff dest: small)
  show "ucast (drop_bit 2 (ucast (push_bit 2 x) OR 3 :: u8)) OR
      push_bit 6 (ucast (take_bit 5 (ucast (drop_bit 8 (push_bit 2 x)) :: u8))) = x"
    unfolding three_mask
  proof (rule bit_eqI)
    fix n assume "possible_bit TYPE(32 word) n"
    then have "n < 32" by simp
    consider "n < 6" | "6 \<le> n" "n < 11" | "11 \<le> n" by linarith
    then show "bit ((ucast (drop_bit 2 (ucast (push_bit 2 x) OR mask 2 :: u8)) :: u32) OR
      push_bit 6 (ucast (take_bit 5 (ucast (drop_bit 8 (push_bit 2 x)) :: u8)))) n = bit x n"
      using \<open>n < 32\<close> small [of n]
      by cases (auto simp: bit_or_iff bit_unsigned_iff bit_drop_bit_eq bit_push_bit_iff bit_take_bit_iff bit_mask_iff)
  qed
qed

lemma input_divider_decodes:
  assumes "length p = 20" "p ! 0 = 0" "p ! 1 = 0" "1 \<le> r" "r \<le> 2055"
  shows "\<exists>q. input_divider r p = Some q \<and> same_but {0, 1} p q \<and> decode_input q = r \<and>
    take_bit 5 (q ! 1) = q ! 1"
proof -
  obtain n where n: "r = of_nat n" "1 \<le> n" "n \<le> 2055" using small_u32 [OF assms(4,5)] by auto
  consider "n = 1 \<or> n = 2" | "3 \<le> n \<and> n < 18" | "18 \<le> n" using n by linarith
  then show ?thesis
  proof cases
    case 1
    then show ?thesis using assms n(1)
      by (auto simp: input_divider_def decode_input_def nth_upd intro!: same_but_upd)
  next
    case 2
    then have "n \<in> {3, 4, 5, 6, 7, 8, 9, 10, 11, 12, 13, 14, 15, 16, 17}" by (simp, presburger)
    then show ?thesis using assms n(1)
      by (elim insertE emptyE; simp add: input_divider_def decode_input_def nth_upd same_but_upd)
  next
    case 3
    define x where "x = r - 8"
    have x: "unat x = n - 8" using n 3 by (simp add: x_def unat_sub word_le_nat_alt unat_of_nat)
    then have "take_bit 11 x = x" using n by (intro unat_less_exp [of _ 2048]) auto
    note high = input_high [OF this]
    have "18 \<le> r" "\<not> r \<le> 17" "r \<noteq> 1" "r \<noteq> 2"
      using n 3 by (auto simp: word_le_nat_alt unat_of_nat word_unat_eq_iff)
    then have "input_divider r p = Some (upd 1 (\<lambda>b. ucast (drop_bit 8 (push_bit 2 x)))
        (upd 0 (\<lambda>b. ucast (push_bit 2 x) OR 0x03) p))"
      using assms(5) by (simp add: input_divider_def x_def Let_def)
    then show ?thesis using high assms(1)
      by (simp add: decode_input_def nth_upd same_but_upd) (simp add: x_def)
  qed
qed

lemma vco_bytes:
  fixes x :: u32 and b :: u8
  assumes "take_bit 11 x = x" "take_bit 5 b = b"
  shows "take_bit 5 (b OR ucast (push_bit 5 x)) = b"
    "ucast (drop_bit 5 (b OR ucast (push_bit 5 x))) OR push_bit 3 (ucast (ucast (drop_bit 8 (push_bit 5 x)) :: u8)) = x"
proof -
  have small: "bit x n \<Longrightarrow> n < 11" "bit b n \<Longrightarrow> n < 5" for n using assms by (metis bit_take_bit_iff)+
  show "take_bit 5 (b OR ucast (push_bit 5 x)) = b"
    by (rule bit_eqI)
      (auto simp: bit_take_bit_iff bit_or_iff bit_unsigned_iff bit_push_bit_iff dest: small)
  show "ucast (drop_bit 5 (b OR ucast (push_bit 5 x))) OR
      push_bit 3 (ucast (ucast (drop_bit 8 (push_bit 5 x)) :: u8)) = x"
  proof (rule bit_eqI)
    fix n assume "possible_bit TYPE(32 word) n"
    then have "n < 32" by simp
    consider "n < 3" | "3 \<le> n" "n < 11" | "11 \<le> n" by linarith
    then show "bit ((ucast (drop_bit 5 (b OR ucast (push_bit 5 x))) :: u32) OR
      push_bit 3 (ucast (ucast (drop_bit 8 (push_bit 5 x)) :: u8))) n = bit x n"
      using \<open>n < 32\<close> small(1) [of n] small(2) [of "5 + n"]
      by cases (auto simp: bit_or_iff bit_unsigned_iff bit_drop_bit_eq bit_push_bit_iff)
  qed
qed

lemma vco_divider_decodes:
  assumes "length p = 20" "take_bit 5 (p ! 1) = p ! 1" "p ! 2 = 0" "12 \<le> v" "v \<le> 2055"
  shows "\<exists>q. vco_divider v p = Some q \<and> same_but {1, 2} p q \<and> decode_vco q = v \<and>
    decode_input q = decode_input p"
proof -
  define x where "x = v - 8"
  have "unat x < 2048" using assms(4,5) by (simp add: x_def unat_sub word_le_nat_alt)
  then have "take_bit 11 x = x" by (intro unat_less_exp [of _ 2048]) auto
  note bytes = vco_bytes [OF this assms(2)]
  have "vco_divider v p = Some (upd 2 (\<lambda>b. b OR ucast (drop_bit 8 (push_bit 5 x)))
      (upd 1 (\<lambda>b. b OR ucast (push_bit 5 x)) p))"
    using assms(4,5) by (simp add: vco_divider_def x_def Let_def)
  moreover have "decode_vco (upd 2 (\<lambda>b. b OR ucast (drop_bit 8 (push_bit 5 x)))
      (upd 1 (\<lambda>b. b OR ucast (push_bit 5 x)) p)) = 8 + x"
    using bytes(2) assms(1,3) by (simp add: decode_vco_def nth_upd)
  ultimately show ?thesis using bytes(1) assms(1,2)
    by (simp add: decode_input_def nth_upd same_but_upd) (simp add: x_def)
qed

lemma loop_filter_decodes:
  assumes "length p = 20" "p ! 11 = 0" "resistor \<in> {64000, 52000, 16000, 4000}"
  shows "\<exists>q. loop_filter resistor p = Some q \<and> same_but {11} p q \<and> decode_filter q = resistor \<and>
    q ! 11 \<in> {0, 2, 4, 6}"
  using assms by (auto simp: loop_filter_def decode_filter_def nth_upd intro!: same_but_upd)

definition pump_ok :: "(u8 \<Rightarrow> u8) \<Rightarrow> (u8 \<Rightarrow> u8) \<Rightarrow> (u8 \<Rightarrow> u8) \<Rightarrow> u32 \<Rightarrow> bool" where
  "pump_ok f11 f15 f16 current \<longleftrightarrow>
     (\<forall>b\<in>{0, 2, 4, 6}. map_of pump_table (take_bit 3 (drop_bit 3 (f11 b)), bit (f15 4) 7, bit (f16 0) 0) = Some current \<and>
        bit (f11 b) 1 = bit b 1 \<and> bit (f11 b) 2 = bit b 2 \<and> \<not> bit (f11 b) 7)"

lemma pump_case_ok:
  assumes "pump_case current = Some (f11, f15, f16)"
  shows "pump_ok f11 f15 f16 current"
  using assms unfolding pump_case_def
  apply (simp_all only: option.inject prod.inject option.distinct split: if_split_asm)
  apply (elim conjE, hypsubst, simp add: pump_ok_def pump_table_def)+
  done

lemma charge_pump_decodes:
  assumes "length p = 20" "p ! 11 \<in> {0, 2, 4, 6}" "p ! 15 = 4" "p ! 16 = 0" "pump_case current \<noteq> None"
  shows "\<exists>q. charge_pump current p = Some q \<and> same_but {11, 15, 16} p q \<and> decode_pump q = Some current \<and>
    decode_filter q = decode_filter p \<and> \<not> bit (q ! 11) 7"
proof -
  obtain f11 f15 f16 where f: "pump_case current = Some (f11, f15, f16)"
    using assms(5) by (cases "pump_case current") auto
  from bspec [OF pump_case_ok [OF f, unfolded pump_ok_def] assms(2)] show ?thesis
    using assms(1,3,4) f
    by (simp add: charge_pump_def decode_pump_def pump_bits_def decode_filter_def nth_upd same_but_upd)
qed

text \<open>The output divider: what the eight forms of the loop make of byte 12.\<close>

definition divider_forms :: "(u32 \<times> nat \<times> (u8 \<Rightarrow> u8)) list" where
  "divider_forms =
    [(0, 0, \<lambda>b. (b AND 0xe7) OR 0x04), (0, 1, \<lambda>b. (b AND 0xef) OR 0x0c),
     (0, 2, \<lambda>b. (b AND 0xf7) OR 0x14), (0, 3, \<lambda>b. b OR 0x1c), (1, 0, \<lambda>b. b AND 0xe3),
     (1, 1, \<lambda>b. (b AND 0xeb) OR 0x08), (1, 2, \<lambda>b. (b AND 0xf7) OR 0x10), (1, 3, \<lambda>b. (b AND 0xfb) OR 0x18)]"

definition divides_as :: "u32 \<Rightarrow> u32 \<times> nat \<times> (u8 \<Rightarrow> u8) \<Rightarrow> nat \<Rightarrow> bool" where
  "divides_as od = (\<lambda>(y, z, f) i. od = ((of_nat i + 3) * 2 + y) * 2 ^ z)"

lemma divider_loop_finds:
  assumes "i \<in> set is" "form \<in> set divider_forms" "divides_as od form i"
  shows "\<exists>i\<in>set is. \<exists>form\<in>set divider_forms. divides_as od form i \<and>
    divider_loop od is p = upd 12 (snd (snd form)) (put_divider (of_nat i) p)"
  using assms(1)
proof (induction "is")
  case (Cons j js)
  show ?case
  proof (cases "\<exists>form\<in>set divider_forms. divides_as od form j")
    case True
    then have "\<exists>form\<in>set divider_forms. divides_as od form j \<and>
      divider_loop od (j # js) p = upd 12 (snd (snd form)) (put_divider (of_nat j) p)"
      by (auto simp: divider_forms_def divides_as_def)
    then show ?thesis by auto
  next
    case False
    then have "j \<noteq> i" using assms(2,3) by blast
    moreover have "divider_loop od (j # js) p = divider_loop od js p"
      using False by (simp add: divider_forms_def divides_as_def)
    ultimately show ?thesis using Cons by auto
  qed
qed simp

definition form_ok :: "u32 \<times> nat \<times> (u8 \<Rightarrow> u8) \<Rightarrow> u8 \<Rightarrow> bool" where
  "form_ok = (\<lambda>(y, z, f) c. let b = (f (32 * c) AND 0xfe) OR 0x02 in
    take_bit 2 b = 2 \<and> drop_bit 5 b = c \<and> (if bit b 2 then 0 else 1) = y \<and>
    unat (take_bit 2 (drop_bit 3 b)) = z)"

lemma form_bytes:
  "\<forall>form\<in>set divider_forms. \<forall>c\<in>{0, 1, 2, 3, 4, 5, 6, 7}. form_ok form c"
  by (simp add: divider_forms_def form_ok_def Let_def)

lemma form_byte:
  assumes "form \<in> set divider_forms" "c < 8"
  shows "form_ok form (of_nat c)"
proof -
  have "c \<in> {0, 1, 2, 3, 4, 5, 6, 7}" using assms(2) by (simp, presburger)
  then have "(of_nat c :: u8) \<in> {0, 1, 2, 3, 4, 5, 6, 7}" by auto
  then show ?thesis using form_bytes assms(1) by blast
qed

lemma put_divider_bytes:
  assumes "k < 512" "length p = 20" "p ! 12 = 0" "p ! 13 = 0x40"
  shows "put_divider (of_nat k) p ! 12 = 32 * of_nat (k mod 8)"
    "ucast (of_nat (k mod 8) :: u8) OR push_bit 3 (ucast (take_bit 6 (put_divider (of_nat k) p ! 13))) = (of_nat k :: u32)"
proof -
  have small: "bit k n \<Longrightarrow> n < 9" for n
  proof -
    have "take_bit 9 k = k" using assms(1) by (simp add: take_bit_nat_eq_self)
    then show "bit k n \<Longrightarrow> n < 9" by (metis bit_take_bit_iff)
  qed
  have low: "bit (k mod 8) n \<longleftrightarrow> n < 3 \<and> bit k n" for n
    using bit_take_bit_iff [of 3 k n] by (simp add: take_bit_eq_mod)
  have "ucast (push_bit 5 (of_nat k :: u32)) = push_bit 5 (of_nat (k mod 8) :: u8)"
    by (rule bit_eqI) (auto simp: bit_unsigned_iff bit_push_bit_iff bit_of_nat_iff low)
  then show "put_divider (of_nat k) p ! 12 = 32 * of_nat (k mod 8)"
    using assms by (simp add: put_divider_def nth_upd push_bit_eq_mult)
  have "put_divider (of_nat k) p ! 13 = push_bit 6 1 OR ucast (drop_bit 8 (push_bit 5 (of_nat k :: u32)))"
    using assms(2,4) by (simp add: put_divider_def nth_upd Let_def)
  then have "take_bit 6 (put_divider (of_nat k) p ! 13) = ucast (drop_bit 3 (of_nat k :: u32))"
    by (intro bit_eqI) (auto simp: bit_1_iff bit_take_bit_iff bit_or_iff bit_unsigned_iff
        bit_drop_bit_eq bit_push_bit_iff bit_of_nat_iff dest: small)
  moreover have "ucast (of_nat (k mod 8) :: u8) OR push_bit 3 (ucast (ucast (drop_bit 3 (of_nat k :: u32)) :: u8)) =
      (of_nat k :: u32)"
  proof (rule bit_eqI)
    fix n assume "possible_bit TYPE(32 word) n"
    then have "n < 32" by simp
    then show "bit ((ucast (of_nat (k mod 8) :: u8) :: u32) OR
        push_bit 3 (ucast (ucast (drop_bit 3 (of_nat k :: u32)) :: u8))) n = bit (of_nat k :: u32) n"
      using small [of n]
      by (cases "n < 3") (auto simp: bit_or_iff bit_unsigned_iff bit_drop_bit_eq bit_push_bit_iff bit_of_nat_iff low)
  qed
  ultimately show "ucast (of_nat (k mod 8) :: u8) OR push_bit 3 (ucast (take_bit 6 (put_divider (of_nat k) p ! 13))) =
    (of_nat k :: u32)" by simp
qed

text \<open>The output dividers the search steps through.\<close>

definition od_searched :: "u32 \<Rightarrow> bool" where
  "od_searched od \<longleftrightarrow> 2 \<le> unat od \<and>
     (unat od \<le> 1030 \<or> unat od \<le> 2060 \<and> 2 dvd unat od \<or> unat od \<le> 4120 \<and> 4 dvd unat od
      \<or> unat od \<le> 8232 \<and> 8 dvd unat od)"

lemma divider_form_exists:
  assumes "y < 2" "z < 4"
  shows "\<exists>f. (of_nat y, z, f) \<in> set divider_forms"
proof -
  have "y = 0 \<or> y = 1" "z = 0 \<or> z = 1 \<or> z = 2 \<or> z = 3" using assms by linarith+
  then show ?thesis unfolding divider_forms_def by (elim disjE; simp; blast)
qed

lemma od_as_form:
  assumes "od_searched od" "38 \<le> unat od"
  shows "\<exists>i\<in>set [0..<512]. \<exists>form\<in>set divider_forms. divides_as od form i"
proof -
  define n where "n = unat od"
  have "\<exists>m z. n = m * 2 ^ z \<and> z < 4 \<and> 6 \<le> m \<and> m \<le> 1029"
  proof (cases "n \<le> 1029")
    case True
    then show ?thesis using assms(2) by (intro exI [of _ n] exI [of _ 0]) (simp add: n_def)
  next
    case False
    with assms(1) consider "n = 2 * 515" | m where "n = 2 * m" "n \<le> 2060" | m where "n = 4 * m" "n \<le> 4120"
      | m where "n = 8 * m" "n \<le> 8232"
    proof -
      from assms(1) consider "n \<le> 1030" | "n \<le> 2060" "2 dvd n" | "n \<le> 4120" "4 dvd n" | "n \<le> 8232" "8 dvd n"
        by (auto simp: od_searched_def n_def [symmetric])
      then show thesis
      proof cases
        case 1
        then have "n = 2 * 515" using False by linarith
        then show thesis by (rule that(1))
      qed (use that(2-4) in \<open>auto elim!: dvdE\<close>)
    qed
    then show ?thesis
    proof cases
      case 1
      then show ?thesis by (intro exI [of _ 515] exI [of _ 1]) simp
    next
      case 2
      show ?thesis
      proof (cases "m = 1030")
        case True
        then show ?thesis using 2 by (intro exI [of _ 515] exI [of _ 2]) simp
      next
        case m: False
        then show ?thesis using 2 False by (intro exI [of _ m] exI [of _ 1]) simp
      qed
    next
      case 3
      show ?thesis
      proof (cases "m = 1030")
        case True
        then show ?thesis using 3 by (intro exI [of _ 515] exI [of _ 3]) simp
      next
        case m: False
        then show ?thesis using 3 False by (intro exI [of _ m] exI [of _ 2]) simp
      qed
    next
      case 4
      then show ?thesis using False by (intro exI [of _ m] exI [of _ 3]) simp
    qed
  qed
  then obtain m z where m: "n = m * 2 ^ z" "z < 4" "6 \<le> m" "m \<le> 1029" by blast
  from divider_form_exists [of "m mod 2" z] m(2) obtain f where
    f: "(of_nat (m mod 2), z, f) \<in> set divider_forms" by auto
  define i y where "i = m div 2 - 3" and "y = m mod 2"
  have "m = m div 2 * 2 + y" by (simp add: y_def)
  moreover have "m div 2 = i + 3" using m(3) by (simp add: i_def)
  ultimately have "n = ((i + 3) * 2 + y) * 2 ^ z" using m(1) by simp
  moreover have "(of_nat (((i + 3) * 2 + y) * 2 ^ z) :: u32) = ((of_nat i + 3) * 2 + of_nat y) * 2 ^ z"
    by simp
  moreover have "od = of_nat n" by (simp add: n_def)
  ultimately have "divides_as od (of_nat y, z, f) i" by (simp only: divides_as_def prod.case)
  moreover have "i \<in> set [0..<512]" using m(4) by (simp add: i_def)
  ultimately show ?thesis using f unfolding y_def by blast
qed

text \<open>What the output divider leaves of byte 11.\<close>

lemma keep_byte_11:
  fixes b :: u8
  shows "bit (b AND 0x7f) 1 = bit b 1" "bit (b AND 0x7f) 2 = bit b 2" "\<not> bit (b AND 0x7f) 7"
    "bit (b OR 0x80) 1 = bit b 1" "bit (b OR 0x80) 2 = bit b 2" "bit (b OR 0x80) 7"
    "take_bit 3 (drop_bit 3 (b AND 0x7f)) = take_bit 3 (drop_bit 3 b)"
    "take_bit 3 (drop_bit 3 (b OR 0x80)) = take_bit 3 (drop_bit 3 b)"
proof -
  have m: "(0x7f :: u8) = mask 7" "(0x80 :: u8) = push_bit 7 1" by (simp_all add: mask_eq_exp_minus_1)
  show "bit (b AND 0x7f) 1 = bit b 1" "bit (b AND 0x7f) 2 = bit b 2" "\<not> bit (b AND 0x7f) 7"
    "bit (b OR 0x80) 1 = bit b 1" "bit (b OR 0x80) 2 = bit b 2" "bit (b OR 0x80) 7"
    by (simp_all add: bit_and_iff bit_or_iff)
  show "take_bit 3 (drop_bit 3 (b AND 0x7f)) = take_bit 3 (drop_bit 3 b)"
    "take_bit 3 (drop_bit 3 (b OR 0x80)) = take_bit 3 (drop_bit 3 b)" unfolding m
    by (rule bit_eqI; auto simp: bit_take_bit_iff bit_drop_bit_eq bit_and_iff bit_or_iff bit_mask_iff
        bit_push_bit_iff bit_1_iff)+
qed

definition output_ok :: "u8 list \<Rightarrow> u32 \<Rightarrow> u8 list \<Rightarrow> bool" where
  "output_ok p od q \<longleftrightarrow> same_but {11, 12, 13} p q \<and> decode_output q = Some od \<and>
     q ! 11 \<in> {(p ! 11) AND 0x7f, (p ! 11) OR 0x80}"

lemma output_divider_small:
  assumes "length p = 20" "p ! 12 = 0" "p ! 13 = 0x40" "2 \<le> unat od" "unat od < 38"
  shows "\<exists>q. output_divider od p = Some q \<and> output_ok p od q"
proof -
  define n where "n = unat od"
  have od: "od = of_nat n" "2 \<le> n" "n < 38" using assms(4,5) by (simp_all add: n_def)
  then have "n \<in> {2, 3, 4, 5, 6, 7, 8, 9, 10, 11, 12, 13, 14, 15, 16, 17, 18, 19, 20, 21, 22, 23, 24,
      25, 26, 27, 28, 29, 30, 31, 32, 33, 34, 35, 36, 37}" by (simp, presburger)
  then show ?thesis unfolding od(1) using assms(1-3)
    by (elim insertE emptyE;
      simp add: output_divider_def output_ok_def decode_output_def Let_def nth_upd same_but_upd keep_byte_11)
qed

lemma output_divider_large:
  assumes "length p = 20" "p ! 12 = 0" "p ! 13 = 0x40" "od_searched od" "38 \<le> unat od"
  shows "\<exists>q. output_divider od p = Some q \<and> output_ok p od q"
proof -
  from od_as_form [OF assms(4,5)] obtain i0 form0 where "i0 \<in> set [0..<512]"
    "form0 \<in> set divider_forms" "divides_as od form0 i0" by blast
  from divider_loop_finds [OF this, of p] obtain i y z f where i: "i < 512" "(y, z, f) \<in> set divider_forms"
    "divides_as od (y, z, f) i" "divider_loop od [0..<512] p = upd 12 f (put_divider (of_nat i) p)" by auto
  note bytes = put_divider_bytes [OF i(1) assms(1-3)]
  have "i mod 8 < 8" by simp
  from form_byte [OF i(2) this] have form: "form_ok (y, z, f) (of_nat (i mod 8))" .
  let ?q = "upd 12 (\<lambda>b. (b AND 0xfe) OR 0x02) (upd 11 (\<lambda>b. b OR 0x80) (upd 12 f (put_divider (of_nat i) p)))"
  have big: "\<not> od \<le> 37" "od \<le> 8232" "2 \<le> od" "od \<notin> {2, 3, 4, 5, 6, 7, 11, 9, 13, 8, 10, 12}"
    using assms(4,5) by (auto simp: od_searched_def word_le_nat_alt)
  then have "output_divider od p = Some ?q" by (simp add: output_divider_def i(4))
  moreover have "decode_output ?q = Some od"
    using form bytes assms(1) i(3)
    by (simp add: decode_output_def form_ok_def Let_def nth_upd put_divider_def keep_byte_11 divides_as_def)
  moreover have "same_but {11, 12, 13} p ?q"
    unfolding put_divider_def Let_def by (intro same_but_upd same_but_refl) simp_all
  moreover have "?q ! 11 = (p ! 11) OR 0x80" using assms(1) by (simp add: nth_upd put_divider_def Let_def)
  ultimately show ?thesis by (simp add: output_ok_def)
qed

lemma same_butD: "same_but ks p q \<Longrightarrow> k \<notin> ks \<Longrightarrow> q ! k = p ! k" "same_but ks p q \<Longrightarrow> length q = length p"
  by (simp_all add: same_but_def)

lemma output_divider_decodes:
  assumes "length p = 20" "p ! 12 = 0" "p ! 13 = 0x40" "od_searched od"
  shows "\<exists>q. output_divider od p = Some q \<and> same_but {11, 12, 13} p q \<and> decode_output q = Some od \<and>
    decode_filter q = decode_filter p \<and> decode_pump q = decode_pump p"
proof -
  have "2 \<le> unat od" using assms(4) by (simp add: od_searched_def)
  then obtain q where q: "output_divider od p = Some q" "output_ok p od q"
    using output_divider_small [OF assms(1-3)] output_divider_large [OF assms] by (meson not_less)
  then have same: "same_but {11, 12, 13} p q" and b: "q ! 11 = (p ! 11) AND 0x7f \<or> q ! 11 = (p ! 11) OR 0x80"
    by (auto simp: output_ok_def)
  from same have "q ! 15 = p ! 15" "q ! 16 = p ! 16" by (simp_all add: same_butD(1))
  with b have "decode_filter q = decode_filter p \<and> decode_pump q = decode_pump p"
    by (auto simp only: decode_filter_def decode_pump_def pump_bits_def keep_byte_11)
  with q same show ?thesis by (auto simp: output_ok_def)
qed

lemma program_703_decodes:
  assumes "1 \<le> r" "r \<le> 2055" "12 \<le> v" "v \<le> 2055" "resistor \<in> {64000, 52000, 16000, 4000}"
    and "pump_case current \<noteq> None" "od_searched od"
  shows "\<exists>q. program_703 r v resistor current od = Inr q \<and> length q = 20 \<and>
    decode_input q = r \<and> decode_vco q = v \<and> decode_filter q = resistor \<and>
    decode_pump q = Some current \<and> decode_output q = Some od"
proof -
  have start: "length progdata = 20" "progdata ! 0 = 0" "progdata ! 1 = 0" "progdata ! 2 = 0"
    "progdata ! 11 = 0" "progdata ! 12 = 0" "progdata ! 13 = 0x40" "progdata ! 15 = 4" "progdata ! 16 = 0"
    by (simp_all add: progdata_def upd_def)
  obtain p1 where p1: "input_divider r progdata = Some p1" "same_but {0, 1} progdata p1"
    "decode_input p1 = r" "take_bit 5 (p1 ! 1) = p1 ! 1"
    using input_divider_decodes [OF start(1-3) assms(1,2)] by blast
  have s1: "length p1 = 20" "p1 ! 2 = 0" "p1 ! 11 = 0" "p1 ! 12 = 0" "p1 ! 13 = 0x40" "p1 ! 15 = 4" "p1 ! 16 = 0"
    using start by (simp_all add: same_butD [OF p1(2)])
  obtain p2 where p2: "vco_divider v p1 = Some p2" "same_but {1, 2} p1 p2" "decode_vco p2 = v"
    "decode_input p2 = r"
    using vco_divider_decodes [OF s1(1) p1(4) s1(2) assms(3,4)] p1(3) by auto
  have s2: "length p2 = 20" "p2 ! 11 = 0" "p2 ! 12 = 0" "p2 ! 13 = 0x40" "p2 ! 15 = 4" "p2 ! 16 = 0"
    using s1 by (simp_all add: same_butD [OF p2(2)])
  obtain p3 where p3: "loop_filter resistor p2 = Some p3" "same_but {11} p2 p3" "decode_filter p3 = resistor"
    "p3 ! 11 \<in> {0, 2, 4, 6}"
    using loop_filter_decodes [OF s2(1,2) assms(5)] by blast
  have s3: "length p3 = 20" "p3 ! 12 = 0" "p3 ! 13 = 0x40" "p3 ! 15 = 4" "p3 ! 16 = 0"
    using s2 by (simp_all add: same_butD [OF p3(2)])
  obtain p4 where p4: "charge_pump current p3 = Some p4" "same_but {11, 15, 16} p3 p4"
    "decode_pump p4 = Some current" "decode_filter p4 = resistor"
    using charge_pump_decodes [OF s3(1) p3(4) s3(4,5) assms(6)] p3(3) by auto
  have s4: "length p4 = 20" "p4 ! 12 = 0" "p4 ! 13 = 0x40"
    using s3 by (simp_all add: same_butD [OF p4(2)])
  obtain q where q: "output_divider od p4 = Some q" "same_but {11, 12, 13} p4 q"
    "decode_output q = Some od" "decode_filter q = resistor" "decode_pump q = Some current"
    using output_divider_decodes [OF s4 assms(7)] p4(3,4) by auto
  have "q ! 0 = p2 ! 0" "q ! 1 = p2 ! 1" "q ! 2 = p2 ! 2"
    by (simp_all add: same_butD [OF q(2)] same_butD [OF p4(2)] same_butD [OF p3(2)])
  then have "decode_input q = decode_input p2" "decode_vco q = decode_vco p2"
    unfolding decode_input_def decode_vco_def by (simp_all only:)
  then have "decode_input q = r" "decode_vco q = v" using p2(3,4) by simp_all
  moreover have "length q = 20" using s4(1) by (simp add: same_butD(2) [OF q(2)])
  moreover have "program_703 r v resistor current od = Inr q"
    by (simp add: program_703_def p1(1) p2(1) p3(1) p4(1) q(1))
  ultimately show ?thesis using q(3-5) by blast
qed

end
