(* ===== verification/Fscc_Clockgen.thy ===== *)
theory Fscc_Clockgen
  imports Complex_Main Fscc_Ics703 Fscc_Progdata
begin

text \<open>
  The library's entry points for the ICS307-03: the search (\<open>Fscc_Ics703\<close>) followed by the
  programming of the bytes (\<open>Fscc_Progdata\<close>). Shown here: the search ends and is exhaustive,
  so the smallest error that has a solution is the one used, and the bytes read back as the
  dividers and the filter of that solution.
\<close>

section \<open>Model\<close>

definition GetICS30703Data :: "'d doubles \<Rightarrow> clock_data_fscc \<Rightarrow> u32 \<Rightarrow> (u32 \<times> clock_data_fscc) option" where
  "GetICS30703Data D clock_data requestedppm =
     (let desired = frequency clock_data; clock_data = clock_data\<lparr>frequency := 0\<rparr>
      in case ppm_loop D desired requestedppm 0 of
           None \<Rightarrow> None
         | Some None \<Rightarrow> Some (2, clock_data)
         | Some (Some x) \<Rightarrow>
             (case program_703 (refDiv x) (VCO_Div x) (filter_Rs x) (filter_icpnum x) (outDiv x) of
                Inl error \<Rightarrow> Some (error, clock_data)
              | Inr bits \<Rightarrow> Some (0, clock_data\<lparr>frequency := to_ulong D (freq x), clock_bits := bits\<rparr>)))"

definition calculate_clock_bits_fscc ::
  "'d doubles \<Rightarrow> clock_data_fscc \<Rightarrow> u32 \<Rightarrow> (u32 \<times> clock_data_fscc) option" where
  "calculate_clock_bits_fscc D clock_data ppm =
     map_option (\<lambda>(t, clock_data). (if t = 0 then 0 else 1, clock_data)) (GetICS30703Data D clock_data ppm)"

definition calculate_clock_bits_asynccom ::
  "'d doubles \<Rightarrow> clock_data_fscc \<Rightarrow> u32 \<Rightarrow> (u32 \<times> clock_data_fscc) option" where
  "calculate_clock_bits_asynccom D clock_data ppm = calculate_clock_bits_fscc D clock_data ppm"

definition calculate_clock_bits_synccom ::
  "'d doubles \<Rightarrow> clock_data_fscc \<Rightarrow> u32 \<Rightarrow> (u32 \<times> clock_data_fscc) option" where
  "calculate_clock_bits_synccom D clock_data ppm = calculate_clock_bits_fscc D clock_data ppm"

section \<open>What the search accepts\<close>

text \<open>The tests of the code on one choice of dividers and filter, without its loops.\<close>

definition dividers_703 :: "'d doubles \<Rightarrow> u32 \<Rightarrow> 'd \<Rightarrow> u32 \<Rightarrow> u32 \<Rightarrow> u32 \<Rightarrow> bool" where
  "dividers_703 D desired err r od v \<longleftrightarrow>
     1 \<le> r \<and> r \<le> maxR \<and> od_searched od \<and> V_Divstart D desired err r od \<le> v \<and> v \<le> max_V \<and>
     \<not> rule2_fails D r \<and> \<not> rule1_fails D r od v \<and>
     \<not> less_d D err (freq_err D desired r od v) \<and> le_d D (freq_err D desired r od v) err"

definition solution_ok :: "'d doubles \<Rightarrow> u32 \<Rightarrow> 'd \<Rightarrow> 'd solution_703 \<Rightarrow> bool" where
  "solution_ok D desired err x \<longleftrightarrow>
     dividers_703 D desired err (refDiv x) (outDiv x) (VCO_Div x) \<and>
     filter_Rs x \<in> set Rs_table \<and> filter_icpnum x \<in> set icp_table \<and>
     \<not> filter_fails D (refDiv x) (VCO_Div x) (filter_Rs x) (filter_icpnum x) \<and>
     freq x = freq_703 D (refDiv x) (outDiv x) (VCO_Div x)"

lemma icp_loop_result:
  "(case icp_loop D r v Rs cs of
      None \<Rightarrow> \<forall>c\<in>set cs. filter_fails D r v Rs c
    | Some c \<Rightarrow> c \<in> set cs \<and> \<not> filter_fails D r v Rs c)"
  by (induction cs) (auto split: option.splits)

lemma Rs_loop_result:
  "(case Rs_loop D r v Rss of
      None \<Rightarrow> \<forall>Rs\<in>set Rss. \<forall>c\<in>set icp_table. filter_fails D r v Rs c
    | Some (Rs, c) \<Rightarrow> Rs \<in> set Rss \<and> c \<in> set icp_table \<and> \<not> filter_fails D r v Rs c)"
proof (induction Rss)
  case (Cons Rs Rss)
  then show ?case using icp_loop_result [where D = D and r = r and v = v and Rs = Rs and cs = icp_table] by (auto split: option.splits prod.splits)
qed simp

text \<open>What one choice of dividers gives: a solution with them, or that there is none.\<close>

definition decides :: "'d solution_703 option \<Rightarrow> ('d solution_703 \<Rightarrow> bool) \<Rightarrow> ('d solution_703 \<Rightarrow> bool) \<Rightarrow> bool" where
  "decides result P Q \<longleftrightarrow> (case result of None \<Rightarrow> \<forall>x. Q x \<longrightarrow> \<not> P x | Some x \<Rightarrow> Q x \<and> P x)"

lemma decides_None:
  "decides None P Q1 \<Longrightarrow> decides b P Q2 \<Longrightarrow> \<forall>x. Q x = (Q1 x \<or> Q2 x) \<Longrightarrow> decides b P Q"
  by (auto simp: decides_def split: option.splits)

lemma decides_Some:
  "decides (Some x) P Q1 \<Longrightarrow> \<forall>x. Q1 x \<longrightarrow> Q x \<Longrightarrow> decides (Some x) P Q"
  by (simp add: decides_def)

lemma decides_nothing: "\<forall>x. \<not> Q x \<Longrightarrow> decides None P Q"
  by (simp add: decides_def)

definition found_with :: "'d doubles \<Rightarrow> u32 \<Rightarrow> 'd \<Rightarrow> 'd solution_703 \<Rightarrow> bool" where
  "found_with D desired err x \<longleftrightarrow>
     \<not> rule1_fails D (refDiv x) (outDiv x) (VCO_Div x) \<and>
     \<not> less_d D err (freq_err D desired (refDiv x) (outDiv x) (VCO_Div x)) \<and>
     le_d D (freq_err D desired (refDiv x) (outDiv x) (VCO_Div x)) err \<and>
     filter_Rs x \<in> set Rs_table \<and> filter_icpnum x \<in> set icp_table \<and>
     \<not> filter_fails D (refDiv x) (VCO_Div x) (filter_Rs x) (filter_icpnum x) \<and>
     freq x = freq_703 D (refDiv x) (outDiv x) (VCO_Div x)"

lemma try_703_decides:
  "decides (try_703 D desired err r od v) (found_with D desired err)
     (\<lambda>x. refDiv x = r \<and> outDiv x = od \<and> VCO_Div x = v)"
  using Rs_loop_result [where D = D and r = r and v = v and Rss = Rs_table]
  by (auto simp: decides_def try_703_def found_with_def split: option.splits prod.splits)

lemma v_loop_decides:
  "decides (v_loop D desired err r od v) (found_with D desired err)
     (\<lambda>x. refDiv x = r \<and> outDiv x = od \<and> v \<le> VCO_Div x \<and> VCO_Div x \<le> max_V)"
proof (induction D desired err r od v rule: v_loop.induct)
  case (1 D desired err r od v)
  show ?case
  proof (cases "v \<le> max_V")
    case False
    then show ?thesis
      by (subst v_loop.simps) (use order_trans [of v _ max_V] in \<open>auto simp: decides_def\<close>)
  next
    case True
    have "unat (v + 1) = unat v + 1" by (rule unat_next [OF True]) simp
    then have le: "v \<le> w \<longleftrightarrow> w = v \<or> v + 1 \<le> w" for w
      by (auto simp: word_le_nat_alt word_unat_eq_iff)
    show ?thesis
    proof (cases "try_703 D desired err r od v")
      case None
      have "v_loop D desired err r od v = v_loop D desired err r od (v + 1)"
        using True None by (simp add: v_loop.simps [of D desired err r od v])
      moreover have "decides (v_loop D desired err r od (v + 1)) (found_with D desired err)
          (\<lambda>x. refDiv x = r \<and> outDiv x = od \<and> v \<le> VCO_Div x \<and> VCO_Div x \<le> max_V)"
        by (rule decides_None [OF try_703_decides [of D desired err r od v, unfolded None] "1.IH" [OF True None]])
          (use True le in auto)
      ultimately show ?thesis by simp
    next
      case (Some x)
      have "v_loop D desired err r od v = Some x"
        using True Some by (simp add: v_loop.simps [of D desired err r od v])
      moreover have "decides (Some x) (found_with D desired err)
          (\<lambda>x. refDiv x = r \<and> outDiv x = od \<and> v \<le> VCO_Div x \<and> VCO_Div x \<le> max_V)"
        by (rule decides_Some [OF try_703_decides [of D desired err r od v, unfolded Some]])
          (use True in auto)
      ultimately show ?thesis by simp
    qed
  qed
qed

text \<open>The steps of the output divider skip none of the searched ones.\<close>

lemma od_searched_multiple:
  assumes "od_searched od"
  shows "1030 < unat od \<Longrightarrow> 2 dvd unat od" "2060 < unat od \<Longrightarrow> 4 dvd unat od"
    "4120 < unat od \<Longrightarrow> 8 dvd unat od"
  using assms unfolding od_searched_def by presburger+

lemma unat_next_od:
  assumes "od_searched od"
  shows "unat (next_od od) = (if unat od \<le> 1030 then unat od - 1 else if unat od \<le> 2060 then unat od - 2
    else if unat od \<le> 4120 then unat od - 4 else unat od - 8)"
proof -
  have "2 \<le> unat od" using assms by (simp add: od_searched_def)
  then show ?thesis by (simp add: next_od_def word_le_nat_alt unat_sub)
qed

lemma next_od_skips:
  assumes "od_searched od" "od_searched o'" "unat o' < unat od"
  shows "unat o' \<le> unat (next_od od)"
proof -
  note n = od_searched_multiple [OF assms(1)]
  note m = od_searched_multiple [OF assms(2)]
  consider "unat od \<le> 1030" | "1030 < unat od" "unat od \<le> 2060" | "2060 < unat od" "unat od \<le> 4120"
    | "4120 < unat od" by linarith
  then show ?thesis
  proof cases
    case 2
    then have "unat o' \<le> unat od - 2" using n(1) m(1) assms(3) by presburger
    then show ?thesis using 2 by (simp add: unat_next_od [OF assms(1)])
  next
    case 3
    then have "unat o' \<le> unat od - 4" using n(2) m(2) assms(3) by presburger
    then show ?thesis using 3 by (simp add: unat_next_od [OF assms(1)])
  next
    case 4
    then have "unat o' \<le> unat od - 8" using n(3) m(3) assms(3) by presburger
    then show ?thesis using 4 by (simp add: unat_next_od [OF assms(1)])
  qed (use assms(3) in \<open>simp add: unat_next_od [OF assms(1)]\<close>)
qed

lemma next_od_searched:
  assumes "od_searched od"
  shows "od_searched (next_od od) \<or> next_od od = 1"
proof -
  note n = od_searched_multiple [OF assms]
  have two: "2 \<le> unat od" and top: "unat od \<le> 8232" using assms by (auto simp: od_searched_def)
  consider "unat od \<le> 1030" | "1030 < unat od" "unat od \<le> 2060" | "2060 < unat od" "unat od \<le> 4120"
    | "4120 < unat od" by linarith
  then show ?thesis
  proof cases
    case 1
    then show ?thesis using two
      by (auto simp: od_searched_def unat_next_od [OF assms] word_unat_eq_iff)
  next
    case 2
    then have "2 dvd unat od - 2" "2 \<le> unat od - 2" "unat od - 2 \<le> 2060" using n(1) by presburger+
    then show ?thesis using 2 by (simp add: od_searched_def unat_next_od [OF assms])
  next
    case 3
    then have "4 dvd unat od - 4" "2 \<le> unat od - 4" "unat od - 4 \<le> 4120" using n(2) by presburger+
    then show ?thesis using 3 by (simp add: od_searched_def unat_next_od [OF assms])
  next
    case 4
    then have "8 dvd unat od - 8" "2 \<le> unat od - 8" "unat od - 8 \<le> 8232" using n(3) top by presburger+
    then show ?thesis using 4 by (simp add: od_searched_def unat_next_od [OF assms])
  qed
qed

lemma od_loop_decides:
  assumes "od_searched od \<or> od = 1"
  shows "decides (od_loop_703 D desired err r od) (found_with D desired err)
     (\<lambda>x. refDiv x = r \<and> od_searched (outDiv x) \<and> outDiv x \<le> od \<and>
        V_Divstart D desired err r (outDiv x) \<le> VCO_Div x \<and> VCO_Div x \<le> max_V)"
    (is "decides _ _ (?Q od)")
  using assms
proof (induction D desired err r od rule: od_loop_703.induct)
  case (1 D desired err r od)
  show ?case
  proof (cases "1 < od")
    case False
    then have "od = 1" using "1.prems" by (auto simp: od_searched_def word_less_nat_alt)
    then have "\<not> (od_searched o' \<and> o' \<le> od)" for o'
      by (auto simp: od_searched_def word_le_nat_alt)
    with False show ?thesis by (subst od_loop_703.simps) (auto intro!: decides_nothing)
  next
    case True
    then have od: "od_searched od" using "1.prems" by auto
    have le: "od_searched o' \<and> o' \<le> od \<longleftrightarrow> o' = od \<or> od_searched o' \<and> o' \<le> next_od od" for o'
    proof (cases "o' = od")
      case False
      then have "unat o' \<noteq> unat od" by (simp add: word_unat_eq_iff)
      with False show ?thesis using next_od_skips [OF od, of o'] next_od_less [OF True]
        by (auto simp: word_le_nat_alt word_less_nat_alt)
    qed (simp add: od)
    let ?v = "V_Divstart D desired err r od"
    note v_loop = v_loop_decides [of D desired err r od ?v]
    show ?thesis
    proof (cases "v_loop D desired err r od ?v")
      case None
      have "od_loop_703 D desired err r od = od_loop_703 D desired err r (next_od od)"
        using True None by (simp add: od_loop_703.simps [of D desired err r od])
      moreover note that = decides_None [OF v_loop [unfolded None] "1.IH" [OF True None next_od_searched [OF od]]]
      have "decides (od_loop_703 D desired err r (next_od od)) (found_with D desired err)
        (\<lambda>x. refDiv x = r \<and> od_searched (outDiv x) \<and> outDiv x \<le> od \<and>
          V_Divstart D desired err r (outDiv x) \<le> VCO_Div x \<and> VCO_Div x \<le> max_V)"
      proof (rule that, intro allI)
        fix x :: "'a solution_703"
        show "(refDiv x = r \<and> od_searched (outDiv x) \<and> outDiv x \<le> od \<and>
            V_Divstart D desired err r (outDiv x) \<le> VCO_Div x \<and> VCO_Div x \<le> max_V) =
          ((refDiv x = r \<and> outDiv x = od \<and> ?v \<le> VCO_Div x \<and> VCO_Div x \<le> max_V) \<or>
           refDiv x = r \<and> od_searched (outDiv x) \<and> outDiv x \<le> next_od od \<and>
            V_Divstart D desired err r (outDiv x) \<le> VCO_Div x \<and> VCO_Div x \<le> max_V)"
          using le [of "outDiv x"] by auto
      qed
      ultimately show ?thesis by simp
    next
      case (Some x)
      have "od_loop_703 D desired err r od = Some x"
        using True Some by (simp add: od_loop_703.simps [of D desired err r od])
      moreover from decides_Some [OF v_loop [unfolded Some]]
      have "decides (Some x) (found_with D desired err)
        (\<lambda>x. refDiv x = r \<and> od_searched (outDiv x) \<and> outDiv x \<le> od \<and>
          V_Divstart D desired err r (outDiv x) \<le> VCO_Div x \<and> VCO_Div x \<le> max_V)"
        using od by auto
      ultimately show ?thesis by simp
    qed
  qed
qed

lemma one_r_decides:
  assumes "1 \<le> r" "r \<le> maxR"
  shows "decides (if rule2_fails D r then None else od_loop_703 D desired err r 8232)
      (solution_ok D desired err) (\<lambda>x. refDiv x = r)"
proof (cases "rule2_fails D r")
  case True
  then show ?thesis by (auto simp: decides_def solution_ok_def dividers_703_def)
next
  case False
  have "od_searched 8232" "od_searched o' \<Longrightarrow> o' \<le> 8232" for o'
    by (auto simp: od_searched_def word_le_nat_alt)
  with False od_loop_decides [of 8232 D desired err r] assms show ?thesis
    by (auto simp: decides_def solution_ok_def dividers_703_def found_with_def split: option.splits)
qed

lemma r_loop_decides:
  assumes "1 \<le> r"
  shows "decides (r_loop D desired err r) (solution_ok D desired err) (\<lambda>x. r \<le> refDiv x)"
  using assms
proof (induction D desired err r rule: r_loop.induct)
  case (1 D desired err r)
  show ?case
  proof (cases "r \<le> maxR")
    case False
    have "\<not> (r \<le> refDiv x \<and> solution_ok D desired err x)" for x
      using order_trans [of r "refDiv x" maxR] False by (auto simp: solution_ok_def dividers_703_def)
    then show ?thesis using False by (subst r_loop.simps) (auto simp: decides_def)
  next
    case True
    let ?e = "if rule2_fails D r then None else od_loop_703 D desired err r 8232"
    have "unat (r + 1) = unat r + 1" by (rule unat_next [OF True]) simp
    then have le: "r \<le> s \<longleftrightarrow> s = r \<or> r + 1 \<le> s" and up: "1 \<le> r + 1" for s
      by (auto simp: word_le_nat_alt word_unat_eq_iff)
    show ?thesis
    proof (cases ?e)
      case None
      have step: "r_loop D desired err r = r_loop D desired err (r + 1)"
        using True None by (simp add: r_loop.simps [of D desired err r] split: if_splits)
      have "decides (r_loop D desired err (r + 1)) (solution_ok D desired err) (\<lambda>x. r + 1 \<le> refDiv x)"
        using "1.IH"(1) [OF True _ up] "1.IH"(2) [OF True _ _ up] None by (auto split: if_splits)
      then show ?thesis unfolding step
        by (rule decides_None [OF one_r_decides [OF "1.prems" True, of D desired err, unfolded None]])
          (use le in auto)
    next
      case (Some x)
      have step: "r_loop D desired err r = Some x"
        using True Some by (simp add: r_loop.simps [of D desired err r] split: if_splits)
      from decides_Some [OF one_r_decides [OF "1.prems" True, of D desired err, unfolded Some]] show ?thesis unfolding step by auto
    qed
  qed
qed

lemma r_loop_result:
  "case r_loop D desired err 1 of
    None \<Rightarrow> \<forall>x. \<not> solution_ok D desired err x
  | Some x \<Rightarrow> solution_ok D desired err x"
  using r_loop_decides [of 1 D desired err]
  by (auto simp: decides_def solution_ok_def dividers_703_def split: option.splits)

definition no_solution :: "'d doubles \<Rightarrow> u32 \<Rightarrow> u32 \<Rightarrow> bool" where
  "no_solution D desired ppm \<longleftrightarrow> (\<forall>x. \<not> solution_ok D desired (allowable_error D ppm desired) x)"

lemma ppm_loop_result:
  assumes "requestedppm \<noteq> 0xffffffff" "ppm \<le> requestedppm"
  shows "case ppm_loop D desired requestedppm ppm of
    None \<Rightarrow> False
  | Some None \<Rightarrow> \<forall>p. ppm \<le> p \<and> p \<le> requestedppm \<longrightarrow> no_solution D desired p
  | Some (Some x) \<Rightarrow> \<exists>p. ppm \<le> p \<and> p \<le> requestedppm \<and> solution_ok D desired (allowable_error D p desired) x \<and>
      (\<forall>p'. ppm \<le> p' \<and> p' < p \<longrightarrow> no_solution D desired p')"
  using assms(2)
proof (induction "unat requestedppm - unat ppm" arbitrary: ppm rule: less_induct)
  case less
  let ?r = "r_loop D desired (allowable_error D ppm desired) 1"
  note r_loop = r_loop_result [of D desired "allowable_error D ppm desired"]
  have "unat requestedppm < 2 ^ 32 - 1"
  proof -
  have "unat requestedppm \<noteq> 2 ^ 32 - 1" using assms(1) by (simp add: word_unat_eq_iff)
  moreover have "unat requestedppm < 2 ^ LENGTH(32)" by (rule unsigned_less)
    ultimately show ?thesis by simp
  qed
  then have "unat ppm < 2 ^ 32 - 1" using less.prems by (simp add: word_le_nat_alt)
  then have up: "unat (ppm + 1) = unat ppm + 1" by (simp add: unat_word_ariths)
  have le: "ppm \<le> p \<longleftrightarrow> p = ppm \<or> ppm + 1 \<le> p" for p
  by (auto simp: word_le_nat_alt word_unat_eq_iff up)
  show ?case
  proof (cases ?r)
  case (Some x)
  then have "ppm_loop D desired requestedppm ppm = Some (Some x)" by (simp add: ppm_loop.simps)
  moreover have "solution_ok D desired (allowable_error D ppm desired) x" using r_loop Some by simp
  ultimately show ?thesis using less.prems by (auto intro!: exI [of _ ppm])
  next
  case None
  then have none: "no_solution D desired ppm" using r_loop by (simp add: no_solution_def)
  show ?thesis
  proof (cases "ppm + 1 > requestedppm")
    case True
    then have run: "ppm_loop D desired requestedppm ppm = Some None" using None by (simp add: ppm_loop.simps)
    have "p = ppm" if "ppm \<le> p" "p \<le> requestedppm" for p
      using that True le [of p] by (auto simp: word_le_nat_alt word_less_nat_alt)
    with none run show ?thesis by auto
  next
    case False
    then have next_ppm: "ppm + 1 \<le> requestedppm" by simp
    have run: "ppm_loop D desired requestedppm ppm = ppm_loop D desired requestedppm (ppm + 1)"
      using None False by (subst ppm_loop.simps) simp
    have "unat requestedppm - unat (ppm + 1) < unat requestedppm - unat ppm"
      using next_ppm up by (simp add: word_le_nat_alt)
    from less.hyps [OF this next_ppm] none show ?thesis
      unfolding run by (auto simp: le split: option.splits)
  qed
  qed
qed

text \<open>The search for ever when nothing is found and every error is allowed.\<close>

lemma ppm_loop_ends:
  assumes "ppm_loop D desired requestedppm ppm = Some y"
  shows "requestedppm \<noteq> 0xffffffff \<or> (\<exists>p. \<not> no_solution D desired p)"
proof (rule ppm_loop.raw_induct [where P = "\<lambda>D desired r ppm y.
      r \<noteq> 0xffffffff \<or> (\<exists>p. \<not> no_solution D desired p)", OF _ assms], goal_cases)
  case (1 loop D desired requestedppm ppm y)
  show ?case
  proof (cases "r_loop D desired (allowable_error D ppm desired) 1")
    case None
    then have "requestedppm < ppm + 1 \<or> loop D desired requestedppm (ppm + 1) = Some y"
      using 1(2) by (auto split: if_splits)
    moreover have "\<not> (0xffffffff < ppm + 1)"
    proof -
      have "unat (ppm + 1) < 2 ^ LENGTH(32)" by (rule unsigned_less)
      then show ?thesis by (simp add: word_less_nat_alt)
    qed
    ultimately show ?thesis using 1(1) by auto
  next
    case (Some x)
    then have "\<not> no_solution D desired ppm"
      using r_loop_result [of D desired "allowable_error D ppm desired"] by (auto simp: no_solution_def)
    then show ?thesis by blast
  qed
qed

lemma ppm_loop_diverges:
  assumes "\<And>p. no_solution D desired p"
  shows "ppm_loop D desired 0xffffffff ppm = None"
  using ppm_loop_ends [of D desired "0xffffffff" ppm] assms
  by (cases "ppm_loop D desired 0xffffffff ppm") auto

lemma solution_ok_programs:
  assumes "solution_ok D desired err x"
  shows "\<exists>bits. program_703 (refDiv x) (VCO_Div x) (filter_Rs x) (filter_icpnum x) (outDiv x) = Inr bits \<and>
    length bits = 20 \<and> decode_input bits = refDiv x \<and> decode_vco bits = VCO_Div x \<and>
    decode_filter bits = filter_Rs x \<and> decode_pump bits = Some (filter_icpnum x) \<and>
    decode_output bits = Some (outDiv x)"
proof (rule program_703_decodes)
  have d: "dividers_703 D desired err (refDiv x) (outDiv x) (VCO_Div x)"
    using assms by (simp add: solution_ok_def)
  then show "1 \<le> refDiv x" "VCO_Div x \<le> 2055" "od_searched (outDiv x)"
    by (simp_all add: dividers_703_def)
  from d have r: "refDiv x \<le> 1200" "V_Divstart D desired err (refDiv x) (outDiv x) \<le> VCO_Div x"
    by (simp_all add: dividers_703_def)
  show "refDiv x \<le> 2055" using r(1) by (rule order_trans) simp
  have "12 \<le> V_Divstart D desired err (refDiv x) (outDiv x)"
    by (auto simp: V_Divstart_def Let_def not_less)
  then show "12 \<le> VCO_Div x" using r(2) by (rule order_trans)
  show "filter_Rs x \<in> {64000, 52000, 16000, 4000}"
    using assms by (auto simp: solution_ok_def Rs_table_def)
  have "filter_icpnum x \<in> set icp_table" using assms by (simp add: solution_ok_def)
  then show "pump_case (filter_icpnum x) \<noteq> None" by (auto simp: icp_table_def pump_case_def)
qed

text \<open>Property C16. The calculation of the clock bits of an ICS307-03 ends, unless every error is
  allowed (a limit of 4294967295 ppm), and is exhaustive. When it succeeds, the twenty bytes read
  back as the dividers and the loop filter of a solution for some allowed error, no smaller error
  has a solution, and the frequency returned is the solution's. When it fails, no error up to the
  limit has a solution, and the bytes are left alone. An error of p ppm is what the code makes of it,
  p times the frequency in 32 bits, which may wrap, divided by a million; a solution is a combination
  of dividers and filter that passes the tests of the code, with a multiplier not below the code's own
  start value for the other dividers (V_Divstart).\<close>

theorem ics703_finds_solution:
  assumes "ppm \<noteq> 0xffffffff"
  shows "case calculate_clock_bits_fscc D c ppm of
      None \<Rightarrow> False
    | Some (t, c') \<Rightarrow>
        if t = 0 then
          \<exists>x p. p \<le> ppm \<and> solution_ok D (frequency c) (allowable_error D p (frequency c)) x \<and>
            (\<forall>p' < p. no_solution D (frequency c) p') \<and> frequency c' = to_ulong D (freq x) \<and>
            length (clock_bits c') = 20 \<and> decode_input (clock_bits c') = refDiv x \<and>
            decode_vco (clock_bits c') = VCO_Div x \<and> decode_filter (clock_bits c') = filter_Rs x \<and>
            decode_pump (clock_bits c') = Some (filter_icpnum x) \<and>
            decode_output (clock_bits c') = Some (outDiv x)
        else t = 1 \<and> c' = c\<lparr>frequency := 0\<rparr> \<and> (\<forall>p \<le> ppm. no_solution D (frequency c) p)"
proof -
  note search = ppm_loop_result [OF assms word_zero_le, of D "frequency c"]
  show ?thesis
  proof (cases "ppm_loop D (frequency c) ppm 0")
    case None
    with search show ?thesis by simp
  next
    case (Some result)
    show ?thesis
    proof (cases result)
      case None
      with Some search show ?thesis by (simp add: calculate_clock_bits_fscc_def GetICS30703Data_def)
    next
      case (Some x)
      with \<open>ppm_loop D (frequency c) ppm 0 = Some result\<close> search obtain p where p: "p \<le> ppm"
        "solution_ok D (frequency c) (allowable_error D p (frequency c)) x"
        "\<forall>p' < p. no_solution D (frequency c) p'" by auto
      from solution_ok_programs [OF p(2)] obtain bits where bits:
        "program_703 (refDiv x) (VCO_Div x) (filter_Rs x) (filter_icpnum x) (outDiv x) = Inr bits"
        "length bits = 20 \<and> decode_input bits = refDiv x \<and> decode_vco bits = VCO_Div x \<and>
         decode_filter bits = filter_Rs x \<and> decode_pump bits = Some (filter_icpnum x) \<and>
         decode_output bits = Some (outDiv x)" by blast
      from Some \<open>ppm_loop D (frequency c) ppm 0 = Some result\<close> bits(1)
      have "calculate_clock_bits_fscc D c ppm =
        Some (0, c\<lparr>frequency := to_ulong D (freq x), clock_bits := bits\<rparr>)"
        by (simp add: calculate_clock_bits_fscc_def GetICS30703Data_def)
      with p bits(2) show ?thesis by auto
    qed
  qed
qed

text \<open>Exact arithmetic on the reals, with the conversions of C that drop the fraction.\<close>

definition exact :: "real doubles" where
  "exact =
     \<lparr>lit = (\<lambda>m e. if 0 \<le> e then of_int m * 10 ^ nat e else of_int m / 10 ^ nat (- e)),
      dbl = of_int, mul = (*), quot = (/), minus_d = (-), sqrt_d = sqrt, fabs = abs,
      less_d = (<), le_d = (\<le>),
      to_int = (\<lambda>x. of_int (if 0 \<le> x then \<lfloor>x\<rfloor> else \<lceil>x\<rceil>)),
      to_ulong = (\<lambda>x. of_int (if 0 \<le> x then \<lfloor>x\<rfloor> else \<lceil>x\<rceil>))\<rparr>"

text \<open>A frequency the search reaches without an error: 12 MHz, from the reference divided by 3, times 12,
  divided by 8.\<close>

definition example_solution :: "real solution_703" where
  "example_solution = \<lparr>freq = 12000000, VCO_Div = 12, refDiv = 3, outDiv = 8, filter_Rs = 4000, filter_icpnum = 2000\<rparr>"

lemma example_filter: "\<not> filter_fails exact 3 12 4000 2000"
proof -
  have damping: "df exact 12 4000 2000 = 2000 * sqrt (155 / 10 ^ 9)"
    by (simp add: df_def exact_def icp_def)
  have ratio: "ratio exact 3 12 4000 2000 = 244 / 10"
    by (simp add: ratio_def exact_def icp_def pdf_def inputfreq_def Let_def)
  have "sqrt (155 / 10 ^ 9) \<le> 1 / 1000" by (rule real_le_lsqrt) (simp_all add: power2_eq_square)
  moreover have "1 / 10000 \<le> sqrt (155 / 10 ^ 9)" by (rule real_le_rsqrt) (simp add: power2_eq_square)
  ultimately show ?thesis
    by (simp add: filter_fails_def ratio damping) (simp add: exact_def)
qed

lemma example_dividers: "dividers_703 exact 12000000 (allowable_error exact 0 12000000) 3 8 12"
  by (simp add: dividers_703_def rule2_fails_def rule1_fails_def freq_err_def freq_703_def pdf_def inputfreq_def
      allowable_error_def V_Divstart_def exact_def od_searched_def Let_def)

lemma example_solution_ok: "solution_ok exact 12000000 (allowable_error exact 0 12000000) example_solution"
  using example_dividers example_filter
  by (simp add: solution_ok_def example_solution_def Rs_table_def icp_table_def freq_703_def inputfreq_def exact_def)

lemma example_calculated:
  "\<exists>c. calculate_clock_bits_fscc exact \<lparr>frequency = 12000000, clock_bits = bits\<rparr> 10 = Some (0, c)"
proof -
  have "\<not> no_solution exact 12000000 0" using example_solution_ok by (auto simp: no_solution_def)
  with ppm_loop_result [of 10 0 exact 12000000] obtain x p where
    x: "ppm_loop exact 12000000 10 0 = Some (Some x)" "solution_ok exact 12000000 (allowable_error exact p 12000000) x"
    by (auto split: option.splits)
  from solution_ok_programs [OF x(2)] obtain out where
    "program_703 (refDiv x) (VCO_Div x) (filter_Rs x) (filter_icpnum x) (outDiv x) = Inr out" by blast
  with x(1) show ?thesis by (simp add: calculate_clock_bits_fscc_def GetICS30703Data_def)
qed

lemma ics703_finds_solution_witness:
  "let c = \<lparr>frequency = 12000000, clock_bits = replicate 20 0\<rparr> in
   \<exists>c' x p. calculate_clock_bits_fscc exact c 10 = Some (0, c') \<and>
     p \<le> 10 \<and> solution_ok exact (frequency c) (allowable_error exact p (frequency c)) x \<and>
     (\<forall>p' < p. no_solution exact (frequency c) p') \<and> frequency c' = to_ulong exact (freq x) \<and>
     length (clock_bits c') = 20 \<and> decode_input (clock_bits c') = refDiv x \<and>
     decode_vco (clock_bits c') = VCO_Div x \<and> decode_filter (clock_bits c') = filter_Rs x \<and>
     decode_pump (clock_bits c') = Some (filter_icpnum x) \<and>
     decode_output (clock_bits c') = Some (outDiv x)"
proof -
  let ?c = "\<lparr>frequency = 12000000, clock_bits = replicate 20 0\<rparr>"
  obtain c' where c': "calculate_clock_bits_fscc exact ?c 10 = Some (0, c')" using example_calculated by blast
  show ?thesis using ics703_finds_solution [of 10 exact ?c] unfolding Let_def c' by auto
qed

end
