(* ===== verification/Fscc_Client.thy ===== *)
theory Fscc_Client
  imports Fscc_Driver Fscc_Clockgen
begin

text \<open>
  The user's side of the interface (\<open>lib/raw/fscc.h\<close>) and the programs that use it
  (\<open>examples\<close>, \<open>tools\<close>): the layout of the register structure and the control codes as the
  programs see them, the calls a program makes as requests to the driver, and what the
  programs achieve there. Windows is between the two: that it hands a call's buffers to the
  driver is a hypothesis on the environment.
\<close>

section \<open>The header of the programs\<close>

datatype register_field =
    RESERVED | FIFOT | CMDR | STAR | CCR0 | CCR1 | CCR2 | BGR | SSR | SMR | TSR | TMR
  | RAR | RAMR | PPR | TCR | VSTR | IMR | DPLLR | FCR | DMACCR | DSTAR

text \<open>\<open>struct fscc_registers\<close>, as the programs and as the driver (\<open>defines.h\<close>) declare it.\<close>

definition client_registers :: "register_field list" where
  "client_registers =
     replicate 2 RESERVED @ [FIFOT] @ replicate 2 RESERVED @
     [CMDR, STAR, CCR0, CCR1, CCR2, BGR, SSR, SMR, TSR, TMR, RAR, RAMR, PPR, TCR, VSTR] @
     replicate 1 RESERVED @ [IMR, DPLLR] @
     [FCR, DMACCR] @ replicate 4 RESERVED @ [DSTAR]"

definition driver_registers :: "register_field list" where
  "driver_registers =
     replicate 2 RESERVED @ [FIFOT] @ replicate 2 RESERVED @
     [CMDR, STAR, CCR0, CCR1, CCR2, BGR, SSR, SMR, TSR, TMR, RAR, RAMR, PPR, TCR, VSTR] @
     replicate 1 RESERVED @ [IMR, DPLLR] @
     [FCR, DMACCR] @ replicate 4 RESERVED @ [DSTAR]"

text \<open>Where the hardware has a register: its BAR and offset (\<open>port.h\<close>, \<open>card.h\<close>).\<close>

fun register_offset :: "register_field \<Rightarrow> (nat \<times> u32) option" where
  "register_offset RESERVED = None"
| "register_offset FIFOT = Some (0, 0x08)"
| "register_offset CMDR = Some (0, 0x14)"
| "register_offset STAR = Some (0, 0x18)"
| "register_offset CCR0 = Some (0, 0x1C)"
| "register_offset CCR1 = Some (0, 0x20)"
| "register_offset CCR2 = Some (0, 0x24)"
| "register_offset BGR = Some (0, 0x28)"
| "register_offset SSR = Some (0, 0x2C)"
| "register_offset SMR = Some (0, 0x30)"
| "register_offset TSR = Some (0, 0x34)"
| "register_offset TMR = Some (0, 0x38)"
| "register_offset RAR = Some (0, 0x3C)"
| "register_offset RAMR = Some (0, 0x40)"
| "register_offset PPR = Some (0, 0x44)"
| "register_offset TCR = Some (0, 0x48)"
| "register_offset VSTR = Some (0, 0x4C)"
| "register_offset IMR = Some (0, 0x54)"
| "register_offset DPLLR = Some (0, 0x58)"
| "register_offset FCR = Some (2, 0x00)"
| "register_offset DMACCR = Some (2, 0x04)"
| "register_offset DSTAR = Some (2, 0x30)"

text \<open>\<open>FSCC_REGISTERS_INIT(regs)\<close>, and the assignment \<open>regs.f = v\<close>.\<close>

definition field_index :: "register_field \<Rightarrow> nat" where
  "field_index f = length (takeWhile (\<lambda>g. g \<noteq> f) client_registers)"

definition client_init :: "i64 list" where
  "client_init = map (\<lambda>f. - 1) client_registers"

definition set_field :: "register_field \<Rightarrow> i64 \<Rightarrow> i64 list \<Rightarrow> i64 list" where
  "set_field f v regs = regs[field_index f := v]"

text \<open>The control codes of the programs' header.\<close>

fun client_function :: "ioctl \<Rightarrow> u32" where
  "client_function FSCC_GET_REGISTERS = 0x800"
| "client_function FSCC_SET_REGISTERS = 0x801"
| "client_function FSCC_PURGE_TX = 0x802"
| "client_function FSCC_PURGE_RX = 0x803"
| "client_function FSCC_ENABLE_APPEND_STATUS = 0x804"
| "client_function FSCC_DISABLE_APPEND_STATUS = 0x805"
| "client_function FSCC_GET_APPEND_STATUS = 0x80D"
| "client_function FSCC_SET_CLOCK_BITS = 0x808"
| "client_function FSCC_ENABLE_IGNORE_TIMEOUT = 0x80A"
| "client_function FSCC_DISABLE_IGNORE_TIMEOUT = 0x80B"
| "client_function FSCC_GET_IGNORE_TIMEOUT = 0x80F"
| "client_function FSCC_SET_TX_MODIFIERS = 0x80C"
| "client_function FSCC_GET_TX_MODIFIERS = 0x80E"
| "client_function FSCC_ENABLE_RX_MULTIPLE = 0x810"
| "client_function FSCC_DISABLE_RX_MULTIPLE = 0x811"
| "client_function FSCC_GET_RX_MULTIPLE = 0x812"
| "client_function FSCC_ENABLE_APPEND_TIMESTAMP = 0x813"
| "client_function FSCC_DISABLE_APPEND_TIMESTAMP = 0x814"
| "client_function FSCC_GET_APPEND_TIMESTAMP = 0x815"
| "client_function FSCC_ENABLE_WAIT_ON_WRITE = 0x816"
| "client_function FSCC_DISABLE_WAIT_ON_WRITE = 0x817"
| "client_function FSCC_GET_WAIT_ON_WRITE = 0x818"
| "client_function FSCC_TRACK_INTERRUPTS = 0x819"
| "client_function FSCC_ENABLE_BLOCKING_WRITE = 0x81B"
| "client_function FSCC_DISABLE_BLOCKING_WRITE = 0x81C"
| "client_function FSCC_GET_BLOCKING_WRITE = 0x81D"
| "client_function FSCC_ENABLE_FORCE_FIFO = 0x81E"
| "client_function FSCC_DISABLE_FORCE_FIFO = 0x81F"
| "client_function FSCC_GET_FORCE_FIFO = 0x820"

definition client_code :: "ioctl \<Rightarrow> u32" where
  "client_code c = CTL_CODE (client_function c)"

lemma client_code_known: "ioctl_of (client_code c) = Some c"
  by (cases c; hypsubst; code_simp)

section \<open>Fields and registers\<close>

lemma field_asked:
  assumes "register_offset f = Some (b, off)"
  shows "asked (set_field f FSCC_UPDATE_VALUE client_init) ([0..<23] @ [reg_FCR, reg_DMACCR, reg_DSTAR]) =
    [field_index f]"
  by (insert assms, cases f; hypsubst; code_simp)

lemma field_where:
  assumes "register_offset f = Some (b, off)"
  shows "entry_read s (field_index f) v = rd (port_card s) b (port_offset s b off) v"
proof -
  have index: "map field_index
      [FIFOT, CMDR, STAR, CCR0, CCR1, CCR2, BGR, SSR, SMR, TSR, TMR, RAR, RAMR, PPR, TCR, VSTR, IMR, DPLLR, FCR, DMACCR, DSTAR] =
      [2, 5, 6, 7, 8, 9, 10, 11, 12, 13, 14, 15, 16, 17, 18, 19, 21, 22, 23, 24, 29]"
    by code_simp
  show ?thesis using assms index by (cases f) (auto simp: entry_read_def)
qed

text \<open>Property C20. The programs, the driver and the card agree on the register structure: the
  programs' header lays it out as the driver's does, and asking for a single field, whichever
  it is, makes the driver read exactly that register of the card once, at the BAR and offset the
  driver's headers give the register of that name (in the second channel's half for
  \<open>DMACCR\<close> on channel 1), and puts what it read into that field and into no other.\<close>

theorem client_field_read:
  assumes "register_offset f = Some (b, off)"
  shows "client_registers = driver_registers \<and>
    (\<exists>v. fscc_port_get_registers E (set_field f FSCC_UPDATE_VALUE client_init) s =
      (set_field f (ucast v) client_init, emits [rd (port_card s) b (port_offset s b off) v] s))"
proof -
  let ?regs = "set_field f FSCC_UPDATE_VALUE client_init"
  obtain regs' s' where res: "fscc_port_get_registers E ?regs s = (regs', s')" by fastforce
  obtain vs where "length vs = 1" "regs' = fill [field_index f] vs ?regs"
    "s' = emits (map2 (entry_read s) [field_index f] vs) s"
    using get_registers_result [where E = E and regs = ?regs and s = s] unfolding res split_conv Let_def field_asked [OF assms] by auto
  then obtain v where "vs = [v]" "regs' = fill [field_index f] [v] ?regs"
    "s' = emits [entry_read s (field_index f) v] s" by (cases vs) auto
  then have "regs' = set_field f (ucast v) client_init" "s' = emits [rd (port_card s) b (port_offset s b off) v] s"
    by (simp_all add: set_field_def field_where [OF assms])
  then show ?thesis unfolding res by (auto simp: client_registers_def driver_registers_def)
qed

lemma client_field_read_witness:
  "register_offset DPLLR = Some (0, 0x58) \<and> client_registers = driver_registers \<and>
    (\<exists>v. fscc_port_get_registers example_env (set_field DPLLR FSCC_UPDATE_VALUE client_init) free_port =
      (set_field DPLLR (ucast v) client_init, emits [rd (port_card free_port) 0 (port_offset free_port 0 0x58) v] free_port))"
  using client_field_read [of DPLLR 0 "0x58" example_env free_port] by simp

section \<open>Calls of a program\<close>

text \<open>The calls the programs make, with the input buffer and the size of the output buffer.\<close>

datatype call =
    CreateFile
  | DeviceIoControl u32 "u8 list" nat
  | WriteFile "u8 list"
  | ReadFile nat
  | CloseHandle

text \<open>The request a call becomes, and what Windows lets the driver see of its buffers.\<close>

fun request_of :: "request \<Rightarrow> call \<Rightarrow> handler" where
  "request_of r CreateFile = File_create r"
| "request_of r (DeviceIoControl code input room) = Device_control r code"
| "request_of r (WriteFile bs) = Write r (length bs)"
| "request_of r (ReadFile room) = Read r room"
| "request_of r CloseHandle = File_close"

fun serves :: "env \<Rightarrow> request \<Rightarrow> call \<Rightarrow> bool" where
  "serves E r (DeviceIoControl code input room) =
     (\<forall>n. input_buffer E r n = (if n \<le> length input then (STATUS_SUCCESS, input) else (STATUS_BUFFER_TOO_SMALL, [])) \<and>
          output_buffer E r n = (if n \<le> room then STATUS_SUCCESS else STATUS_BUFFER_TOO_SMALL))"
| "serves E r (WriteFile bs) = (\<forall>n \<le> length bs. input_buffer E r n = (STATUS_SUCCESS, bs))"
| "serves E r (ReadFile room) = (\<forall>n \<le> room. output_buffer E r n = STATUS_SUCCESS)"
| "serves E r _ = True"

text \<open>A program makes its calls one after another; they are numbered as they come. When the port cannot
  be opened, Windows refuses the calls that follow, because they have no handle.\<close>

definition opened :: "request \<Rightarrow> driver \<Rightarrow> bool" where
  "opened r s = (Request_complete r STATUS_SUCCESS 0 \<in> set (events s))"

fun perform :: "env \<Rightarrow> request \<Rightarrow> call list \<Rightarrow> driver \<Rightarrow> driver option" where
  "perform E r [] s = Some s"
| "perform E r (c # cs) s = do {
     s1 \<leftarrow> handle E (request_of r c) s;
     if c = CreateFile \<and> \<not> opened r s1 then Some s1 else perform E (r + 1) cs s1 }"

fun served :: "env \<Rightarrow> request \<Rightarrow> call list \<Rightarrow> bool" where
  "served E r [] = True"
| "served E r (c # cs) = (serves E r c \<and> served E (r + 1) cs)"

fun requests :: "request \<Rightarrow> call list \<Rightarrow> request list" where
  "requests r [] = []"
| "requests r (c # cs) = arrival (request_of r c) @ requests (r + 1) cs"

section \<open>The example programs\<close>

abbreviation (input) control :: "ioctl \<Rightarrow> u8 list \<Rightarrow> nat \<Rightarrow> call" where
  "control c input room \<equiv> DeviceIoControl (client_code c) input room"

text \<open>\<open>registers.c\<close>\<close>

definition registers_set :: "i64 list" where
  "registers_set = set_field BGR 0 (set_field CCR0 0x0011201c client_init)"

definition registers_asked :: "i64 list" where
  "registers_asked = set_field CCR2 FSCC_UPDATE_VALUE (set_field CCR1 FSCC_UPDATE_VALUE client_init)"

definition registers_example :: "call list" where
  "registers_example =
     [CreateFile,
      control FSCC_SET_REGISTERS (regs_to_bytes registers_set) 0,
      control FSCC_GET_REGISTERS (regs_to_bytes registers_asked) (8 * length client_registers),
      CloseHandle]"

text \<open>The programs that read a flag into an \<open>unsigned\<close>, set it and clear it.\<close>

definition append_status_example :: "call list" where
  "append_status_example =
     [CreateFile, control FSCC_GET_APPEND_STATUS [] 4, control FSCC_ENABLE_APPEND_STATUS [] 0,
      control FSCC_DISABLE_APPEND_STATUS [] 0, CloseHandle]"

definition append_timestamp_example :: "call list" where
  "append_timestamp_example =
     [CreateFile, control FSCC_GET_APPEND_TIMESTAMP [] 4, control FSCC_ENABLE_APPEND_TIMESTAMP [] 0,
      control FSCC_DISABLE_APPEND_TIMESTAMP [] 0, CloseHandle]"

definition blocking_write_example :: "call list" where
  "blocking_write_example =
     [CreateFile, control FSCC_GET_BLOCKING_WRITE [] 4, control FSCC_ENABLE_BLOCKING_WRITE [] 0,
      control FSCC_DISABLE_BLOCKING_WRITE [] 0, CloseHandle]"

definition force_fifo_example :: "call list" where
  "force_fifo_example =
     [CreateFile, control FSCC_GET_FORCE_FIFO [] 4, control FSCC_ENABLE_FORCE_FIFO [] 0,
      control FSCC_DISABLE_FORCE_FIFO [] 0, CloseHandle]"

definition ignore_timeout_example :: "call list" where
  "ignore_timeout_example =
     [CreateFile, control FSCC_GET_IGNORE_TIMEOUT [] 4, control FSCC_ENABLE_IGNORE_TIMEOUT [] 0,
      control FSCC_DISABLE_IGNORE_TIMEOUT [] 0, CloseHandle]"

definition rx_multiple_example :: "call list" where
  "rx_multiple_example =
     [CreateFile, control FSCC_GET_RX_MULTIPLE [] 4, control FSCC_ENABLE_RX_MULTIPLE [] 0,
      control FSCC_DISABLE_RX_MULTIPLE [] 0, CloseHandle]"

definition purge_example :: "call list" where
  "purge_example = [CreateFile, control FSCC_PURGE_TX [] 0, control FSCC_PURGE_RX [] 0, CloseHandle]"

definition track_interrupts_example :: "call list" where
  "track_interrupts_example =
     [CreateFile, control FSCC_TRACK_INTERRUPTS (u32_bytes 0x00000100) 4, CloseHandle]"

definition tx_modifiers_example :: "call list" where
  "tx_modifiers_example =
     [CreateFile, control FSCC_GET_TX_MODIFIERS [] 4, control FSCC_SET_TX_MODIFIERS (u32_bytes (TXT OR XREP)) 0,
      control FSCC_SET_TX_MODIFIERS (u32_bytes XF) 0, CloseHandle]"

text \<open>\<open>clock-frequency.c\<close>: the structure goes to the driver whatever the calculation answers;
  \<open>bits\<close> is what the program's memory held.\<close>

definition clock_structure :: "clock_data_fscc \<Rightarrow> u8 list" where
  "clock_structure c = u32_bytes (frequency c) @ clock_bits c"

definition clock_frequency_example :: "'d doubles \<Rightarrow> u8 list \<Rightarrow> call list option" where
  "clock_frequency_example D bits =
     do { (failed, clock_data) \<leftarrow> calculate_clock_bits_fscc D \<lparr>frequency = 18432000, clock_bits = bits\<rparr> 10;
          Some [CreateFile, control FSCC_SET_CLOCK_BITS (clock_structure clock_data) 0, CloseHandle] }"

text \<open>\<open>tutorial.c\<close> and the tools look at the answer: a failed open ends the program.\<close>

datatype exit_code = EXIT_SUCCESS | EXIT_FAILURE

definition program :: "env \<Rightarrow> request \<Rightarrow> call list \<Rightarrow> driver \<Rightarrow> (exit_code \<times> driver) option" where
  "program E r body s =
     do { s1 \<leftarrow> perform E r [CreateFile] s;
          if \<not> opened r s1 then Some (EXIT_FAILURE, s1)
          else do { s2 \<leftarrow> perform E (r + 1) (body @ [CloseHandle]) s1; Some (EXIT_SUCCESS, s2) } }"

definition hello :: "u8 list" where
  "hello = map of_char ''Hello world!'' @ [0]"

definition tutorial :: "env \<Rightarrow> request \<Rightarrow> driver \<Rightarrow> (exit_code \<times> driver) option" where
  "tutorial E r = program E r [WriteFile hello, ReadFile 20]"

section \<open>The tools\<close>

text \<open>A tool takes the number of the port as its only argument.\<close>

definition tool :: "nat \<Rightarrow> env \<Rightarrow> request \<Rightarrow> call list \<Rightarrow> driver \<Rightarrow> (exit_code \<times> driver) option" where
  "tool argc E r body s = (if argc \<noteq> 2 then Some (EXIT_FAILURE, s) else program E r body s)"

definition purge_tool :: "nat \<Rightarrow> env \<Rightarrow> request \<Rightarrow> driver \<Rightarrow> (exit_code \<times> driver) option" where
  "purge_tool argc E r = tool argc E r [control FSCC_PURGE_TX [] 0, control FSCC_PURGE_RX [] 0]"

definition read_vstr_calls :: "call list" where
  "read_vstr_calls = [control FSCC_GET_REGISTERS (regs_to_bytes (set_field VSTR FSCC_UPDATE_VALUE client_init))
     (8 * length client_registers)]"

definition read_vstr :: "nat \<Rightarrow> env \<Rightarrow> request \<Rightarrow> driver \<Rightarrow> (exit_code \<times> driver) option" where
  "read_vstr argc E r = tool argc E r read_vstr_calls"

text \<open>The registers \<open>default_settings.c\<close> sets, with the receiver in reset and then without.\<close>

definition default_settings_regs :: "i64 \<Rightarrow> i64 list" where
  "default_settings_regs ccr0 = fold (\<lambda>(f, v). set_field f v)
     [(FIFOT, 0x08001000), (CCR0, 0x0011201c), (CCR1, 0x00000018), (CCR2, 0x00000000), (BGR, 0x00000000),
      (SSR, 0x0000007e), (SMR, 0x00000000), (TSR, 0x0000007e), (TMR, 0x00000000), (RAR, 0x00000000),
      (RAMR, 0x00000000), (PPR, 0x00000000), (TCR, 0x00000000), (IMR, 0x0f000000), (DPLLR, 0x00000004),
      (FCR, 0x00000000), (CCR0, ccr0)] client_init"

definition default_settings_calls :: "call list" where
  "default_settings_calls =
     [control FSCC_SET_REGISTERS (regs_to_bytes (default_settings_regs 0x0011201c)) 0,
      control FSCC_SET_REGISTERS (regs_to_bytes (default_settings_regs 0x00112004)) 0,
      control FSCC_DISABLE_APPEND_STATUS [] 0]"

definition default_settings_tool :: "nat \<Rightarrow> env \<Rightarrow> request \<Rightarrow> driver \<Rightarrow> (exit_code \<times> driver) option" where
  "default_settings_tool argc E r = tool argc E r default_settings_calls"

end
