(* ===== verification/Fscc_Looptest.thy ===== *)
theory Fscc_Looptest
  imports Fscc_Client
begin

text \<open>
  The tool \<open>loop_test.c\<close>: it sends random frames to a port whose transmitter is wired to its
  receiver and compares what comes back. The port is a parameter, a function from a call and
  the state of the world to the answer and the next state; so is the generator of the random
  numbers. What the tool prints, other than the total, is left out.
\<close>

section \<open>Model\<close>

record answer_of_call =
  opened_ok :: bool
  transferred :: nat
  received :: "u8 list"

type_synonym 'w io_device = "call \<Rightarrow> 'w \<Rightarrow> answer_of_call \<times> 'w"

definition purge_both :: "'w io_device \<Rightarrow> 'w \<Rightarrow> 'w" where
  "purge_both D w = snd (D (control FSCC_PURGE_RX [] 0) (snd (D (control FSCC_PURGE_TX [] 0) w)))"

text \<open>The data of loop \<open>i\<close>; \<open>rand n\<close> is what the \<open>n\<close>-th call of \<open>rand\<close> returns.\<close>

definition random_data :: "(nat \<Rightarrow> nat) \<Rightarrow> nat \<Rightarrow> u8 list" where
  "random_data rand i = map (\<lambda>j. of_nat (rand (4096 * i + j) mod 255)) [0..<4096]"

text \<open>The comparison, which ends at the fifth difference.\<close>

fun mismatches :: "u8 list \<Rightarrow> u8 list \<Rightarrow> nat \<Rightarrow> nat" where
  "mismatches (x # xs) (y # ys) failures =
     (if x \<noteq> y then if failures + 1 > 4 then failures + 1 else mismatches xs ys (failures + 1)
      else mismatches xs ys failures)"
| "mismatches _ _ failures = failures"

text \<open>The body of the loop: what it adds to \<open>total_failures\<close>. The read fills the front of
  \<open>idata\<close>, which was cleared.\<close>

definition loop_pass :: "'w io_device \<Rightarrow> u8 list \<Rightarrow> 'w \<Rightarrow> nat \<times> 'w" where
  "loop_pass D odata w =
     (let (written, w1) = D (WriteFile odata) w; size_written = transferred written
      in if size_written < 1 then (1, purge_both D w1)
      else (let (got, w2) = D (ReadFile 4096) w1; size_read = transferred got;
                idata = received got @ drop (length (received got)) (replicate 4096 0)
      in if size_read < 1 then (1, purge_both D w2)
      else if size_read \<noteq> size_written then (1, w2)
      else (mismatches (take size_read idata) (take size_read odata) 0, w2)))"

text \<open>The passes \<open>i\<close> up to the number of loops; the sum is an \<open>int\<close> of C.\<close>

fun loop_passes :: "'w io_device \<Rightarrow> (nat \<Rightarrow> nat) \<Rightarrow> nat \<Rightarrow> nat \<Rightarrow> i32 \<Rightarrow> 'w \<Rightarrow> i32 \<times> 'w" where
  "loop_passes D rand i 0 total_failures w = (total_failures, w)"
| "loop_passes D rand i (Suc n) total_failures w =
     (let (failures, w1) = loop_pass D (random_data rand i) w
      in loop_passes D rand (i + 1) n (total_failures + of_nat failures) w1)"

text \<open>The number of loops: \<open>atoi\<close> returns an \<open>int\<close>, which becomes a \<open>size_t\<close>; the test
  against the largest \<open>size_t\<close> never succeeds.\<close>

definition num_loops :: "i32 \<Rightarrow> u64" where
  "num_loops arg = (let n = scast arg :: u64; n1 = (if n < 1 then 1 else n)
     in if n1 > - 1 then - 1 else n1)"

definition loop_test :: "nat \<Rightarrow> i32 \<Rightarrow> 'w io_device \<Rightarrow> (nat \<Rightarrow> nat) \<Rightarrow> 'w \<Rightarrow> exit_code \<times> i32 option \<times> 'w" where
  "loop_test argc arg D rand w =
     (if argc \<noteq> 3 then (EXIT_FAILURE, None, w)
      else (let (h, w1) = D CreateFile w
      in if \<not> opened_ok h then (EXIT_FAILURE, None, w1)
      else (let (total_failures, w2) = loop_passes D rand 0 (unat (num_loops arg)) 0 (purge_both D w1)
      in (EXIT_SUCCESS, Some total_failures, snd (D CloseHandle w2)))))"

section \<open>What the total says\<close>

text \<open>One pass is passed when something was written and exactly that came back.\<close>

definition echoed :: "'w io_device \<Rightarrow> u8 list \<Rightarrow> 'w \<Rightarrow> bool" where
  "echoed D odata w \<longleftrightarrow> (let (written, w1) = D (WriteFile odata) w; (got, w2) = D (ReadFile 4096) w1
     in 0 < transferred written \<and> received got = take (transferred written) odata)"

text \<open>The state of the world before pass \<open>i\<close>.\<close>

fun before_pass :: "'w io_device \<Rightarrow> (nat \<Rightarrow> nat) \<Rightarrow> nat \<Rightarrow> 'w \<Rightarrow> 'w" where
  "before_pass D rand 0 w = w"
| "before_pass D rand (Suc i) w = snd (loop_pass D (random_data rand i) (before_pass D rand i w))"

text \<open>Windows: a call transfers no more than it was asked to, and a read what it puts in the
  buffer.\<close>

definition transfers_as_asked :: "'w io_device \<Rightarrow> bool" where
  "transfers_as_asked D \<longleftrightarrow>
     (\<forall>bs w. transferred (fst (D (WriteFile bs) w)) \<le> length bs) \<and>
     (\<forall>n w. transferred (fst (D (ReadFile n) w)) = length (received (fst (D (ReadFile n) w))) \<and>
        length (received (fst (D (ReadFile n) w))) \<le> n)"

lemma mismatches_bound: "k \<le> 4 \<Longrightarrow> k \<le> mismatches xs ys k \<and> mismatches xs ys k \<le> 5"
  by (induction xs ys k rule: mismatches.induct) auto

lemma mismatches_zero: "length xs = length ys \<Longrightarrow> mismatches xs ys 0 = 0 \<longleftrightarrow> xs = ys"
proof (induction xs ys rule: list_induct2)
  case (Cons x xs y ys)
  then show ?case using mismatches_bound [of 1 xs ys] by auto
qed simp

lemma length_random_data [simp]: "length (random_data rand i) = 4096"
  by (simp add: random_data_def)

lemma loop_pass_result:
  assumes "transfers_as_asked D" "length odata = 4096"
  shows "fst (loop_pass D odata w) \<le> 5" "fst (loop_pass D odata w) = 0 \<longleftrightarrow> echoed D odata w"
proof -
  obtain written w1 where wr: "D (WriteFile odata) w = (written, w1)" by fastforce
  obtain got w2 where rd: "D (ReadFile 4096) w1 = (got, w2)" by fastforce
  have sizes: "transferred written \<le> 4096" "transferred got = length (received got)" "length (received got) \<le> 4096"
    using assms(1) [unfolded transfers_as_asked_def, THEN conjunct1, rule_format, of odata w]
      assms(1) [unfolded transfers_as_asked_def, THEN conjunct2, rule_format, of 4096 w1]
    by (simp_all add: wr rd assms(2))
  show "fst (loop_pass D odata w) \<le> 5"
    using mismatches_bound [of 0] by (simp add: loop_pass_def wr rd Let_def)
  show "fst (loop_pass D odata w) = 0 \<longleftrightarrow> echoed D odata w"
    using sizes assms(2) mismatches_zero [of "received got" "take (transferred written) odata"]
    by (auto simp: loop_pass_def echoed_def wr rd Let_def)
qed

text \<open>The failures of a pass, and the total as their sum.\<close>

definition pass_failures :: "'w io_device \<Rightarrow> (nat \<Rightarrow> nat) \<Rightarrow> 'w \<Rightarrow> nat \<Rightarrow> nat" where
  "pass_failures D rand w i = fst (loop_pass D (random_data rand i) (before_pass D rand i w))"

lemma loop_passes_sum:
  "loop_passes D rand i n acc (before_pass D rand i w) =
     (acc + of_nat (sum_list (map (pass_failures D rand w) [i..<i + n])), before_pass D rand (i + n) w)"
proof (induction n arbitrary: i acc)
  case (Suc n)
  let ?k = "pass_failures D rand w i"
  have pass: "loop_pass D (random_data rand i) (before_pass D rand i w) = (?k, before_pass D rand (i + 1) w)"
    by (simp add: pass_failures_def prod_eq_iff)
  have "[i..<i + Suc n] = i # [i + 1..<i + 1 + n]" by (simp add: upt_rec)
  then show ?case
    by (simp only: loop_passes.simps pass Let_def prod.case Suc.IH list.map sum_list.Cons of_nat_add add.assoc)
      (simp add: add.assoc)
qed simp

lemma sum_list_bound: "(\<And>x. x \<in> set xs \<Longrightarrow> f x \<le> (c :: nat)) \<Longrightarrow> sum_list (map f xs) \<le> c * length xs"
  by (induction xs) (auto intro!: add_mono)

lemma sint_count: "int k < 2 ^ 31 \<Longrightarrow> sint (of_nat k :: i32) = int k"
  by (simp add: signed_of_nat signed_take_bit_int_eq_self)

lemma count_zero: "int k < 2 ^ 31 \<Longrightarrow> (of_nat k :: i32) = 0 \<longleftrightarrow> k = 0"
  using sint_count [of k] by auto

lemma num_loops_positive:
  assumes "0 < sint arg"
  shows "unat (num_loops arg) = nat (sint arg)"
proof -
  have "uint (scast arg :: u64) = sint arg mod 2 ^ 64" unfolding scast_eq uint_word_of_int by simp
  also have "\<dots> = sint arg"
  proof (rule mod_pos_pos_trivial)
    have "sint arg < 2 ^ 31" using sint_lt [of arg] by simp
    also have "(2 :: int) ^ 31 < 2 ^ 64" by simp
    finally show "sint arg < 2 ^ 64" .
  qed (use assms in simp)
  finally have "uint (scast arg :: u64) = sint arg" .
  then have n: "unat (scast arg :: u64) = nat (sint arg)" by (simp add: unat_eq_nat_uint)
  then have "\<not> (scast arg :: u64) < 1" using assms by (simp add: word_less_nat_alt)
  then show ?thesis using n by (simp add: num_loops_def Let_def not_less)
qed

text \<open>Property C31. The verdict of the loop test: when it reports no failure, every pass wrote data and
  read back exactly what it wrote, and when every pass did, it reports none. This holds for every
  port and every choice of random numbers, provided the number of loops is positive and small
  enough for the total, an \<open>int\<close>, not to overflow (each pass adds five at most), and transfers answer
  as Windows documents: no call reads or writes more bytes than it was asked to, and a read returns as
  many bytes as it counts (transfers_as_asked).\<close>

theorem loop_test_verdict:
  assumes "transfers_as_asked D" "0 < sint arg" "5 * sint arg < 2 ^ 31" "D CreateFile w = (h, w1)" "opened_ok h"
  shows "\<exists>failed w'. loop_test 3 arg D rand w = (EXIT_SUCCESS, Some failed, w') \<and> 0 \<le> sint failed \<and>
    (failed = 0 \<longleftrightarrow> (\<forall>i < nat (sint arg). echoed D (random_data rand i) (before_pass D rand i (purge_both D w1))))"
proof -
  let ?w = "purge_both D w1" and ?n = "nat (sint arg)"
  let ?sum = "sum_list (map (pass_failures D rand ?w) [0..<?n])"
  note n = num_loops_positive [OF assms(2)]
  have "pass_failures D rand ?w i \<le> 5" for i
    using loop_pass_result(1) [OF assms(1)] by (simp add: pass_failures_def)
  then have "?sum \<le> 5 * ?n" using sum_list_bound [of "[0..<?n]" "pass_failures D rand ?w" 5] by simp
  then have small: "int ?sum < 2 ^ 31" using assms(2,3) by linarith
  then have fits: "sint (of_nat ?sum :: i32) = int ?sum" by (rule sint_count)
  have "loop_test 3 arg D rand w = (EXIT_SUCCESS, Some (of_nat ?sum), snd (D CloseHandle (before_pass D rand ?n ?w)))"
    using loop_passes_sum [of D rand 0 ?n 0 ?w] by (simp add: loop_test_def assms(4,5) n Let_def)
  moreover have "?sum = 0 \<longleftrightarrow> (\<forall>i < ?n. echoed D (random_data rand i) (before_pass D rand i ?w))"
    using loop_pass_result(2) [OF assms(1)] by (auto simp: pass_failures_def sum_list_eq_0_iff)
  moreover have "0 \<le> sint (of_nat ?sum :: i32)" unfolding fits by (rule of_nat_0_le_iff)
  ultimately show ?thesis unfolding count_zero [OF small, symmetric] by blast
qed

text \<open>A port that echoes what is written to it.\<close>

definition echo_device :: "u8 list io_device" where
  "echo_device c w = (case c of
       WriteFile bs \<Rightarrow> (\<lparr>opened_ok = True, transferred = length bs, received = []\<rparr>, bs)
     | ReadFile n \<Rightarrow> (\<lparr>opened_ok = True, transferred = length (take n w), received = take n w\<rparr>, w)
     | _ \<Rightarrow> (\<lparr>opened_ok = True, transferred = 0, received = []\<rparr>, w))"

lemma loop_test_verdict_witness:
  "\<exists>w'. loop_test 3 2 echo_device (\<lambda>n. n) [] = (EXIT_SUCCESS, Some 0, w')"
proof -
  have "transfers_as_asked echo_device" by (auto simp: transfers_as_asked_def echo_device_def)
  moreover have "echo_device CreateFile [] = (\<lparr>opened_ok = True, transferred = 0, received = []\<rparr>, [])"
    by (simp add: echo_device_def)
  moreover have "echoed echo_device (random_data rand i) w" for rand i w
    by (simp add: echoed_def echo_device_def)
  ultimately show ?thesis
    using loop_test_verdict [of echo_device 2 "[]" "\<lparr>opened_ok = True, transferred = 0, received = []\<rparr>" "[]" "\<lambda>n. n"]
    by auto
qed

end
