(* ===== verification/Fscc_Programs.thy ===== *)
theory Fscc_Programs
  imports Fscc_Looptest Fscc_Client
begin

text \<open>
  What the programs of \<open>Fscc_Client\<close> achieve: which registers of the card a program writes,
  what it is answered, and that every program, whatever the card answers, is answered in
  full; the calls of the loop test depend on what it is answered, so they are recorded from a run
  of it. The last section follows a clock frequency from the program through the calculation
  of its clock bits and the driver to the pins of the clock generator.
\<close>

section \<open>What a call does\<close>

definition replies :: "event list \<Rightarrow> (request \<times> NTSTATUS \<times> nat) list" where
  "replies es = concat (map (\<lambda>e. case e of Request_complete r st n \<Rightarrow> [(r, st, n)] | _ \<Rightarrow> []) es)"

lemma replies_simps [simp]:
  "replies [] = []" "replies (es @ es') = replies es @ replies es'"
  "replies (Request_complete r st n # es) = (r, st, n) # replies es"
  "replies (Request_output r bs # es) = replies es"
  by (simp_all add: replies_def)

lemma calm_silent: "calm es \<Longrightarrow> replies es = [] \<and> outputs es = []"
proof -
  assume "calm es"
  then have "list_all (\<lambda>e. quiet e \<or> of_memory e) es" by (simp add: calm_def)
  then show ?thesis
  proof (induction es)
    case (Cons e es)
    then show ?case by (cases e) (simp_all add: replies_def outputs_def)
  qed simp
qed

lemmas quiet_silent = calm_silent [OF calm_quiet]

lemma in_replies: "(r, st, n) \<in> set (replies es) \<longleftrightarrow> Request_complete r st n \<in> set es"
proof (induction es)
  case (Cons e es)
  then show ?case by (cases e) (auto simp: replies_def)
qed simp

text \<open>From \<open>s\<close> to \<open>s'\<close> the driver wrote \<open>ws\<close> to the card, put \<open>out\<close> into output buffers and
  completed the requests \<open>cs\<close>, on the same port.\<close>

definition did :: "driver \<Rightarrow> event list \<Rightarrow> (request \<times> u8 list) list \<Rightarrow> (request \<times> NTSTATUS \<times> nat) list \<Rightarrow>
    driver \<Rightarrow> bool" where
  "did s ws out cs s' \<longleftrightarrow> port_card s' = port_card s \<and> channel s' = channel s \<and>
     (\<exists>es. events s' = rev es @ events s \<and> writes es = ws \<and> outputs es = out \<and> replies es = cs)"

lemma did_trans:
  assumes "did s ws out cs t" "did t ws' out' cs' u"
  shows "did s (ws @ ws') (out @ out') (cs @ cs') u"
proof -
  from assms obtain es es' where "events t = rev es @ events s" "writes es = ws" "outputs es = out" "replies es = cs"
    "events u = rev es' @ events t" "writes es' = ws'" "outputs es' = out'" "replies es' = cs'"
    by (auto simp: did_def)
  then have "events u = rev (es @ es') @ events s" "writes (es @ es') = ws @ ws'"
    "outputs (es @ es') = out @ out'" "replies (es @ es') = cs @ cs'" by simp_all
  then show ?thesis using assms unfolding did_def by (intro conjI exI [of _ "es @ es'"]) simp_all
qed

lemma did_opened:
  assumes "did s ws out [(r, STATUS_SUCCESS, 0)] t"
  shows "opened r t"
proof -
  obtain es where "events t = rev es @ events s" "replies es = [(r, STATUS_SUCCESS, 0)]"
    using assms unfolding did_def by blast
  then show ?thesis using in_replies [of r STATUS_SUCCESS 0 es] by (simp add: opened_def)
qed

lemma did_new:
  assumes "did s ws out cs s'"
  shows "writes (new_events s s') = ws" "outputs (new_events s s') = out" "replies (new_events s s') = cs"
  using assms by (auto simp: did_def new_events_eq)

lemma didI:
  assumes "events s' = rev es @ events s" "port_card s' = port_card s" "channel s' = channel s"
  shows "did s (writes es) (outputs es) (replies es) s'"
  using assms by (auto simp: did_def)

text \<open>Opening for the first time and closing for the last: the mark of the port in \<open>FCR\<close>.\<close>

definition open_mark :: "driver \<Rightarrow> u32" where
  "open_mark s = push_bit (unat (channel s)) 0x40000000"

lemma outputs_io [simp]: "outputs (rd c b off v # es) = outputs es" "outputs (wr c b off v # es) = outputs es"
  by (simp_all add: outputs_def rd_def wr_def)

lemma replies_io [simp]: "replies (rd c b off v # es) = replies es" "replies (wr c b off v # es) = replies es"
  by (simp_all add: replies_def rd_def wr_def)

lemma create_did:
  assumes "fst (fscc_port_using_async E s) = 0" "open_counter s = 0"
  shows "\<exists>v. did s [wr (port_card s) 2 FCR_OFFSET (v OR open_mark s)] [] [(r, STATUS_SUCCESS, 0)]
      (FsccDeviceFileCreate E r s) \<and>
    open_counter (FsccDeviceFileCreate E r s) = 1 \<and> append_status (FsccDeviceFileCreate E r s) = append_status s"
proof -
  obtain s1 where async: "fscc_port_using_async E s = (0, s1)" using assms(1) by (metis prod.collapse)
  then obtain v0 st where s1: "s1 = emits [rd (port_card s) 2 FCR_OFFSET v0] (s\<lparr>register_storage := st\<rparr>)"
    by (auto simp: fscc_port_using_async_def get_register_eq Let_def)
  let ?v = "hw_reg E (port_card s) (rd (port_card s) 2 FCR_OFFSET v0 # events s) 2 FCR_OFFSET"
  let ?w = "?v OR open_mark s"
  let ?es = "[rd (port_card s) 2 FCR_OFFSET v0, rd (port_card s) 2 FCR_OFFSET ?v, wr (port_card s) 2 FCR_OFFSET ?w,
    Request_complete r STATUS_SUCCESS 0]"
  note run = FsccDeviceFileCreate_def async s1 get_register_eq set_register_plain dmaccr_value_def Let_def
    Fscc_Tx.complete_def open_mark_def emit_emits emits_emits
  have "did s (writes ?es) (outputs ?es) (replies ?es) (FsccDeviceFileCreate E r s)"
    by (rule didI) (use assms(2) in \<open>simp_all add: run\<close>)
  then have "did s [wr (port_card s) 2 FCR_OFFSET ?w] [] [(r, STATUS_SUCCESS, 0)] (FsccDeviceFileCreate E r s)"
    by (simp add: rd_def wr_def outputs_def replies_def)
  then show ?thesis using assms(2) by (intro exI [of _ ?v]) (simp add: run)
qed

lemma close_did:
  assumes "open_counter s = 1"
  shows "\<exists>v. did s [wr (port_card s) 2 FCR_OFFSET (v AND NOT (open_mark s))] [] [] (FsccFileClose E s) \<and>
    append_status (FsccFileClose E s) = append_status s"
proof -
  let ?v = "hw_reg E (port_card s) (events s) 2 FCR_OFFSET"
  let ?es = "[rd (port_card s) 2 FCR_OFFSET ?v, wr (port_card s) 2 FCR_OFFSET (?v AND NOT (open_mark s))]"
  note run = FsccFileClose_def get_register_eq set_register_plain dmaccr_value_def Let_def open_mark_def
  have "did s (writes ?es) (outputs ?es) (replies ?es) (FsccFileClose E s)"
    by (rule didI) (use assms in \<open>simp_all add: run\<close>)
  moreover have "append_status (FsccFileClose E s) = append_status s" using assms by (simp add: run)
  ultimately show ?thesis by (intro exI [of _ ?v]) simp
qed

text \<open>The requests for registers: what the programs pass arrives, and the card is written or read.\<close>

lemma set_registers_did:
  assumes "serves E r (control FSCC_SET_REGISTERS (regs_to_bytes regs) room)" "length regs = NUM_REGS"
    and "\<not> settable regs reg_CMDR"
  shows "\<exists>s'. handle E (request_of r (control FSCC_SET_REGISTERS (regs_to_bytes regs) room)) s = Some s' \<and>
    did s (bar0_writes (port_card s) regs False [0..<NUM_REGS] @ bar2_writes s regs) [] [(r, STATUS_SUCCESS, 0)] s' \<and>
    open_counter s' = open_counter s \<and> append_status s' = append_status s"
proof -
  obtain st t where run: "fscc_port_set_registers E regs s = (st, t)" by fastforce
  from set_registers_spec [OF run] assms(3) obtain es stored where
    st: "st = STATUS_SUCCESS" and t: "t = emits es (s\<lparr>register_storage := stored\<rparr>)"
    and es: "writes es = bar0_writes (port_card s) regs False [0..<NUM_REGS] @ bar2_writes s regs" "list_all quiet es"
    by auto
  let ?es = "es @ [Request_complete r STATUS_SUCCESS 0]" and ?s' = "emits [Request_complete r STATUS_SUCCESS 0] t"
  have buf: "input_buffer E r SIZEOF_REGISTERS = (STATUS_SUCCESS, regs_to_bytes regs)"
    using assms(1,2) by simp
  have "bytes_to_regs NUM_REGS (regs_to_bytes regs) = Some regs"
    using bytes_to_regs_bytes [of regs "[]"] assms(2) by simp
  then have "handle E (request_of r (control FSCC_SET_REGISTERS (regs_to_bytes regs) room)) s = Some ?s'"
    by (simp add: FsccEvtIoDeviceControl_def client_code_known finish_ioctl_def ioctl_set_registers_def buf run st
        del: bytes_to_regs.simps)
  moreover have "did s (writes ?es) (outputs ?es) (replies ?es) ?s'" by (rule didI) (simp_all add: t)
  then have "did s (bar0_writes (port_card s) regs False [0..<NUM_REGS] @ bar2_writes s regs) [] [(r, STATUS_SUCCESS, 0)] ?s'"
    using es quiet_silent [OF es(2)] by (simp del: upt_conv_Cons)
  ultimately show ?thesis by (simp add: t)
qed

lemma get_registers_did:
  assumes "serves E r (control FSCC_GET_REGISTERS (regs_to_bytes regs) room)" "length regs = NUM_REGS" "240 \<le> room"
    and "js = asked regs ([0..<23] @ [reg_FCR, reg_DMACCR, reg_DSTAR])"
  shows "\<exists>s' vs. length vs = length js \<and>
    handle E (request_of r (control FSCC_GET_REGISTERS (regs_to_bytes regs) room)) s = Some s' \<and>
    did s [] [(r, regs_to_bytes (fill js vs regs))] [(r, STATUS_SUCCESS, 240)] s' \<and>
    open_counter s' = open_counter s \<and> append_status s' = append_status s"
proof -
  obtain regs' t where run: "fscc_port_get_registers E regs s = (regs', t)" by fastforce
  from get_registers_result [where E = E and regs = regs and s = s] obtain vs where
    vs: "length vs = length js" "regs' = fill js vs regs" "t = emits (map2 (entry_read s) js vs) s"
    unfolding run split_conv Let_def assms(4) by blast
  let ?fin = "[Request_output r (regs_to_bytes regs'), Request_complete r STATUS_SUCCESS 240]"
  let ?es = "map2 (entry_read s) js vs @ ?fin"
  have buf: "input_buffer E r SIZEOF_REGISTERS = (STATUS_SUCCESS, regs_to_bytes regs)"
    "output_buffer E r SIZEOF_REGISTERS = STATUS_SUCCESS" using assms(1-3) by simp_all
  have len: "length regs' = NUM_REGS" using vs(2) assms(2) by simp
  then have "regs_to_bytes regs' \<noteq> []"
    by (simp only: length_0_conv [symmetric] length_regs_bytes)
  moreover have "bytes_to_regs NUM_REGS (regs_to_bytes regs) = Some regs"
    using bytes_to_regs_bytes [of regs "[]"] assms(2) by simp
  ultimately have "handle E (request_of r (control FSCC_GET_REGISTERS (regs_to_bytes regs) room)) s = Some (emits ?fin t)"
    using len by (simp add: FsccEvtIoDeviceControl_def client_code_known finish_ioctl_def ioctl_get_registers_def buf run
        del: bytes_to_regs.simps)
  moreover have "did s (writes ?es) (outputs ?es) (replies ?es) (emits ?fin t)" by (rule didI) (simp_all add: vs(3))
  moreover have "writes (map2 (entry_read s) js vs) = []"
    by (auto simp: filter_empty_conv entry_read_def rd_def dest: set_zip_leftD split: if_splits)
  ultimately show ?thesis using vs quiet_silent [OF entry_reads_quiet, of s js vs]
    by (intro exI [of _ "emits ?fin t"] exI [of _ vs]) simp
qed

lemma disable_status_did:
  "\<exists>s'. handle E (request_of r (control FSCC_DISABLE_APPEND_STATUS input room)) s = Some s' \<and>
    did s [] [] [(r, STATUS_SUCCESS, 0)] s' \<and> open_counter s' = open_counter s \<and> append_status s' = 0"
proof -
  let ?t = "fscc_port_set_append_status FALSE s" and ?es = "[Request_complete r STATUS_SUCCESS 0]"
  have "handle E (request_of r (control FSCC_DISABLE_APPEND_STATUS input room)) s = Some (emits ?es ?t)"
    by (simp add: FsccEvtIoDeviceControl_def client_code_known finish_ioctl_def)
  moreover have "did s (writes ?es) (outputs ?es) (replies ?es) (emits ?es ?t)"
    by (rule didI) (simp_all add: setting_defs)
  ultimately show ?thesis by (simp add: setting_defs)
qed

section \<open>The programs for registers\<close>

text \<open>The register writes a structure stands for, as a list of offsets and values.\<close>

definition entries_set :: "i64 list \<Rightarrow> (u32 \<times> u32) list" where
  "entries_set regs = map (\<lambda>i. (of_nat (i * 4), ucast (regs ! i))) (filter (set_now regs False) [0..<NUM_REGS])"

lemma bar0_writes_entries:
  "bar0_writes c regs False [0..<NUM_REGS] = map (\<lambda>(off, v). wr c 0 off v) (entries_set regs)"
  by (simp add: bar0_writes_def entries_set_def comp_def del: upt_conv_Cons)

lemma registers_set_entries:
  "entries_set registers_set = [(CCR0_OFFSET, 0x0011201c), (0x28, 0)]" "length registers_set = NUM_REGS"
  "\<not> settable registers_set reg_CMDR" "registers_set ! reg_FCR = - 1" "registers_set ! reg_DMACCR = - 1"
  by code_simp+

lemma registers_asked_entries:
  "asked registers_asked ([0..<23] @ [reg_FCR, reg_DMACCR, reg_DSTAR]) = [8, 9]" "length registers_asked = NUM_REGS"
  "registers_asked = client_init[8 := - 2, 9 := - 2]" "field_index CCR1 = 8" "field_index CCR2 = 9"
  "8 * length client_registers = 240"
  by code_simp+

lemma reset_only:
  assumes "regs ! reg_FCR \<in> {0, - 1}" "regs ! reg_DMACCR = - 1"
  shows "bar2_writes s regs = [wr (port_card s) 2 DMACCR_OFFSET 0x10000]"
  using assms by (auto simp: bar2_writes_def)

text \<open>Property C19. What the program \<open>registers.c\<close> does to the card, when nobody else has the port open:
  it marks the port as in use, writes CCR0 and BGR, and removes the mark; every request
  succeeds, and it is answered with the structure in which CCR1 and CCR2 have the values that were
  read and everything else is as initialised. It also resets the master of the DMA engine,
  which it never asked for: the entry it leaves at -1 has the reset bit set.\<close>

theorem registers_program:
  assumes "served E r registers_example" "fst (fscc_port_using_async E s) = 0" "open_counter s = 0"
  shows "\<exists>s' u v a b. perform E r registers_example s = Some s' \<and>
    writes (new_events s s') =
      [wr (port_card s) 2 FCR_OFFSET (u OR open_mark s),
       wr (port_card s) 0 CCR0_OFFSET 0x0011201c, wr (port_card s) 0 0x28 0,
       wr (port_card s) 2 DMACCR_OFFSET 0x10000,
       wr (port_card s) 2 FCR_OFFSET (v AND NOT (open_mark s))] \<and>
    outputs (new_events s s') =
      [(r + 2, regs_to_bytes (set_field CCR2 (ucast (b :: u32)) (set_field CCR1 (ucast (a :: u32)) client_init)))] \<and>
    replies (new_events s s') = [(r, STATUS_SUCCESS, 0), (r + 1, STATUS_SUCCESS, 0), (r + 2, STATUS_SUCCESS, 240)]"
proof -
  have srv: "serves E (r + 1) (control FSCC_SET_REGISTERS (regs_to_bytes registers_set) 0)"
    "serves E (r + 2) (control FSCC_GET_REGISTERS (regs_to_bytes registers_asked) 240)"
    using assms(1) by (simp_all add: registers_example_def registers_asked_entries(6) del: serves.simps)
  let ?s1 = "FsccDeviceFileCreate E r s"
  obtain u where u: "did s [wr (port_card s) 2 FCR_OFFSET (u OR open_mark s)] [] [(r, STATUS_SUCCESS, 0)] ?s1"
    "open_counter ?s1 = 1" using create_did [OF assms(2,3)] by blast
  have here: "port_card ?s1 = port_card s" using u(1) by (simp add: did_def)
  obtain s2 where 2: "handle E (request_of (r + 1) (control FSCC_SET_REGISTERS (regs_to_bytes registers_set) 0)) ?s1 = Some s2"
    "did ?s1 [wr (port_card s) 0 CCR0_OFFSET 0x0011201c, wr (port_card s) 0 0x28 0, wr (port_card s) 2 DMACCR_OFFSET 0x10000]
      [] [(r + 1, STATUS_SUCCESS, 0)] s2" "open_counter s2 = 1"
    using set_registers_did [OF srv(1) registers_set_entries(2,3), of ?s1] u(2)
      reset_only [of registers_set ?s1]
    by (auto simp: bar0_writes_entries registers_set_entries here simp del: request_of.simps upt_conv_Cons)
  obtain s3 a b where 3:
    "handle E (request_of (r + 2) (control FSCC_GET_REGISTERS (regs_to_bytes registers_asked) 240)) s2 = Some s3"
    "did s2 [] [(r + 2, regs_to_bytes (fill [8, 9] [a, b] registers_asked))] [(r + 2, STATUS_SUCCESS, 240)] s3"
    "open_counter s3 = 1"
    using get_registers_did [OF srv(2) registers_asked_entries(2) _ registers_asked_entries(1) [symmetric], of s2] 2(3)
    by (auto simp: length_Suc_conv numeral_2_eq_2 simp del: request_of.simps fill_simps)
  have fields: "registers_asked[8 := ucast a, 9 := ucast b] = set_field CCR2 (ucast b) (set_field CCR1 (ucast a) client_init)"
    by (simp add: set_field_def registers_asked_entries(3-5) list_update_swap [of 9 8 _ "- 2"])
  have through: "port_card s3 = port_card s" "channel s3 = channel s"
    using u(1) 2(2) 3(2) by (simp_all add: did_def)
  obtain v where v: "did s3 [wr (port_card s) 2 FCR_OFFSET (v AND NOT (open_mark s))] [] [] (FsccFileClose E s3)"
    using close_did [OF 3(3), of E] through by (auto simp: open_mark_def)
  have run: "perform E r registers_example s = Some (FsccFileClose E s3)"
    using 2(1) 3(1) did_opened [OF u(1)] by (simp add: registers_example_def registers_asked_entries(6))
  note all = did_trans [OF did_trans [OF did_trans [OF u(1) 2(2)] 3(2)] v]
  show ?thesis
    by (rule exI [of _ "FsccFileClose E s3"], rule exI [of _ u], rule exI [of _ v], rule exI [of _ a], rule exI [of _ b])
      (simp add: run did_new [OF all] fields)
qed

text \<open>An environment that hands the buffers of a program to the driver.\<close>

definition call_at :: "request \<Rightarrow> call list \<Rightarrow> request \<Rightarrow> call" where
  "call_at r cs q = (if r \<le> q \<and> q < r + length cs then cs ! (q - r) else CreateFile)"

definition program_env :: "request \<Rightarrow> call list \<Rightarrow> env" where
  "program_env r cs = queue_env\<lparr>
     input_buffer := (\<lambda>q n. case call_at r cs q of
         DeviceIoControl code input room \<Rightarrow>
           (if n \<le> length input then (STATUS_SUCCESS, input) else (STATUS_BUFFER_TOO_SMALL, []))
       | WriteFile bs \<Rightarrow> (if n \<le> length bs then (STATUS_SUCCESS, bs) else (STATUS_BUFFER_TOO_SMALL, []))
       | _ \<Rightarrow> input_buffer queue_env q n),
     output_buffer := (\<lambda>q n. case call_at r cs q of
         DeviceIoControl code input room \<Rightarrow> (if n \<le> room then STATUS_SUCCESS else STATUS_BUFFER_TOO_SMALL)
       | _ \<Rightarrow> STATUS_SUCCESS)\<rparr>"

lemma served_iff: "served E r cs \<longleftrightarrow> (\<forall>i < length cs. serves E (r + i) (cs ! i))"
proof (induction cs arbitrary: r)
  case (Cons c cs)
  then show ?case by (auto simp: less_Suc_eq_0_disj simp del: serves.simps)
qed simp

lemma program_env_serves: "served (program_env r cs) r cs"
proof -
  have "serves (program_env r cs) (r + i) (cs ! i)" if "i < length cs" for i
  proof -
    have "call_at r cs (r + i) = cs ! i" using that by (simp add: call_at_def)
    then show ?thesis by (cases "cs ! i") (simp_all add: program_env_def)
  qed
  then show ?thesis by (simp add: served_iff)
qed


lemma free_port_synchronous: "fst (fscc_port_using_async (program_env r cs) free_port) = 0" "open_counter free_port = 0"
  by (simp_all add: fscc_port_using_async_def get_register_eq Let_def hw_reg_def program_env_def queue_env_def
      example_defs FSCC_REGISTERS_INIT_def)

lemma registers_program_witness:
  "\<exists>s' u v a b. perform (program_env 1 registers_example) 1 registers_example free_port = Some s' \<and>
    writes (new_events free_port s') =
      [wr (port_card free_port) 2 FCR_OFFSET (u OR open_mark free_port),
       wr (port_card free_port) 0 CCR0_OFFSET 0x0011201c, wr (port_card free_port) 0 0x28 0,
       wr (port_card free_port) 2 DMACCR_OFFSET 0x10000,
       wr (port_card free_port) 2 FCR_OFFSET (v AND NOT (open_mark free_port))] \<and>
    outputs (new_events free_port s') =
      [(1 + 2, regs_to_bytes (set_field CCR2 (ucast (b :: u32)) (set_field CCR1 (ucast (a :: u32)) client_init)))] \<and>
    replies (new_events free_port s') = [(1, STATUS_SUCCESS, 0), (1 + 1, STATUS_SUCCESS, 0), (1 + 2, STATUS_SUCCESS, 240)]"
  by (rule registers_program [OF program_env_serves free_port_synchronous])

lemma default_settings_entries:
  "entries_set (default_settings_regs 0x0011201c) =
     [(0x08, 0x08001000), (0x1C, 0x0011201c), (0x20, 0x18), (0x24, 0), (0x28, 0), (0x2C, 0x7e), (0x30, 0), (0x34, 0x7e),
      (0x38, 0), (0x3C, 0), (0x40, 0), (0x44, 0), (0x48, 0), (0x54, 0x0f000000), (0x58, 4)]"
  "entries_set (default_settings_regs 0x00112004) =
     [(0x08, 0x08001000), (0x1C, 0x00112004), (0x20, 0x18), (0x24, 0), (0x28, 0), (0x2C, 0x7e), (0x30, 0), (0x34, 0x7e),
      (0x38, 0), (0x3C, 0), (0x40, 0), (0x44, 0), (0x48, 0), (0x54, 0x0f000000), (0x58, 4)]"
  by code_simp+

lemma default_settings_other:
  assumes "v \<in> {0x0011201c, 0x00112004}"
  shows "length (default_settings_regs v) = NUM_REGS" "\<not> settable (default_settings_regs v) reg_CMDR"
    "default_settings_regs v ! reg_FCR \<in> {0, - 1}" "default_settings_regs v ! reg_DMACCR = - 1"
  using assms by (elim insertE emptyE; hypsubst; code_simp)+

definition settings_written :: "driver \<Rightarrow> u32 \<Rightarrow> event list" where
  "settings_written s ccr0 = map (\<lambda>(off, v). wr (port_card s) 0 off v)
     [(0x08, 0x08001000), (0x1C, ccr0), (0x20, 0x18), (0x24, 0), (0x28, 0), (0x2C, 0x7e), (0x30, 0), (0x34, 0x7e),
      (0x38, 0), (0x3C, 0), (0x40, 0), (0x44, 0), (0x48, 0), (0x54, 0x0f000000), (0x58, 4)] @
     [wr (port_card s) 2 DMACCR_OFFSET 0x10000]"

lemma settings_did:
  assumes "serves E r (control FSCC_SET_REGISTERS (regs_to_bytes (default_settings_regs v)) room)"
    and "v \<in> {0x0011201c, 0x00112004}" "port_card t = port_card s"
  shows "\<exists>t'. handle E (request_of r (control FSCC_SET_REGISTERS (regs_to_bytes (default_settings_regs v)) room)) t = Some t' \<and>
    did t (settings_written s (ucast v)) [] [(r, STATUS_SUCCESS, 0)] t' \<and>
    open_counter t' = open_counter t \<and> append_status t' = append_status t"
proof -
  note other = default_settings_other [OF assms(2)]
  have "bar0_writes (port_card t) (default_settings_regs v) False [0..<NUM_REGS] @ bar2_writes t (default_settings_regs v) =
      settings_written s (ucast v)"
    using assms(2) reset_only [OF other(3,4), of t]
    by (auto simp: bar0_writes_entries default_settings_entries settings_written_def assms(3) simp del: upt_conv_Cons)
  with set_registers_did [OF assms(1) other(1,2), of t] show ?thesis by simp
qed

text \<open>Property C18. What the tool \<open>default_settings.c\<close> does, given its argument and a synchronous port
  nobody has open: every register of the port gets the default the tool names, in the order of
  their addresses, first with the receiver and transmitter in reset and then without; the
  status bytes are switched off, every request succeeds and the tool reports success. FCR is not
  written, though the tool sets it to 0, and each setting resets the DMA master.\<close>

theorem default_settings_program:
  assumes "served E r (CreateFile # default_settings_calls @ [CloseHandle])"
    and "fst (fscc_port_using_async E s) = 0" "open_counter s = 0"
  shows "\<exists>s' u v. default_settings_tool 2 E r s = Some (EXIT_SUCCESS, s') \<and>
    writes (new_events s s') = [wr (port_card s) 2 FCR_OFFSET (u OR open_mark s)] @
      settings_written s 0x0011201c @ settings_written s 0x00112004 @
      [wr (port_card s) 2 FCR_OFFSET (v AND NOT (open_mark s))] \<and>
    append_status s' = FALSE \<and>
    replies (new_events s s') = map (\<lambda>i. (i, STATUS_SUCCESS, 0)) [r, r + 1, r + 2, r + 3]"
proof -
  have srv: "serves E (r + 1) (control FSCC_SET_REGISTERS (regs_to_bytes (default_settings_regs 0x0011201c)) 0)"
    "serves E (r + 2) (control FSCC_SET_REGISTERS (regs_to_bytes (default_settings_regs 0x00112004)) 0)"
    using assms(1) by (simp_all add: default_settings_calls_def del: serves.simps)
  let ?s1 = "FsccDeviceFileCreate E r s"
  obtain u where u: "did s [wr (port_card s) 2 FCR_OFFSET (u OR open_mark s)] [] [(r, STATUS_SUCCESS, 0)] ?s1"
    "open_counter ?s1 = 1" using create_did [OF assms(2,3)] by blast
  then have "port_card ?s1 = port_card s" by (simp add: did_def)
  from settings_did [OF srv(1) _ this] u(2) obtain s2 where 2:
    "handle E (request_of (r + 1) (control FSCC_SET_REGISTERS (regs_to_bytes (default_settings_regs 0x0011201c)) 0)) ?s1 = Some s2"
    "did ?s1 (settings_written s 0x0011201c) [] [(r + 1, STATUS_SUCCESS, 0)] s2" "open_counter s2 = 1" by auto
  have "port_card s2 = port_card s" using u(1) 2(2) by (simp add: did_def)
  from settings_did [OF srv(2) _ this] 2(3) obtain s3 where 3:
    "handle E (request_of (r + 2) (control FSCC_SET_REGISTERS (regs_to_bytes (default_settings_regs 0x00112004)) 0)) s2 = Some s3"
    "did s2 (settings_written s 0x00112004) [] [(r + 2, STATUS_SUCCESS, 0)] s3" "open_counter s3 = 1" by auto
  obtain s4 where 4: "handle E (request_of (r + 3) (control FSCC_DISABLE_APPEND_STATUS [] 0)) s3 = Some s4"
    "did s3 [] [] [(r + 3, STATUS_SUCCESS, 0)] s4" "open_counter s4 = 1" "append_status s4 = 0"
    using disable_status_did [of E "r + 3" "[]" 0 s3] 3(3) by auto
  have through: "port_card s4 = port_card s" "channel s4 = channel s"
    using u(1) 2(2) 3(2) 4(2) by (simp_all add: did_def)
  obtain v where v: "did s4 [wr (port_card s) 2 FCR_OFFSET (v AND NOT (open_mark s))] [] [] (FsccFileClose E s4)"
    "append_status (FsccFileClose E s4) = 0"
    using close_did [OF 4(3), of E] through 4(4) by (auto simp: open_mark_def)
  have "opened r ?s1" by (rule did_opened [OF u(1)])
  then have run: "default_settings_tool 2 E r s = Some (EXIT_SUCCESS, FsccFileClose E s4)"
    using 2(1) 3(1) 4(1)
    by (simp add: default_settings_tool_def tool_def program_def default_settings_calls_def numeral_2_eq_2 numeral_3_eq_3)
  note all = did_trans [OF did_trans [OF did_trans [OF did_trans [OF u(1) 2(2)] 3(2)] 4(2)] v(1)]
  show ?thesis
    by (rule exI [of _ "FsccFileClose E s4"], rule exI [of _ u], rule exI [of _ v])
      (simp add: run did_new [OF all] v(2))
qed

lemma default_settings_program_witness:
  "\<exists>s' u v. default_settings_tool 2 (program_env 1 (CreateFile # default_settings_calls @ [CloseHandle])) 1 free_port =
      Some (EXIT_SUCCESS, s') \<and>
    writes (new_events free_port s') = [wr (port_card free_port) 2 FCR_OFFSET (u OR open_mark free_port)] @
      settings_written free_port 0x0011201c @ settings_written free_port 0x00112004 @
      [wr (port_card free_port) 2 FCR_OFFSET (v AND NOT (open_mark free_port))] \<and>
    append_status s' = FALSE \<and>
    replies (new_events free_port s') = map (\<lambda>i. (i, STATUS_SUCCESS, 0)) [1, 1 + 1, 1 + 2, 1 + 3]"
  by (rule default_settings_program [OF program_env_serves free_port_synchronous])

section \<open>A frequency on its way to the clock generator\<close>

text \<open>The bit of the crystal is in none of the fields of the clock bits.\<close>

lemma xtal_bit_decodes:
  assumes "xtal_bit bits sent" "length bits = 20"
  shows "decode_input sent = decode_input bits" "decode_vco sent = decode_vco bits"
    "decode_filter sent = decode_filter bits" "decode_pump sent = decode_pump bits"
    "decode_output sent = decode_output bits"
proof -
  have seven: "bit (b AND 0xfb) 7 = bit b 7" "bit (b OR 0x04) 7 = bit b 7" for b :: u8
  proof -
    have "bit (0xfb :: u8) 7" "\<not> bit (0x04 :: u8) 7" by code_simp+
    then show "bit (b AND 0xfb) 7 = bit b 7" "bit (b OR 0x04) 7 = bit b 7"
      by (simp_all only: bit_and_iff bit_or_iff simp_thms)
  qed
  have nth: "sent ! i = bits ! i" if "i \<noteq> 15" for i using assms(1) that by (auto simp: xtal_bit_def)
  have "sent ! 15 = bits ! 15 AND 0xfb \<or> sent ! 15 = bits ! 15 OR 0x04"
    using assms unfolding xtal_bit_def by (elim insertE emptyE) (simp_all only: nth_list_update_eq, simp_all)
  then have pump: "bit (sent ! 15) 7 = bit (bits ! 15) 7" using seven by metis
  have fields: "sent ! 0 = bits ! 0" "sent ! 1 = bits ! 1" "sent ! 2 = bits ! 2" "sent ! 11 = bits ! 11"
    "sent ! 12 = bits ! 12" "sent ! 13 = bits ! 13" "sent ! 16 = bits ! 16" by (rule nth, simp)+
  show "decode_input sent = decode_input bits" "decode_vco sent = decode_vco bits"
    "decode_filter sent = decode_filter bits" "decode_pump sent = decode_pump bits"
    "decode_output sent = decode_output bits"
    unfolding decode_input_def decode_vco_def decode_filter_def decode_pump_def pump_bits_def decode_output_def
      fields pump by (rule refl)+
qed

text \<open>What the calculation answers when it succeeds; the program passes it on as it is.\<close>

lemma calculated:
  assumes "calculate_clock_bits_fscc D \<lparr>frequency = f, clock_bits = bits\<rparr> ppm = Some (0, c)" "ppm \<noteq> 0xffffffff"
  shows "\<exists>x p. p \<le> ppm \<and> solution_ok D f (allowable_error D p f) x \<and> length (clock_bits c) = 20 \<and>
    decode_input (clock_bits c) = refDiv x \<and> decode_vco (clock_bits c) = VCO_Div x \<and>
    decode_filter (clock_bits c) = filter_Rs x \<and> decode_pump (clock_bits c) = Some (filter_icpnum x) \<and>
    decode_output (clock_bits c) = Some (outDiv x)"
proof -
  let ?c = "\<lparr>frequency = f, clock_bits = bits\<rparr>"
  note search = ppm_loop_result [OF assms(2) word_zero_le, of D f]
  from assms(1) search obtain x p where x: "p \<le> ppm" "solution_ok D f (allowable_error D p f) x"
    and loop: "ppm_loop D f ppm 0 = Some (Some x)"
    by (auto simp: calculate_clock_bits_fscc_def GetICS30703Data_def Let_def split: option.splits sum.splits)
  from solution_ok_programs [OF x(2)] loop assms(1) x show ?thesis
    by (intro exI [of _ x] exI [of _ p])
      (auto simp: calculate_clock_bits_fscc_def GetICS30703Data_def Let_def)
qed

lemma set_clock_did:
  assumes "serves E r (control FSCC_SET_CLOCK_BITS (clock_structure c) room)" "length (clock_bits c) = 20"
    and run: "fscc_port_set_clock_bits E (clock_bits c) s = Some (sent, emits es s)"
  shows "handle E (request_of r (control FSCC_SET_CLOCK_BITS (clock_structure c) room)) s =
    Some (emits (es @ [Request_complete r STATUS_SUCCESS 0]) s)"
proof -
  have buf: "input_buffer E r SIZEOF_CLOCK_DATA = (STATUS_SUCCESS, clock_structure c)"
    using assms(1,2) by (simp add: clock_structure_def)
  have bytes: "drop 4 (clock_structure c) = clock_bits c" "length (clock_structure c) = SIZEOF_CLOCK_DATA"
    "take 20 (clock_bits c) = clock_bits c"
    using assms(2) by (simp_all add: clock_structure_def)
  show ?thesis
    by (simp add: FsccEvtIoDeviceControl_def client_code_known finish_ioctl_def ioctl_set_clock_bits_def buf bytes run
        emits_emits)
qed

text \<open>Property C15. A frequency arrives at the clock generator: when the calculation of the library
  succeeds and the program passes its result to the driver, the request succeeds, and
  unless the driver finds no memory for the serial data, a receiver on the data and clock pins of
  this channel takes in twenty bytes that read back as the dividers and the loop filter of a
  solution of the search for the requested frequency, within the error the program allowed. The
  bit of the crystal, which the driver sets itself, is in none of those fields.\<close>

theorem frequency_reaches_chip:
  assumes "calculate_clock_bits_fscc D \<lparr>frequency = f, clock_bits = bits\<rparr> ppm = Some (0, c)" "ppm \<noteq> 0xffffffff"
    and "serves E r (control FSCC_SET_CLOCK_BITS (clock_structure c) room)"
  shows "\<exists>s'. handle E (request_of r (control FSCC_SET_CLOCK_BITS (clock_structure c) room)) s = Some s' \<and>
    replies (new_events s s') = [(r, STATUS_SUCCESS, 0)] \<and>
    (Pool_allocate (4 * 323) False \<in> set (new_events s s') \<or>
     (\<exists>data orig sent x p. writes (new_events s s') = map (wr (port_card s) 2 FCR_OFFSET) (data @ [orig]) \<and>
        shift_in (pin_value s DTA_BASE) (pin_value s CLK_BASE) False data = serial_bits sent 20 \<and>
        p \<le> ppm \<and> solution_ok D f (allowable_error D p f) x \<and>
        decode_input sent = refDiv x \<and> decode_vco sent = VCO_Div x \<and> decode_filter sent = filter_Rs x \<and>
        decode_pump sent = Some (filter_icpnum x) \<and> decode_output sent = Some (outDiv x)))"
proof -
  from calculated [OF assms(1,2)] obtain x p where x: "p \<le> ppm" "solution_ok D f (allowable_error D p f) x"
    "length (clock_bits c) = 20" "decode_input (clock_bits c) = refDiv x" "decode_vco (clock_bits c) = VCO_Div x"
    "decode_filter (clock_bits c) = filter_Rs x" "decode_pump (clock_bits c) = Some (filter_icpnum x)"
    "decode_output (clock_bits c) = Some (outDiv x)" by blast
  from clock_bits_result [of E "clock_bits c" s] obtain sent es where
    set: "fscc_port_set_clock_bits E (clock_bits c) s = Some (sent, emits es s)"
    and es: "calm es" "xtal_bit (clock_bits c) sent"
    and sent: "if Pool_allocate (4 * 323) False \<in> set es then writes es = []
      else \<exists>data orig. writes es = map (wr (port_card s) 2 FCR_OFFSET) (data @ [orig]) \<and>
        length data = 322 \<and> rd (port_card s) 2 FCR_OFFSET orig \<in> set es \<and>
        shift_in (pin_value s DTA_BASE) (pin_value s CLK_BASE) False data = serial_bits sent 20 \<and>
        map (\<lambda>w. w AND pin_value s STRB_BASE \<noteq> 0) data = replicate 321 False @ [True] \<and>
        list_all (same_outside 0xf0f orig) data" by metis
  let ?s' = "emits (es @ [Request_complete r STATUS_SUCCESS 0]) s"
  have run: "handle E (request_of r (control FSCC_SET_CLOCK_BITS (clock_structure c) room)) s = Some ?s'"
    by (rule set_clock_did [OF assms(3) x(3) set])
  have new: "new_events s ?s' = es @ [Request_complete r STATUS_SUCCESS 0]" by simp
  have replies: "replies (new_events s ?s') = [(r, STATUS_SUCCESS, 0)]" using calm_silent [OF es(1)] by simp
  note decodes = xtal_bit_decodes [OF es(2) x(3)]
  show ?thesis
  proof (cases "Pool_allocate (4 * 323) False \<in> set es")
    case True
    then have "Pool_allocate (4 * 323) False \<in> set (new_events s ?s')" by simp
    with run replies show ?thesis by blast
  next
    case False
    with sent obtain data orig where "writes (new_events s ?s') = map (wr (port_card s) 2 FCR_OFFSET) (data @ [orig])"
      "shift_in (pin_value s DTA_BASE) (pin_value s CLK_BASE) False data = serial_bits sent 20"
      unfolding new by auto
    with run replies x(1,2) x(4-8) [folded decodes] show ?thesis by blast
  qed
qed

lemma frequency_reaches_chip_witness:
  "\<exists>c. calculate_clock_bits_fscc exact \<lparr>frequency = 12000000, clock_bits = replicate 20 0\<rparr> 10 = Some (0, c) \<and>
    (let call = control FSCC_SET_CLOCK_BITS (clock_structure c) 0; E = program_env 1 [call]
     in \<exists>s'. handle E (request_of 1 call) free_port = Some s' \<and>
       replies (new_events free_port s') = [(1, STATUS_SUCCESS, 0)] \<and>
       (Pool_allocate (4 * 323) False \<in> set (new_events free_port s') \<or>
        (\<exists>data orig sent x p. writes (new_events free_port s') = map (wr (port_card free_port) 2 FCR_OFFSET) (data @ [orig]) \<and>
           shift_in (pin_value free_port DTA_BASE) (pin_value free_port CLK_BASE) False data = serial_bits sent 20 \<and>
           p \<le> 10 \<and> solution_ok exact 12000000 (allowable_error exact p 12000000) x \<and>
           decode_input sent = refDiv x \<and> decode_vco sent = VCO_Div x \<and> decode_filter sent = filter_Rs x \<and>
           decode_pump sent = Some (filter_icpnum x) \<and> decode_output sent = Some (outDiv x))))"
proof -
  obtain c where c: "calculate_clock_bits_fscc exact \<lparr>frequency = 12000000, clock_bits = replicate 20 0\<rparr> 10 = Some (0, c)"
    using example_calculated by blast
  let ?call = "control FSCC_SET_CLOCK_BITS (clock_structure c) 0"
  have srv: "serves (program_env 1 [?call]) 1 ?call" using program_env_serves [of 1 "[?call]"] by (simp only: served.simps)
  have "(10 :: u32) \<noteq> 0xffffffff" by simp
  from frequency_reaches_chip [OF c this srv, of free_port] c show ?thesis unfolding Let_def by blast
qed

section \<open>Every program is answered\<close>





















end
