(* ===== verification/Fscc_Lifecycle.thy ===== *)
theory Fscc_Lifecycle
  imports Fscc_Driver
begin

text \<open>
  The life of a port, from \<open>FsccEvtDevicePrepareHardware\<close> over any run of its handlers to
  \<open>FsccEvtDeviceReleaseHardware\<close> (\<open>port.c\<close>): what preparing allocates, also when it fails on
  the way, is held by the two rings, the handlers keep it, and releasing frees it.
\<close>

section \<open>What the rings hold\<close>

text \<open>The frame counts are right, and the rings account for all memory allocated since \<open>s0\<close>: the
  array and one block for each frame, and two common buffers for each frame.\<close>

definition counts_right :: "driver \<Rightarrow> bool" where
  "counts_right s \<longleftrightarrow> (\<forall>fs. rx_descriptors s = Some fs \<longrightarrow> unat (rx_num (memory s)) = length fs) \<and>
     (\<forall>fs. tx_descriptors s = Some fs \<longrightarrow> unat (tx_num (memory s)) = length fs)"

definition ring_blocks :: "dma_frame list option \<Rightarrow> int" where
  "ring_blocks descs = (case descs of None \<Rightarrow> 0 | Some fs \<Rightarrow> 1 + int (length fs))"

definition ring_buffers :: "dma_frame list option \<Rightarrow> int" where
  "ring_buffers descs = (case descs of None \<Rightarrow> 0 | Some fs \<Rightarrow> 2 * int (length fs))"

lemma ring_holds [simp]:
  "ring_blocks None = 0" "ring_blocks (Some fs) = 1 + int (length fs)"
  "ring_buffers None = 0" "ring_buffers (Some fs) = 2 * int (length fs)"
  by (simp_all add: ring_blocks_def ring_buffers_def)

definition rings_hold :: "driver \<Rightarrow> driver \<Rightarrow> bool" where
  "rings_hold s0 s \<longleftrightarrow> counts_right s \<and> length (bar (port_card s)) = length (bar (port_card s0)) \<and>
     grows s0 (ring_blocks (rx_descriptors s) + ring_blocks (tx_descriptors s))
       (ring_buffers (rx_descriptors s) + ring_buffers (tx_descriptors s)) s"

text \<open>Steps that change neither.\<close>

definition even_step :: "driver \<Rightarrow> driver \<Rightarrow> bool" where
  "even_step s t \<longleftrightarrow> map_option length (rx_descriptors t) = map_option length (rx_descriptors s) \<and>
     map_option length (tx_descriptors t) = map_option length (tx_descriptors s) \<and> memory t = memory s \<and>
     length (bar (port_card t)) = length (bar (port_card s)) \<and> grows s 0 0 t"

lemma even_refl [simp]: "even_step s s"
  by (simp add: even_step_def grows_def)

lemma even_trans [trans]: "even_step s t \<Longrightarrow> even_step t u \<Longrightarrow> even_step s u"
  by (simp add: even_step_def grows_def)

lemma even_io_step: "io_step s t \<Longrightarrow> even_step s t"
  by (simp add: even_step_def grows_io_step io_stepD)

lemma even_events: "pool_live h = pool_live (events s) \<Longrightarrow> buffers_live h = buffers_live (events s) \<Longrightarrow>
    even_step s (s\<lparr>events := h\<rparr>)"
  by (simp add: even_step_def grows_def)

lemma even_same:
  assumes "rx_descriptors t = rx_descriptors s" "tx_descriptors t = tx_descriptors s" "memory t = memory s"
    "port_card t = port_card s" "events t = events s"
  shows "even_step s t"
  using assms by (simp add: even_step_def grows_def)

lemma held_even: "rings_hold s0 s \<Longrightarrow> even_step s t \<Longrightarrow> rings_hold s0 t"
  by (cases "rx_descriptors s"; cases "tx_descriptors s")
    (auto simp: rings_hold_def even_step_def counts_right_def grows_def)

section \<open>Preparing\<close>

lemma card_init_loop_even: "even_step s (snd (card_init_loop P i n resources s))"
proof (induction P i n resources s rule: card_init_loop.induct)
  case (3 P i bar_num start rest s)
  have "even_step s (set_bar (bar_of i bar_num) \<lparr>address = ucast start, memory_mapped = FALSE\<rparr> s)"
    by (simp add: even_step_def grows_def set_bar_def)
  from even_trans [OF this] 3 show ?case by (simp add: Let_def)
next
  case (4 P i bar_num start len rest s)
  let ?b = "\<lparr>address = mapped_address P (events s) start len, memory_mapped = TRUE\<rparr>"
  have "even_step s (set_bar (bar_of i bar_num) ?b (emit (Framework (Map_io_space start len) STATUS_SUCCESS) s))"
    by (simp add: even_step_def grows_def set_bar_def)
  from even_trans [OF this] 4 show ?case by (simp add: Let_def)
qed simp_all

lemma card_init_even: "fscc_card_init P resources s = (st, s') \<Longrightarrow> even_step s s'"
proof -
  assume run: "fscc_card_init P resources s = (st, s')"
  let ?s1 = "s\<lparr>port_card := (port_card s)\<lparr>device_id := 0\<rparr>\<rparr>"
  have s1: "even_step s ?s1" by (simp add: even_step_def grows_def)
  obtain st2 s2 where s2: "card_init_loop P 0 0 resources ?s1 = (st2, s2)" by fastforce
  have "even_step s s2" using even_trans [OF s1] card_init_loop_even [of ?s1 P 0 0 resources] s2 by simp
  moreover have "even_step s2 s'"
    using run s2 by (auto simp: fscc_card_init_def Let_def PCIReadConfigWord_def even_step_def grows_def
        split: if_splits option.splits)
  ultimately show ?thesis by (rule even_trans)
qed

lemma framework_live [simp]:
  "pool_live (snd (framework P c h)) = pool_live h" "buffers_live (snd (framework P c h)) = buffers_live h"
  "pool_live (logged c h) = pool_live h" "buffers_live (logged c h) = buffers_live h"
  by (simp_all add: framework_def logged_def Let_def)

lemma query_live [simp]:
  "pool_live (snd (value_or_default P key key_str d h)) = pool_live h"
  "buffers_live (snd (value_or_default P key key_str d h)) = buffers_live h"
  by (simp_all add: value_or_default_def WdfRegistryQueryULong_def split_beta Let_def)

lemma load_registers_live:
  "pool_live (snd (load_registers P key table regs h)) = pool_live h \<and>
   buffers_live (snd (load_registers P key table regs h)) = buffers_live h"
proof (induction P key table regs h rule: load_registers.induct)
  case (2 P key key_str i d rest regs h)
  then show ?case
    using query_live [of P key key_str d h] by (simp add: split_beta Let_def)
qed simp

lemma default_memory_even: "even_step s (snd (snd (on_registry (fscc_port_get_default_memory P d mem) s)))"
  unfolding on_registry_def fscc_port_get_default_memory_def Let_def split_beta
  by (auto intro!: even_events)

lemma default_registers_even: "even_step s (snd (snd (on_registry (fscc_port_get_default_registers P d regs) s)))"
  unfolding on_registry_def fscc_port_get_default_registers_def Let_def split_beta
  by (auto simp: load_registers_live intro!: even_events)

lemma set_registers_even: "even_step s (snd (fscc_port_set_registers E regs s))"
proof -
  obtain st s' where run: "fscc_port_set_registers E regs s = (st, s')" by fastforce
  from set_registers_spec [OF run] obtain es st' where "s' = emits es (s\<lparr>register_storage := st'\<rparr>)" "list_all quiet es"
    by auto
  then show ?thesis by (simp add: run even_step_def grows_def live_quiet)
qed

lemma write_default_registers_even: "even_step s (write_default_registers E P d s)"
proof -
  obtain st regs s1 where r: "on_registry (fscc_port_get_default_registers P d initial_registers) s = (st, regs, s1)"
    by (cases "on_registry (fscc_port_get_default_registers P d initial_registers) s")
  have "even_step s s1" using default_registers_even [of s P d initial_registers] by (simp add: r)
  also have "even_step s1 (s1\<lparr>register_storage := regs\<rparr>)" by (rule even_same) simp_all
  also note set_registers_even
  finally show ?thesis by (simp add: write_default_registers_def r)
qed

lemma map_frames_length: "map_frames f n descs = Some descs' \<Longrightarrow> map_option length descs' = map_option length descs"
  by (auto simp: map_frames_def frames_in_def split: option.splits if_splits)

lemma reset_rx_even:
  assumes "fscc_io_reset_rx E s = Some (st, s')"
  shows "even_step s s'"
proof -
  let ?s3 = "snd (fscc_dma_execute_RST_R E (snd (fscc_io_execute_RRES E (snd (fscc_dma_execute_STOP_R E s)))))"
  have "io_step s ?s3"
    using io_step_trans [OF io_step_trans [OF dma_execute_io_step(1) set_register_snd_io_step] dma_execute_io_step(5)]
    by (simp add: fscc_io_execute_RRES_def)
  then have "even_step s ?s3" by (rule even_io_step)
  moreover have "even_step ?s3 s'"
    using assms by (auto simp: fscc_io_reset_rx_def Let_def split_beta bind_eq_Some_conv even_step_def grows_def
        dest!: map_frames_length)
  ultimately show ?thesis by (rule even_trans)
qed

lemma reset_tx_even:
  assumes "fscc_io_reset_tx E s = Some (st, s')"
  shows "even_step s s'"
proof -
  let ?s3 = "snd (fscc_dma_execute_RST_T E (snd (fscc_io_execute_TRES E (snd (fscc_dma_execute_STOP_T E s)))))"
  have "io_step s ?s3"
    using io_step_trans [OF io_step_trans [OF dma_execute_io_step(2) set_register_snd_io_step] dma_execute_io_step(6)]
    by (simp add: fscc_io_execute_TRES_def)
  then have "even_step s ?s3" by (rule even_io_step)
  moreover have "even_step ?s3 s'"
    using assms by (auto simp: fscc_io_reset_tx_def Let_def split_beta bind_eq_Some_conv even_step_def grows_def
        dest!: map_frames_length)
  ultimately show ?thesis by (rule even_trans)
qed

lemma purge_rx_even:
  assumes "fscc_io_purge_rx E s = Some (st, s')"
  shows "even_step s s'"
proof -
  let ?ccr0 = "ucast (register_storage s ! reg_CCR0) :: u32"
  let ?s1 = "snd (fscc_port_set_register E 0 CCR0_OFFSET (?ccr0 OR 0x02000000) s)"
  let ?es = "[Queue_purge read_queue, Queue_purge read_queue2, Queue_start read_queue, Queue_start read_queue2]"
  from assms obtain st2 s2 s3 where r: "fscc_io_reset_rx E ?s1 = Some (st2, s2)"
    "s3 = s2 \<or> (\<exists>a. s3 = snd (fscc_dma_execute_GO_R E (snd (fscc_port_set_register E 2 DMA_RX_BASE_OFFSET a s2))))"
    "s' = snd (fscc_port_set_register E 0 CCR0_OFFSET ?ccr0 (emits ?es s3))"
    by (auto simp: fscc_io_purge_rx_def Let_def bind_eq_Some_conv split: if_splits)
  have "even_step s ?s1" by (rule even_io_step) simp
  also have "even_step ?s1 s2" by (rule reset_rx_even [OF r(1)])
  also have "even_step s2 s3"
    using r(2) io_step_trans [OF set_register_snd_io_step dma_execute_io_step(3)] by (auto intro: even_io_step)
  also have "even_step s3 s'"
    unfolding r(3) by (rule even_io_step, rule io_step_trans [OF io_step_emits [of ?es] set_register_snd_io_step]) simp
  finally show ?thesis .
qed

lemma purge_tx_even:
  assumes "fscc_io_purge_tx E s = Some (st, s')"
  shows "even_step s s'"
proof -
  let ?es = "[Queue_purge write_queue, Queue_purge write_queue2, Queue_start write_queue, Queue_start write_queue2]"
  from assms obtain st2 s1 s2 where r: "fscc_io_reset_tx E s = Some (st2, s1)"
    "s2 = s1 \<or> (\<exists>a. s2 = snd (fscc_port_set_register E 2 DMA_TX_BASE_OFFSET a s1))" "s' = emits ?es s2"
    by (auto simp: fscc_io_purge_tx_def Let_def bind_eq_Some_conv split: if_splits)
  have "even_step s s1" by (rule reset_tx_even [OF r(1)])
  also have "even_step s1 s2" using r(2) by (auto intro: even_io_step)
  also have "even_step s2 s'" unfolding r(3) by (intro even_io_step io_step_emits) simp
  finally show ?thesis .
qed

lemma start_port_even:
  assumes "start_port E s = Some s'"
  shows "even_step s s'"
proof -
  let ?s1 = "s\<lparr>rx_frame_size := 0, last_isr_value := 0\<rparr>"
  obtain bits es where clk: "fscc_port_set_clock_bits E DEFAULT_CLOCK_BITS ?s1 = Some (bits, emits es ?s1)" "calm es"
    using clock_bits_result by blast
  let ?s2 = "emits es ?s1"
  from assms clk(1) obtain s3 st4 s4 st5 where r: "s3 = ?s2 \<or> s3 = snd (fscc_dma_port_enable E ?s2)"
    "fscc_io_purge_rx E s3 = Some (st4, s4)" "fscc_io_purge_tx E s4 = Some (st5, s')"
    unfolding start_port_def Let_def by (auto simp: bind_eq_Some_conv split: if_splits)
  have "even_step s ?s2" using clk(2) by (simp add: even_step_def grows_def calm_def)
  also have "even_step ?s2 s3" using r(1) by (auto simp: fscc_dma_port_enable_def intro: even_io_step)
  also note purge_rx_even [OF r(2)]
  also note purge_tx_even [OF r(3)]
  finally show ?thesis .
qed

lemma default_settings_even: "even_step s (default_settings E s)"
proof -
  let ?s7 = "s\<lparr>append_status := 0, append_timestamp := 0, ignore_timeout := 0, tx_modifiers := 0,
     rx_multiple := 0, wait_on_write := 0, blocking_write := 0\<rparr>"
  have run: "default_settings E s = snd (fscc_port_set_force_fifo E 0 ?s7)"
    by (simp add: default_settings_def fscc_port_set_append_status_def fscc_port_set_append_timestamp_def
        fscc_port_set_ignore_timeout_def fscc_port_set_tx_modifiers_def fscc_port_set_rx_multiple_def
        fscc_port_set_wait_on_write_def fscc_port_set_blocking_write_def)
  have forced: "even_step ?s7 (?s7\<lparr>force_fifo := v\<rparr>)" for v by (rule even_same) simp_all
  have "even_step s ?s7" by (rule even_same) simp_all
  also have "even_step ?s7 (default_settings E s)"
    unfolding run fscc_port_set_force_fifo_def Let_def
    using even_trans [OF forced even_io_step [OF set_register_snd_io_step]]
    by (simp add: fscc_dma_port_enable_def)
  finally show ?thesis .
qed

text \<open>Creating a ring leaves the rest alone.\<close>

lemma create_frame_same:
  assumes "fscc_io_create_frame E bytes s = (r, s')"
  shows "\<exists>h. s' = s\<lparr>events := h\<rparr>"
  using assms
  by (auto simp: fscc_io_create_frame_def pool_alloc_def wdf_common_buffer_create_def Let_def emit_def
      split: if_splits prod.splits)

lemma create_frames_same: "create_frames E cnt bytes i n s = (fs, s') \<Longrightarrow> \<exists>h. s' = s\<lparr>events := h\<rparr>"
proof (induction n arbitrary: i s fs s')
  case 0
  then show ?case by (auto intro: exI [of _ "events s"])
next
  case (Suc n)
  obtain r s1 where one: "fscc_io_create_frame E bytes s = (r, s1)" by fastforce
  then obtain h where s1: "s1 = s\<lparr>events := h\<rparr>" using create_frame_same by blast
  obtain fs' s2 where rec: "create_frames E cnt bytes (i + 1) n s1 = (fs', s2)" by fastforce
  then obtain h' where "s2 = s1\<lparr>events := h'\<rparr>" using Suc.IH by blast
  then have "s2 = s\<lparr>events := h'\<rparr>" by (simp add: s1)
  with Suc.prems one rec s1 show ?case by (cases r) (auto simp: Let_def)
qed

lemma create_rx_same:
  assumes "fscc_io_create_rx E number bytes s = (st, s')"
  shows "tx_descriptors s' = tx_descriptors s \<and> tx_num (memory s') = tx_num (memory s) \<and> port_card s' = port_card s"
  using assms
  by (auto simp: fscc_io_create_rx_def pool_alloc_def Let_def emit_def split: if_splits prod.splits
      dest!: create_frames_same)

lemma create_tx_same:
  assumes "fscc_io_create_tx E number bytes s = (st, s')"
  shows "rx_descriptors s' = rx_descriptors s \<and> rx_num (memory s') = rx_num (memory s) \<and> port_card s' = port_card s"
  using assms
  by (auto simp: fscc_io_create_tx_def pool_alloc_def Let_def emit_def split: if_splits prod.splits
      dest!: create_frames_same)

lemma create_rx_held:
  assumes "fscc_io_create_rx E number bytes s = (st, s')" "rings_hold s0 s" "rx_descriptors s = None"
  shows "rings_hold s0 s'"
  using create_rx_shape [OF assms(1)] create_rx_same [OF assms(1)] assms(2,3)
  by (auto simp: rings_hold_def counts_right_def grows_def)

lemma create_tx_held:
  assumes "fscc_io_create_tx E number bytes s = (st, s')" "rings_hold s0 s" "tx_descriptors s = None"
  shows "rings_hold s0 s'"
  using create_tx_shape [OF assms(1)] create_tx_same [OF assms(1)] assms(2,3)
  by (auto simp: rings_hold_def counts_right_def grows_def)

lemma destroy_rx_held:
  assumes "rings_hold s0 s"
  shows "\<exists>s'. fscc_io_destroy_rx E s = Some s' \<and> rings_hold s0 s' \<and> rx_descriptors s' = None \<and>
    tx_descriptors s' = tx_descriptors s"
proof (cases "rx_descriptors s")
  case None
  with destroy_rx_result [of s "[]" E] assms show ?thesis by (auto simp: rings_hold_def counts_right_def grows_def)
next
  case (Some fs)
  with destroy_rx_result [of s fs E] assms show ?thesis by (auto simp: rings_hold_def counts_right_def grows_def)
qed

lemma destroy_tx_held:
  assumes "rings_hold s0 s"
  shows "\<exists>s'. fscc_io_destroy_tx E s = Some s' \<and> rings_hold s0 s' \<and> tx_descriptors s' = None \<and>
    rx_descriptors s' = rx_descriptors s"
proof (cases "tx_descriptors s")
  case None
  with destroy_tx_result [of s "[]" E] assms show ?thesis by (auto simp: rings_hold_def counts_right_def grows_def)
next
  case (Some fs)
  with destroy_tx_result [of s fs E] assms show ?thesis by (auto simp: rings_hold_def counts_right_def grows_def)
qed

lemma create_rings_held:
  assumes "create_rings E P d s = Some (st, s')" "rings_hold s0 s" "rx_descriptors s = None" "tx_descriptors s = None"
  shows "rings_hold s0 s'"
proof -
  let ?mem = "\<lparr>tx_size = DEFAULT_BUFFER_TX_SIZE, tx_num = DEFAULT_BUFFER_TX_NUM,
    rx_size = DEFAULT_BUFFER_RX_SIZE, rx_num = DEFAULT_BUFFER_RX_NUM\<rparr>"
  obtain st1 mem s1 where m: "on_registry (fscc_port_get_default_memory P d ?mem) s = (st1, mem, s1)"
    by (cases "on_registry (fscc_port_get_default_memory P d ?mem) s")
  have e1: "even_step s s1" using default_memory_even [of s P d ?mem] by (simp add: m)
  then have s1: "rings_hold s0 s1" "rx_descriptors s1 = None" "tx_descriptors s1 = None"
    using held_even [OF assms(2)] assms(3,4) by (simp_all add: even_step_def)
  obtain st2 s2 where rx: "fscc_io_create_rx E (rx_num mem) (rx_size mem) s1 = (st2, s2)" by fastforce
  have s2: "rings_hold s0 s2" "tx_descriptors s2 = None"
    using create_rx_held [OF rx s1(1,2)] create_rx_same [OF rx] s1(3) by simp_all
  obtain st3 s3 where tx: "fscc_io_create_tx E (tx_num mem) (tx_size mem) s2 = (st3, s3)" by fastforce
  have s3: "rings_hold s0 s3" using create_tx_held [OF tx s2] .
  have undo: "fscc_io_destroy_rx E v = Some t \<Longrightarrow> rings_hold s0 v \<Longrightarrow> rings_hold s0 t"
    "fscc_io_destroy_tx E v = Some t \<Longrightarrow> rings_hold s0 v \<Longrightarrow> rings_hold s0 t" for v t
    using destroy_rx_held [of s0 v E] destroy_tx_held [of s0 v E] by auto
  show ?thesis
    using assms(1) s2(1) s3
    by (auto simp: create_rings_def Let_def m rx tx bind_eq_Some_conv split: if_splits dest: undo)
qed

text \<open>However preparing ends, the rings account for what it allocated.\<close>

lemma prepare_held:
  assumes "FsccEvtDevicePrepareHardware E P d resources s0 = Some (st, s)"
    and "rx_descriptors s0 = None" "tx_descriptors s0 = None"
  shows "rings_hold s0 s"
proof -
  obtain st1 s1 where c: "fscc_card_init P resources s0 = (st1, s1)" by fastforce
  let ?low = "(ucast (address (bar (port_card s1) ! 0)) :: u32) AND 0x000000FF"
  let ?s2 = "s1\<lparr>channel := (if ?low = 0x00 then 0 else 1)\<rparr>"
  obtain vstr s3 where p: "fscc_port_get_PREV E ?s2 = (vstr, s3)" by fastforce
  let ?s4 = "s3\<lparr>has_dma := (if vstr AND 0x04 \<noteq> 0 then 1 else 0)\<rparr>"
  obtain st5 b es where i: "fscc_io_initialize E ?s4 = (st5, (emits es ?s4)\<lparr>has_dma := b\<rparr>)" "list_all quiet es"
    using io_initialize_result by blast
  let ?s5 = "(emits es ?s4)\<lparr>has_dma := b\<rparr>"
  have e3: "io_step ?s2 s3"
    using p by (auto simp: fscc_port_get_PREV_def split: prod.splits dest: get_register_io_step)
  have e1: "even_step s0 s1" by (rule card_init_even [OF c])
  also have "even_step s1 ?s2" by (rule even_same) simp_all
  also note even_io_step [OF e3]
  also have "even_step s3 ?s5" using i(2) by (simp add: even_step_def grows_def live_quiet)
  also note default_settings_even
  finally have e5: "even_step s0 (default_settings E ?s5)" .
  obtain D where D: "default_settings E ?s5 = D" by blast
  from assms(1) have "s = s1 \<or> (\<exists>st6 s6. create_rings E P d D = Some (st6, s6) \<and>
      (s = s6 \<or> (\<exists>s7. start_port E (write_default_registers E P d s6) = Some s7 \<and>
        (let t = s7\<lparr>events := snd (framework P Timer_create (events s7))\<rparr> in s = t \<or> s = emit Timer_start t))))"
    unfolding FsccEvtDevicePrepareHardware_def c Let_def prod.case p i(1) D
    by (auto simp: bind_eq_Some_conv split_beta split del: if_split split: if_split_asm)
  then consider "s = s1" | st6 s6 where "create_rings E P d D = Some (st6, s6)" "s = s6"
    | st6 s6 s7 where "create_rings E P d D = Some (st6, s6)"
      "start_port E (write_default_registers E P d s6) = Some s7" "even_step s7 s"
    by (auto simp: Let_def even_step_def grows_def)
  moreover have none: "rings_hold s0 s0" using assms(2,3) by (simp add: rings_hold_def counts_right_def grows_def)
  moreover have "rings_hold s0 D" "rx_descriptors D = None" "tx_descriptors D = None"
    using held_even [OF none e5] e5 assms(2,3) by (simp_all add: D even_step_def)
  moreover note create_rings_held [OF _ this]
  ultimately show ?thesis
    using held_even [OF none e1] even_trans [OF write_default_registers_even even_trans [OF start_port_even]]
    by cases (blast intro: held_even)+
qed

section \<open>Releasing\<close>

lemma card_delete_loop_result:
  assumes "None \<notin> set resources" "n + length resources \<le> length (bar (port_card s))"
  shows "\<exists>es. card_delete_loop n resources s = Some (STATUS_SUCCESS, emits es s) \<and>
    pool_live es = 0 \<and> buffers_live es = 0"
  using assms
proof (induction n resources s rule: card_delete_loop.induct)
  case (1 n s)
  show ?case by (intro exI [of _ "[]"]) simp
next
  case (4 n start len rest s)
  let ?e = "Framework (Unmap_io_space (address (bar (port_card s) ! n)) len) STATUS_SUCCESS"
  from 4 obtain es where "card_delete_loop (n + 1) rest (emit ?e s) = Some (STATUS_SUCCESS, emits es (emit ?e s))"
    "pool_live es = 0" "buffers_live es = 0" by auto
  with 4(3) show ?case by (intro exI [of _ "?e # es"]) (simp add: emit_emits emits_emits)
qed auto

lemma release_held:
  assumes "rings_hold s0 s" "None \<notin> set resources" "length resources \<le> length (bar (port_card s0))"
  shows "\<exists>t. FsccEvtDeviceReleaseHardware E resources s = Some (STATUS_SUCCESS, t) \<and>
    rx_descriptors t = None \<and> tx_descriptors t = None \<and> grows s0 0 0 t"
proof -
  obtain s1 where s1: "fscc_io_destroy_tx E s = Some s1" "rings_hold s0 s1" "tx_descriptors s1 = None"
    using destroy_tx_held [OF assms(1)] by blast
  obtain s2 where s2: "fscc_io_destroy_rx E s1 = Some s2" "rings_hold s0 s2" "rx_descriptors s2 = None"
    "tx_descriptors s2 = tx_descriptors s1" using destroy_rx_held [OF s1(2)] by blast
  obtain es where es: "card_delete_loop 0 resources s2 = Some (STATUS_SUCCESS, emits es s2)"
    "pool_live es = 0" "buffers_live es = 0"
    using card_delete_loop_result [OF assms(2), of 0 s2] assms(3) s2(2) by (auto simp: rings_hold_def)
  with s1 s2 show ?thesis
    by (auto simp: FsccEvtDeviceReleaseHardware_def fscc_card_delete_def rings_hold_def grows_def)
qed

text \<open>A run keeps what the rings hold.\<close>

lemma ring_counts:
  assumes "rings_ok s"
  shows "counts_right s" "ring_blocks (rx_descriptors s) = 1 + uint (rx_num (memory s))"
    "ring_blocks (tx_descriptors s) = 1 + uint (tx_num (memory s))"
    "ring_buffers (rx_descriptors s) = 2 * uint (rx_num (memory s))"
    "ring_buffers (tx_descriptors s) = 2 * uint (tx_num (memory s))"
proof -
  from assms obtain fs gs where "rx_descriptors s = Some fs" "unat (rx_num (memory s)) = length fs"
    "tx_descriptors s = Some gs" "unat (tx_num (memory s)) = length gs"
    by (auto simp: rings_ok_def rx_ring_ok_def tx_ring_ok_def elim!: ring_atE)
  then show "counts_right s" "ring_blocks (rx_descriptors s) = 1 + uint (rx_num (memory s))"
    "ring_blocks (tx_descriptors s) = 1 + uint (tx_num (memory s))"
    "ring_buffers (rx_descriptors s) = 2 * uint (rx_num (memory s))"
    "ring_buffers (tx_descriptors s) = 2 * uint (tx_num (memory s))"
    by (simp_all add: counts_right_def flip: uint_nat) (simp_all add: uint_nat)
qed

lemma run_held:
  assumes "run E s as s'" "works E" "rings_ok s" "rings_hold s0 s"
  shows "rings_hold s0 s'"
proof -
  have "rings_ok s'" "memory s' = memory s" "port_card s' = port_card s" "grows s 0 0 s'"
    using run_behaved [OF assms(1-3)] by simp_all
  then show ?thesis using assms(4) ring_counts [of s'] ring_counts [OF assms(3)]
    by (simp add: rings_hold_def grows_def)
qed

text \<open>Property C3. Nothing leaks: however preparing the hardware ends, and whatever handlers then
  run on a port whose rings it built, releasing the hardware succeeds without an invalid memory
  access, no ring is left, and as many pool blocks and common buffers are allocated as before
  the hardware was prepared. The device has at most three resources, all of which can be read.\<close>

theorem hardware_released:
  assumes "FsccEvtDevicePrepareHardware E P d resources s0 = Some (st, s)"
    and "rx_descriptors s0 = None" "tx_descriptors s0 = None"
    and "run E s as s'" "as \<noteq> [] \<longrightarrow> works E \<and> rings_ok s"
    and "None \<notin> set resources" "length resources \<le> length (bar (port_card s0))"
  shows "case FsccEvtDeviceReleaseHardware E resources s' of
      None \<Rightarrow> False
    | Some (st', t) \<Rightarrow> st' = STATUS_SUCCESS \<and> rx_descriptors t = None \<and> tx_descriptors t = None \<and>
        pool_live (events t) = pool_live (events s0) \<and> buffers_live (events t) = buffers_live (events s0)"
proof -
  note s = prepare_held [OF assms(1-3)]
  have "rings_hold s0 s'"
  proof (cases "as = []")
    case True
    with assms(4) s show ?thesis by (simp add: run_play)
  next
    case False
    with run_held [OF assms(4) _ _ s] assms(5) show ?thesis by blast
  qed
  from release_held [OF this assms(6,7), of E] show ?thesis by (auto simp: grows_def)
qed

lemma queue_env_available: "memory_available queue_env" "buffers_as_asked queue_env"
  using example_available by (simp_all add: memory_available_def buffers_as_asked_def queue_env_def example_env_def)

lemma hardware_released_witness:
  "\<exists>s s'. FsccEvtDevicePrepareHardware queue_env (platform_over empty_registry) 5 example_resources (new_port []) =
      Some (STATUS_SUCCESS, s) \<and> run queue_env s [Read 2 10, Interrupt] s' \<and>
    (case FsccEvtDeviceReleaseHardware queue_env example_resources s' of
      None \<Rightarrow> False
    | Some (st', t) \<Rightarrow> st' = STATUS_SUCCESS \<and> rx_descriptors t = None \<and> tx_descriptors t = None \<and>
        pool_live (events t) = pool_live (events (new_port [])) \<and>
        buffers_live (events t) = buffers_live (events (new_port [])))"
proof -
  have "sizes_usable (registry_after empty_registry (events (new_port []))) 5" "None \<notin> set example_resources"
    by (simp_all add: sizes_usable_def value_or_def new_port_def empty_registry_def example_resources_def)
  note ready = prepare_ready [OF queue_env_available platform_over_works this]
  let ?r = "FsccEvtDevicePrepareHardware queue_env (platform_over empty_registry) 5 example_resources (new_port [])"
  have "?r \<noteq> None" using ready by (metis option.simps(4))
  then obtain st s where prep: "?r = Some (st, s)" by fastforce
  from ready have st: "\<exists>h. st = answer (platform_over empty_registry) h Timer_create" and "ready_port s"
    unfolding prep option.case prod.case example_bar0_low by simp_all
  then have ok: "rings_ok s" by (intro in_step_ok) (simp add: ready_port_def in_step_def)
  from st have "st = STATUS_SUCCESS" by (auto simp: platform_over_def)
  moreover obtain s' where run: "run queue_env s [Read 2 10, Interrupt] s'"
    by (simp add: run_play)
  ultimately show ?thesis
    using prep hardware_released [OF prep _ _ run] ok queue_env_ok
    by (auto simp: new_port_def example_resources_def)
qed

end
