(* ===== verification/Fscc_Dma.thy ===== *)
theory Fscc_Dma
  imports Fscc_Engine
begin

text \<open>
  What the driver hands to the DMA engine (\<open>io.c\<close>). The engine does not know the ring: it is
  given the address of a descriptor and follows the links from there, up to a descriptor with
  \<open>DESC_CSTOP_BIT\<close>. A frame written in DMA mode is therefore sent as written when the descriptors
  found in this way are the descriptors of the frame. The last section compares the two modes: all
  that differs for the user's side is the registers a write touches.
\<close>

section \<open>Following the links\<close>

fun follow :: "nat \<Rightarrow> dma_frame list \<Rightarrow> u32 \<Rightarrow> dma_frame list" where
  "follow 0 fs a = []"
| "follow (Suc n) fs a =
     (case find (\<lambda>f. desc_physical_address f = a) fs of
        None \<Rightarrow> []
      | Some f \<Rightarrow> if tx_filled f then f # follow n fs (next_descriptor (desc f)) else [])"

text \<open>The descriptors between an address and the next one that stops the engine, at most once round.\<close>

definition dma_chain :: "driver \<Rightarrow> u32 \<Rightarrow> dma_frame list" where
  "dma_chain s a = (case tx_descriptors s of None \<Rightarrow> [] | Some fs \<Rightarrow> follow (length fs) fs a)"

text \<open>A ring the engine can walk: linked in a circle, with different addresses, none of them zero.\<close>

definition walkable :: "dma_frame list \<Rightarrow> bool" where
  "walkable fs \<longleftrightarrow> linked fs \<and> distinct (map desc_physical_address fs) \<and> 0 \<notin> set (map desc_physical_address fs)"

lemma walkable_links: "map frame_link fs = map frame_link gs \<Longrightarrow> walkable fs = walkable gs"
proof -
  assume links: "map frame_link fs = map frame_link gs"
  have "map desc_physical_address fs = map desc_physical_address gs"
    using arg_cong [OF links, of "map fst"] by (simp add: frame_link_def o_def)
  moreover have "map (\<lambda>f. next_descriptor (desc f)) fs = map (\<lambda>f. next_descriptor (desc f)) gs"
    using arg_cong [OF links, of "map snd"] by (simp add: frame_link_def o_def)
  ultimately show ?thesis by (simp add: walkable_def linked_def rotate1_map [symmetric])
qed

lemma walkable_rotate: "walkable fs \<Longrightarrow> walkable (rotate k fs)"
proof (induction k)
  case (Suc k)
  then have w: "walkable (rotate k fs)" by simp
  let ?g = "rotate k fs"
  have "map (\<lambda>f. next_descriptor (desc f)) (rotate1 ?g) = rotate1 (map desc_physical_address (rotate1 ?g))"
    using w by (simp add: walkable_def linked_def rotate1_map [symmetric])
  moreover have "distinct (map desc_physical_address (rotate1 ?g))" using w by (simp add: walkable_def distinct_map)
  ultimately show ?case using w by (simp add: walkable_def linked_def rotate1_map)
qed simp

lemma walkable_nth:
  assumes "walkable fs" "i < length fs"
  shows "next_descriptor (desc (fs ! i)) = desc_physical_address (fs ! (Suc i mod length fs))"
proof -
  have "map (\<lambda>f. next_descriptor (desc f)) fs ! i = map desc_physical_address (rotate1 fs) ! i"
    using assms(1) by (simp add: walkable_def linked_def)
  with assms(2) show ?thesis by (simp add: nth_rotate1)
qed

lemma find_by_address:
  "distinct (map desc_physical_address fs) \<Longrightarrow> f \<in> set fs \<Longrightarrow>
   find (\<lambda>g. desc_physical_address g = desc_physical_address f) fs = Some f"
  by (induction fs) auto

text \<open>From the first descriptor of a stretch of filled ones the engine finds exactly this stretch.\<close>

lemma follow_stretch:
  assumes "walkable V" "distinct (map desc_physical_address fs)" "set fs = set V"
    and "list_all (\<lambda>f. \<not> tx_filled f) F"
  shows "V = A @ Q @ F \<Longrightarrow> list_all tx_filled Q \<Longrightarrow> Q @ F \<noteq> [] \<Longrightarrow> length Q \<le> m \<Longrightarrow> F = [] \<longrightarrow> m = length Q \<Longrightarrow>
    follow m fs (desc_physical_address (hd (Q @ F))) = Q"
proof (induction Q arbitrary: A m)
  case Nil
  then obtain g G where F: "F = g # G" by (cases F) auto
  with Nil assms(2-4) have "find (\<lambda>f. desc_physical_address f = desc_physical_address g) fs = Some g"
    by (intro find_by_address) auto
  with F assms(4) show ?case by (cases m) simp_all
next
  case (Cons q Q)
  then obtain m' where m: "m = Suc m'" by (cases m) auto
  have q: "find (\<lambda>f. desc_physical_address f = desc_physical_address q) fs = Some q"
    using assms(2,3) Cons.prems(1) by (intro find_by_address) auto
  have "follow m' fs (next_descriptor (desc q)) = Q"
  proof (cases "Q @ F = []")
    case True
    with Cons.prems(5) m show ?thesis by simp
  next
    case False
    have i: "length A < length V" "V ! length A = q" using Cons.prems(1) by simp_all
    have "Suc (length A) < length V" using False Cons.prems(1) by (cases "Q @ F") auto
    moreover have "V ! Suc (length A) = hd (Q @ F)"
      using False Cons.prems(1) by (cases "Q @ F") (auto simp: nth_append)
    ultimately have "next_descriptor (desc q) = desc_physical_address (hd (Q @ F))"
      using walkable_nth [OF assms(1) i(1)] i(2) by simp
    with Cons.IH [of "A @ [q]" m'] False Cons.prems m show ?thesis by simp
  qed
  with q m Cons.prems(2) show ?case by simp
qed

section \<open>A frame written in DMA mode\<close>

lemma view_rotates:
  assumes "ring_at (Some fs) num cur"
  shows "view_from (Some fs) cur = rotate (unat cur) fs" "length fs = unat num"
proof -
  from assms have "unat num = length fs" "unat cur < length fs" by (auto elim: ring_atE)
  then show "view_from (Some fs) cur = rotate (unat cur) fs" "length fs = unat num"
    by (simp_all add: view_from_def ring_view_def rotate_drop_take)
qed

text \<open>What the engine finds in a ring whose queue was put there in one go.\<close>

lemma chain_of_queue:
  assumes "tx_state fifo s P F" "walkable (P @ F)" "P \<noteq> []"
  shows "dma_chain s (desc_physical_address (hd P)) = P"
proof -
  have ring: "ring_at (tx_descriptors s) (tx_num (memory s)) (user_tx_desc s)" using assms(1) by (simp add: tx_state_def)
  then obtain fs where "tx_descriptors s = Some fs" by (rule ring_atE)
  with ring have fs: "tx_descriptors s = Some fs" "ring_at (Some fs) (tx_num (memory s)) (user_tx_desc s)" by simp_all
  have view: "rotate (unat (user_tx_desc s)) fs = F @ P" and len: "length fs = length P + length F"
    using assms(1) fs view_rotates [OF fs(2)] tx_state_num [OF assms(1)] by (simp_all add: tx_state_def tx_view_def)
  have "set fs = set (P @ F)" using arg_cong [OF view, of set] by auto
  moreover have "distinct (map desc_physical_address fs)"
  proof -
    have "distinct (map desc_physical_address (rotate (unat (user_tx_desc s)) fs))"
      unfolding view using assms(2) by (auto simp: walkable_def)
    then show ?thesis by (simp add: distinct_map)
  qed
  moreover have "list_all (\<lambda>f. \<not> tx_filled f) F" "list_all tx_filled P" using assms(1) by (simp_all add: tx_state_def)
  ultimately have "follow (length fs) fs (desc_physical_address (hd (P @ F))) = P"
    using follow_stretch [OF assms(2), of fs F "[]" P "length fs"] assms(3) len by auto
  then show ?thesis using assms(3) fs(1) by (simp add: dma_chain_def)
qed

text \<open>The register writes that start the engine.\<close>

definition start_writes :: "driver \<Rightarrow> u32 \<Rightarrow> event list" where
  "start_writes s a =
     [wr (port_card s) 2 (port_offset s 2 DMA_TX_BASE_OFFSET) a,
      wr (port_card s) 2 (port_offset s 2 DMACCR_OFFSET)
        (transmit_command 0x00000002 0x40000000 (tx_modifiers s) OR 0x03000000)]"

lemma start_engine:
  assumes "fscc_port_uses_dma s \<noteq> 0"
  shows "fscc_io_execute_transmit E True (snd (fscc_port_set_register E 2 DMA_TX_BASE_OFFSET a s)) =
    emits (start_writes s a) s"
proof -
  have "fscc_port_uses_dma (emits es s) = fscc_port_uses_dma s" for es by (simp add: fscc_port_uses_dma_def)
  with assms show ?thesis
    by (simp add: fscc_io_execute_transmit_def set_register_plain store_register_def dmaccr_value_def
        start_writes_def emits_emits port_offset_def)
qed

lemma split_frame_nonempty: "ns \<noteq> [] \<Longrightarrow> split_frame first len data ns \<noteq> []"
  by (cases ns) simp_all

lemma dma_writes_frame:
  assumes "fscc_port_uses_dma s \<noteq> 0" "fst (fscc_dma_is_tx_running E s) = 0" "tx_state fifo s [] F" "walkable F"
    and "0 < unat len" "unat len < 2 ^ 29" "unat len \<le> length buf" "unat len \<le> tx_space F"
  shows "\<exists>t es P' F'. fscc_user_write_frame E buf len s = Some (STATUS_SUCCESS, len, emits es t) \<and>
    events t = events s \<and> writes es = start_writes s (desc_physical_address (hd F)) \<and>
    tx_state fifo (emits es t) P' F' \<and> walkable (P' @ F') \<and> P' \<noteq> [] \<and>
    desc_physical_address (hd P') = desc_physical_address (hd F) \<and>
    map tx_entry P' = split_frame True (unat len) (take (unat len) buf) (map (\<lambda>f. unat (data_size f)) F)"
proof -
  have n: "length F \<le> unat (tx_num (memory s))" using tx_state_num [OF assms(3)] by simp
  have addr: "0 \<notin> set (map desc_physical_address F)" using assms(4) by (simp add: walkable_def)
  from write_frame_loop_fills [OF assms(3) _ _ assms(6,7) n, of 0 True 0] assms(5,8) addr
  obtain t P' F' where loop: "write_frame_loop buf len True (unat (tx_num (memory s))) 0 0 s =
      Some (STATUS_SUCCESS, len, desc_physical_address (hd F), t)" "tx_state fifo t P' F'" "user_tx_change s t"
    "map tx_entry P' = split_frame True (unat len) (take (unat len) buf) (map (\<lambda>f. unat (data_size f)) F)"
    "map frame_link (P' @ F') = map frame_link F" by auto
  obtain d c where t: "t = s\<lparr>tx_descriptors := d, user_tx_desc := c\<rparr>"
    using loop(3) unfolding user_tx_change_def by blast
  obtain v where run: "fscc_dma_is_tx_running E t = (0, emits [rd (port_card s) 2 (port_offset s 2 DSTAR_OFFSET) v] t)"
    using assms(2) by (auto simp: t fscc_dma_is_tx_running_def get_register_eq Let_def port_offset_def)
  let ?es = "rd (port_card s) 2 (port_offset s 2 DSTAR_OFFSET) v # start_writes s (desc_physical_address (hd F))"
  let ?r = "emits [rd (port_card s) 2 (port_offset s 2 DSTAR_OFFSET) v] t"
  have dma: "fscc_port_uses_dma ?r \<noteq> 0" "fscc_port_uses_dma t \<noteq> 0"
    using assms(1) by (simp_all add: t fscc_port_uses_dma_def split: if_splits)
  have "start_writes ?r a = start_writes s a" for a by (simp add: start_writes_def t port_offset_def)
  then have "fscc_user_write_frame E buf len s = Some (STATUS_SUCCESS, len, emits ?es t)"
    using loop(1) run dma(2) start_engine [OF dma(1), of E "desc_physical_address (hd F)"]
    by (simp add: fscc_user_write_frame_def emits_emits)
  moreover have "tx_state fifo (emits ?es t) P' F'" by (rule tx_state_cong [OF loop(2)]) simp_all
  moreover have "P' \<noteq> []"
  proof -
    have "map (\<lambda>f. unat (data_size f)) F \<noteq> []" using assms(5,8) by auto
    from split_frame_nonempty [OF this] loop(4) show ?thesis by (metis list.map_disc_iff)
  qed
  moreover have "hd (map frame_link (P' @ F')) = hd (map frame_link F)" by (simp only: loop(5))
  ultimately show ?thesis using loop(4) walkable_links [OF loop(5)] assms(4,5,8)
    by (intro exI [of _ t] exI [of _ ?es] exI [of _ P'] exI [of _ F'])
      (cases P'; cases F; simp add: t start_writes_def frame_link_def)
qed

text \<open>Property C6. A frame written in DMA mode reaches the engine: with nothing queued before and the
  engine idle, the write is accepted whole, and the register writes it makes are the address of the
  first descriptor and the command that starts the engine with the modifiers of the port. From that
  address the links lead through exactly the descriptors of the frame: cut into the sizes of the
  free descriptors, the first one marked as the start with the frame's length, with the user's bytes in
  order, and then to a descriptor that stops the engine. The ring is linked in a circle, with
  different addresses.\<close>

theorem dma_write_reaches_engine:
  assumes "fscc_port_uses_dma s \<noteq> 0" "fst (fscc_dma_is_tx_running E s) = 0"
    and "tx_ring_ok fifo s" "tx_queue s = []" "walkable (tx_free s)"
    and "0 < unat len" "unat len < 2 ^ 29" "unat len \<le> length buf"
    and "unat len \<le> sum_list (map (\<lambda>f. unat (data_size f)) (tx_free s))"
  shows "case fscc_user_write_frame E buf len s of
      None \<Rightarrow> False
    | Some (st, out_length, s') \<Rightarrow> st = STATUS_SUCCESS \<and> out_length = len \<and>
        (let a = desc_physical_address (hd (tx_free s)); sent = dma_chain s' a
         in writes (new_events s s') = start_writes s a \<and> sent = tx_queue s' \<and>
            map tx_entry sent = split_frame True (unat len) (take (unat len) buf)
              (map (\<lambda>f. unat (data_size f)) (tx_free s)) \<and>
            concat (map (\<lambda>f. take (unat (frame_count f)) (buffer f)) sent) = take (unat len) buf)"
proof -
  have "tx_state fifo s [] (tx_free s)" using tx_ring_ok_state [OF assms(3)] assms(4) by simp
  from dma_writes_frame [OF assms(1,2) this assms(5-9)] obtain t es P' F' where
    r: "fscc_user_write_frame E buf len s = Some (STATUS_SUCCESS, len, emits es t)" "events t = events s"
    "writes es = start_writes s (desc_physical_address (hd (tx_free s)))" "tx_state fifo (emits es t) P' F'"
    "walkable (P' @ F')" "P' \<noteq> []" "desc_physical_address (hd P') = desc_physical_address (hd (tx_free s))"
    "map tx_entry P' = split_frame True (unat len) (take (unat len) buf) (map (\<lambda>f. unat (data_size f)) (tx_free s))"
    by blast
  note chain = chain_of_queue [OF r(4,5,6), unfolded r(7)]
  have "concat (map (\<lambda>f. take (unat (frame_count f)) (buffer f)) P') = concat (map (\<lambda>e. snd (snd e)) (map tx_entry P'))"
    by (simp add: tx_entry_def o_def)
  also have "\<dots> = take (unat len) buf" unfolding r(8) using assms(9) by (intro split_frame_bytes) simp
  finally have bytes: "concat (map (\<lambda>f. take (unat (frame_count f)) (buffer f)) P') = take (unat len) buf" .
  have "new_events s (emits es t) = es" by (rule new_events_eq) (simp add: r(2))
  with r(1,3,8) chain bytes tx_state_queue(1) [OF r(4)] show ?thesis by simp
qed

text \<open>A port with DMA, two linked transmit frames, and a card whose engines are idle.\<close>

definition linked_frame :: "u32 \<Rightarrow> u32 \<Rightarrow> u32 \<Rightarrow> dma_frame" where
  "linked_frame addr following count =
     (example_frame addr DESC_CSTOP_BIT count)\<lparr>desc := \<lparr>control = DESC_CSTOP_BIT, data_address = 0,
       data_count = count, next_descriptor = following\<rparr>\<rparr>"

definition linked_port :: driver where
  "linked_port = (example_port [example_frame 0x100 0 8, example_frame 0x200 DESC_HI_BIT 8]
     [linked_frame 0x300 0x400 0, linked_frame 0x400 0x300 0])\<lparr>has_dma := 1\<rparr>"

definition idle_env :: env where
  "idle_env = example_env\<lparr>hw_read := \<lambda>h sp a. 2\<rparr>"

lemma dma_write_reaches_engine_witness:
  "case fscc_user_write_frame idle_env [1, 2, 3, 4, 5, 6, 7, 8, 9, 10] 10 linked_port of
      None \<Rightarrow> False
    | Some (st, out_length, s') \<Rightarrow> st = STATUS_SUCCESS \<and> out_length = 10 \<and>
        (let a = desc_physical_address (hd (tx_free linked_port)); sent = dma_chain s' a
         in writes (new_events linked_port s') = start_writes linked_port a \<and> sent = tx_queue s' \<and>
            map tx_entry sent = split_frame True (unat (10 :: u32))
              (take (unat (10 :: u32)) [1, 2, 3, 4, 5, 6, 7, 8, 9, 10])
              (map (\<lambda>f. unat (data_size f)) (tx_free linked_port)) \<and>
            concat (map (\<lambda>f. take (unat (frame_count f)) (buffer f)) sent) =
              take (unat (10 :: u32)) [1, 2, 3, 4, 5, 6, 7, 8, 9, 10])"
proof -
  have free: "tx_free linked_port = [linked_frame 0x300 0x400 0, linked_frame 0x400 0x300 0]"
    by (simp add: tx_ring_defs linked_port_def linked_frame_def example_defs)
  show ?thesis
  proof (rule dma_write_reaches_engine [where fifo = True])
    show "fscc_port_uses_dma linked_port \<noteq> 0" "tx_ring_ok True linked_port" "tx_queue linked_port = []"
      by (simp_all add: tx_ring_defs fscc_port_uses_dma_def linked_port_def linked_frame_def example_defs)
    show "fst (fscc_dma_is_tx_running idle_env linked_port) = 0"
      by (simp add: fscc_dma_is_tx_running_def get_register_eq Let_def hw_reg_def idle_env_def linked_port_def example_defs)
    show "walkable (tx_free linked_port)"
      by (simp add: free walkable_def linked_def linked_frame_def example_defs)
  qed (simp_all add: free linked_frame_def example_defs)
qed

section \<open>The two modes\<close>

text \<open>A port in another mode: with other values of the two fields that decide between the FIFO
  and the DMA engine.\<close>

definition in_mode :: "BOOLEAN \<times> BOOLEAN \<Rightarrow> driver \<Rightarrow> driver" where
  "in_mode m s = s\<lparr>has_dma := fst m, force_fifo := snd m\<rparr>"

lemma in_mode_sel [simp]:
  "rx_descriptors (in_mode m s) = rx_descriptors s" "user_rx_desc (in_mode m s) = user_rx_desc s"
  "tx_descriptors (in_mode m s) = tx_descriptors s" "user_tx_desc (in_mode m s) = user_tx_desc s"
  "memory (in_mode m s) = memory s" "events (in_mode m s) = events s"
  "append_status (in_mode m s) = append_status s" "append_timestamp (in_mode m s) = append_timestamp s"
  "rx_multiple (in_mode m s) = rx_multiple s" "register_storage (in_mode m s) = register_storage s"
  by (simp_all add: in_mode_def)

lemma in_mode_update [simp]:
  "emits es (in_mode m s) = in_mode m (emits es s)"
  "step_user_rx f (in_mode m s) = in_mode m (step_user_rx f s)"
  "step_user_tx f (in_mode m s) = in_mode m (step_user_tx f s)"
  "(in_mode m s)\<lparr>rx_descriptors := d\<rparr> = in_mode m (s\<lparr>rx_descriptors := d\<rparr>)"
  by (simp_all add: in_mode_def emits_def step_user_rx_def step_user_tx_def)

lemma in_mode_settings [simp]:
  "fscc_io_is_streaming (in_mode m s) = fscc_io_is_streaming s"
  "valid_data (in_mode m s) n = valid_data s n" "buffer_requirement (in_mode m s) n = buffer_requirement s n"
  by (simp_all add: fscc_io_is_streaming_def valid_data_def buffer_requirement_def)

lemma in_mode_scan [simp]: "fscc_user_next_read_size (in_mode m s) = fscc_user_next_read_size s"
proof -
  have "next_read_loop n c b (in_mode m s) = next_read_loop n c b s" for n c b
    by (induction n arbitrary: c b) (simp_all add: Let_def cong: if_cong)
  then show ?thesis by (simp add: fscc_user_next_read_size_def)
qed

lemma in_mode_space [simp]: "fscc_user_get_tx_space (in_mode m s) = fscc_user_get_tx_space s"
proof -
  have "tx_space_loop n c b (in_mode m s) = tx_space_loop n c b s" for n c b
    by (induction n arbitrary: c b) (simp_all add: Let_def cong: if_cong)
  then show ?thesis by (simp add: fscc_user_get_tx_space_def)
qed

text \<open>The last component of a result is the port.\<close>

lemma in_mode_frame_step:
  "read_frame_step E L bs tv fl out (in_mode m s) =
     map_option (map_prod id (map_prod id (map_prod id (map_prod id (in_mode m))))) (read_frame_step E L bs tv fl out s)"
proof (cases "frame_at (rx_descriptors s) (user_rx_desc s)")
  case (Some f)
  then show ?thesis
    unfolding read_frame_step_def stamp_eq Let_def in_mode_sel in_mode_update
    by (simp add: map_option_bind comp_def split_def cong: if_cong bind_option_cong del: if_image_distrib)
qed (simp add: read_frame_step_def)

lemma in_mode_frame_loop:
  "read_frame_loop E L n bs tv fl out (in_mode m s) = map_option (map_prod id (in_mode m)) (read_frame_loop E L n bs tv fl out s)"
proof (induction n arbitrary: bs tv fl out s)
  case (Suc n)
  then show ?case
    by (cases "read_frame_step E L bs tv fl out s"; cases "fscc_user_next_read_size (snd (snd (snd (snd (the (read_frame_step E L bs tv fl out s))))))")
      (auto simp: in_mode_frame_step split: if_splits)
qed simp

lemma in_mode_stream_loop:
  "read_stream_loop L n odd_desc out (in_mode m s) = map_option (map_prod id (in_mode m)) (read_stream_loop L n odd_desc out s)"
proof (induction n arbitrary: odd_desc out s)
  case (Suc n)
  then show ?case
    by (auto simp: Let_def split: option.splits if_splits intro!: bind_option_cong simp: map_option_bind comp_def)
qed simp

lemma in_mode_read:
  "fscc_user_read_frame E L (in_mode m s) = map_option (map_prod id (map_prod id (in_mode m))) (fscc_user_read_frame E L s)"
  "fscc_user_read_stream L (in_mode m s) = map_option (map_prod id (map_prod id (in_mode m))) (fscc_user_read_stream L s)"
  by (cases "fscc_user_next_read_size s",
      auto simp: fscc_user_read_frame_def fscc_user_read_stream_def in_mode_frame_loop in_mode_stream_loop
        map_option_bind bind_map_option comp_def split_def intro!: bind_option_cong)

lemma in_mode_process_read:
  "FsccProcessRead E (in_mode m s) = map_option (in_mode m) (FsccProcessRead E s)"
  by (cases "fscc_user_next_read_size s")
    (auto simp: FsccProcessRead_def Let_def emit_emits in_mode_read map_option_bind bind_map_option comp_def split_def
      complete_read_def intro!: bind_option_cong)

lemma in_mode_io_read: "FsccEvtIoRead E r n (in_mode m s) = in_mode m (FsccEvtIoRead E r n s)"
  by (simp add: FsccEvtIoRead_def Let_def emit_emits)

lemma in_mode_write_loop:
  "write_frame_loop buf len first n out start (in_mode m s) =
     map_option (map_prod id (map_prod id (map_prod id (in_mode m)))) (write_frame_loop buf len first n out start s)"
proof (induction n arbitrary: first out start s)
  case (Suc n)
  then show ?case
    by (auto simp: Let_def map_option_bind comp_def intro!: bind_option_cong split: if_splits)
qed simp

text \<open>What a write leaves of the transmit ring, and the reply to it.\<close>

definition written :: "NTSTATUS \<times> u32 \<times> driver \<Rightarrow> NTSTATUS \<times> u32 \<times> dma_frame list option \<times> u32" where
  "written = (\<lambda>(st, n, s). (st, n, tx_descriptors s, user_tx_desc s))"

lemma written_loop:
  "map_option written (fscc_user_write_frame E buf len s) =
     map_option (\<lambda>(st, n, start, s1). written (st, n, s1)) (write_frame_loop buf len True (unat (tx_num (memory s))) 0 0 s)"
proof (cases "write_frame_loop buf len True (unat (tx_num (memory s))) 0 0 s")
  case (Some r)
  obtain st n start s1 where r: "r = (st, n, start, s1)" by (cases r)
  obtain running s2 where run: "fscc_dma_is_tx_running E s1 = (running, s2)" by fastforce
  then have keep: "io_step s1 s2" by (auto simp: fscc_dma_is_tx_running_def get_register_eq Let_def)
  have same: "written (st, n, t) = written (st, n, s1)" if "io_step s1 t" for t
    using io_stepD [OF that] by (simp add: written_def)
  let ?s3 = "fscc_io_execute_transmit E True (snd (fscc_port_set_register E 2 DMA_TX_BASE_OFFSET start s2))"
  have "io_step s1 ?s3"
    using io_step_trans [OF keep io_step_trans [OF set_register_snd_io_step set_register_snd_io_step]]
    by (simp add: fscc_io_execute_transmit_def)
  note eqs = same [OF this] same [OF keep]
  have "fscc_user_write_frame E buf len s = Some (st, n, if fscc_port_uses_dma s1 = 0 then s1
      else if running = 0 then ?s3 else s2)"
    unfolding fscc_user_write_frame_def Some r Option.bind.simps split_conv run Let_def by simp
  with eqs show ?thesis unfolding Some r by simp
qed (simp add: fscc_user_write_frame_def)

lemma in_mode_write:
  "map_option written (fscc_user_write_frame E buf len (in_mode m s)) = map_option written (fscc_user_write_frame E buf len s)"
proof -
  have "(\<lambda>(st, n, start :: u32, s1). written (st, n, s1)) \<circ> map_prod id (map_prod id (map_prod id (in_mode m))) =
      (\<lambda>(st, n, start, s1). written (st, n, s1))"
    by (simp add: fun_eq_iff written_def)
  then show ?thesis by (simp only: written_loop in_mode_write_loop option.map_comp in_mode_sel)
qed

text \<open>Property C37. The user's side of a port is the same in both modes. In whatever state the port
  is, and whichever values decide between the FIFO and the DMA engine: a read request and the read
  routine do exactly the same (the same bytes, replies, events, descriptors, the same invalid
  accesses if any), the free space is the same, and a write has the same status and count and
  leaves the same descriptors and cursor. The registers a write touches are not compared: with DMA
  it starts the engine.\<close>

theorem user_side_same_in_both_modes:
  "FsccEvtIoRead E req n (in_mode m s) = in_mode m (FsccEvtIoRead E req n s) \<and>
   FsccProcessRead E (in_mode m s) = map_option (in_mode m) (FsccProcessRead E s) \<and>
   fscc_user_get_tx_space (in_mode m s) = fscc_user_get_tx_space s \<and>
   map_option written (fscc_user_write_frame E buf len (in_mode m s)) =
     map_option written (fscc_user_write_frame E buf len s)"
  by (simp only: in_mode_process_read in_mode_io_read in_mode_write in_mode_space simp_thms)

end
