(* ===== verification/Fscc_Trace.thy ===== *)
theory Fscc_Trace
  imports Fscc_Isr
begin

text \<open>
  Tracing (\<open>debug.c\<close>, \<open>trace.h\<close>): what the driver reports of the registers it writes and
  of the interrupts it handles, and what a checked build without event tracing prints of it.
  A trace message is a value here, because it changes nothing of the driver; formatting a
  message is the work of the kernel's string library and a parameter.
\<close>

section \<open>Messages\<close>

type_synonym TRACEHANDLE = u64

abbreviation (input) TRACE_LEVEL_WARNING :: TRACEHANDLE where "TRACE_LEVEL_WARNING \<equiv> 3"
abbreviation (input) TRACE_LEVEL_INFORMATION :: TRACEHANDLE where "TRACE_LEVEL_INFORMATION \<equiv> 4"
abbreviation (input) TRACE_LEVEL_VERBOSE :: TRACEHANDLE where "TRACE_LEVEL_VERBOSE \<equiv> 5"
abbreviation (input) TRACE_DEVICE :: u32 where "TRACE_DEVICE \<equiv> 0x00000008"

record trace_message =
  TraceEventsLevel :: TRACEHANDLE
  TraceEventsFlag :: u32
  DebugMessage :: string
  message_arguments :: "u32 list"

definition trace_device :: "TRACEHANDLE \<Rightarrow> string \<Rightarrow> u32 list \<Rightarrow> trace_message" where
  "trace_device level text args =
     \<lparr>TraceEventsLevel = level, TraceEventsFlag = TRACE_DEVICE, DebugMessage = text, message_arguments = args\<rparr>"

text \<open>\<open>TraceEvents\<close> of a checked build, as the calls of \<open>KdPrint\<close> it makes. \<open>printf\<close> is
  \<open>RtlStringCbVPrintfA\<close> into the buffer of 1024 bytes.\<close>

type_synonym printf = "string \<Rightarrow> u32 list \<Rightarrow> NTSTATUS \<times> string"

datatype kd_print = KdPrint string | KdPrint_failed NTSTATUS

definition TraceEvents :: "printf \<Rightarrow> trace_message \<Rightarrow> kd_print list" where
  "TraceEvents printf m =
     (let (status, debugMessageBuffer) = printf (DebugMessage m) (message_arguments m)
      in if \<not> NT_SUCCESS status then [KdPrint_failed status]
         else if TraceEventsLevel m < TRACE_LEVEL_INFORMATION then [KdPrint debugMessageBuffer]
         else [])"

section \<open>Registers\<close>

definition display_register :: "u32 \<Rightarrow> u32 \<Rightarrow> u32 \<Rightarrow> u32 \<Rightarrow> trace_message" where
  "display_register b offset old_val new_val =
     (let SessionHandle =
            (if offset \<in> {FIFO_OFFSET, BC_FIFO_L_OFFSET, FIFO_BC_OFFSET, FIFO_FC_OFFSET, CMDR_OFFSET}
             then TRACE_LEVEL_VERBOSE else TRACE_LEVEL_INFORMATION);
          old_val = (if b = 0 \<and> (offset = FIFO_OFFSET \<or> offset = BC_FIFO_L_OFFSET \<or> offset = CMDR_OFFSET)
                     then new_val else old_val)
      in if old_val \<noteq> new_val
         then trace_device SessionHandle ''Register (%i:0x%02x) 0x%08x => 0x%08x'' [b, offset, old_val, new_val]
         else trace_device TRACE_LEVEL_VERBOSE ''Register (%i:0x%02x) = 0x%08x'' [b, offset, new_val])"

text \<open>The calls of \<open>display_register\<close> in \<open>fscc_port_set_register\<close>, made with the value before it is
  stored; \<open>value\<close> is the value that went to the card.\<close>

definition set_register_trace :: "nat \<Rightarrow> u32 \<Rightarrow> u32 \<Rightarrow> driver \<Rightarrow> trace_message list" where
  "set_register_trace b register_offset value s =
     (if b = 0 then [display_register (of_nat b) register_offset
           (ucast (register_storage s ! (unat register_offset div 4))) value]
      else if register_offset = FCR_OFFSET
        then [display_register (of_nat b) register_offset (ucast (register_storage s ! reg_FCR)) value]
      else [])"

definition traced_set_register :: "env \<Rightarrow> nat \<Rightarrow> u32 \<Rightarrow> u32 \<Rightarrow> driver \<Rightarrow> trace_message list" where
  "traced_set_register E b register_offset value s =
     (if fst (fscc_port_set_register E b register_offset value s) = STATUS_IO_TIMEOUT then []
      else set_register_trace b register_offset (dmaccr_value s b register_offset value) s)"

section \<open>Interrupts\<close>

text \<open>The interrupt bits that only the trace looks at (\<open>port.h\<close>).\<close>

abbreviation (input) RFL :: u32 where "RFL \<equiv> 0x00000020"
abbreviation (input) TIN :: u32 where "TIN \<equiv> 0x00000100"
abbreviation (input) CTSS :: u32 where "CTSS \<equiv> 0x01000000"
abbreviation (input) DSRC :: u32 where "DSRC \<equiv> 0x02000000"
abbreviation (input) CDC :: u32 where "CDC \<equiv> 0x04000000"
abbreviation (input) DR_STOP :: u32 where "DR_STOP \<equiv> 0x00004000"
abbreviation (input) DT_STOP :: u32 where "DT_STOP \<equiv> 0x00008000"
abbreviation (input) DT_FE :: u32 where "DT_FE \<equiv> 0x00002000"
abbreviation (input) DT_HI :: u32 where "DT_HI \<equiv> 0x00000800"

abbreviation (input) INFORMATION :: "string \<Rightarrow> trace_message" where
  "INFORMATION text \<equiv> trace_device TRACE_LEVEL_INFORMATION text []"

abbreviation (input) WARNING :: "string \<Rightarrow> trace_message" where
  "WARNING text \<equiv> trace_device TRACE_LEVEL_WARNING text []"

definition print_interrupts :: "u32 \<Rightarrow> trace_message list" where
  "print_interrupts isr_value =
     [trace_device TRACE_LEVEL_INFORMATION (''Interrupt: 0x%08x'' @ [CHR 0x0A]) [isr_value]] @
     (if isr_value AND RFE \<noteq> 0 then [INFORMATION ''RFE (Receive Frame End Interrupt)''] else []) @
     (if isr_value AND RFT \<noteq> 0 then [INFORMATION ''RFT (Receive FIFO Trigger Interrupt)''] else []) @
     (if isr_value AND RFS \<noteq> 0 then [INFORMATION ''RFS (Receive Frame Start Interrupt)''] else []) @
     (if isr_value AND RFO \<noteq> 0 then [WARNING ''RFO (Receive Frame Overflow Interrupt)''] else []) @
     (if isr_value AND RDO \<noteq> 0 then [WARNING ''RDO (Receive Data Overflow Interrupt)''] else []) @
     (if isr_value AND RFL \<noteq> 0 then [WARNING ''RFL (Receive Frame Lost Interrupt)''] else []) @
     (if isr_value AND TIN \<noteq> 0 then [INFORMATION ''TIN (Timer Expiration Interrupt)''] else []) @
     (if isr_value AND TFT \<noteq> 0 then [INFORMATION ''TFT (Transmit FIFO Trigger Interrupt)''] else []) @
     (if isr_value AND TDU \<noteq> 0 then [WARNING ''TDU (Transmit Data Underrun Interrupt)''] else []) @
     (if isr_value AND ALLS \<noteq> 0 then [INFORMATION ''ALLS (All Sent Interrupt)''] else []) @
     (if isr_value AND CTSS \<noteq> 0 then [INFORMATION ''CTSS (CTS State Change Interrupt)''] else []) @
     (if isr_value AND DSRC \<noteq> 0 then [INFORMATION ''DSRC (DSR Change Interrupt)''] else []) @
     (if isr_value AND CDC \<noteq> 0 then [INFORMATION ''CDC (CD Change Interrupt)''] else []) @
     (if isr_value AND DT_STOP \<noteq> 0 then [INFORMATION ''DT_STOP (DMA Transmitter Full Stop indication)''] else []) @
     (if isr_value AND DR_STOP \<noteq> 0 then [INFORMATION ''DR_STOP (DMA Receiver Full Stop indication)''] else []) @
     (if isr_value AND DT_FE \<noteq> 0 then [INFORMATION ''DT_FE (DMA Transmit Frame End indication)''] else []) @
     (if isr_value AND DR_FE \<noteq> 0 then [INFORMATION ''DR_FE (DMA Receive Frame End indication)''] else []) @
     (if isr_value AND DT_HI \<noteq> 0 then [INFORMATION ''DT_HI (DMA Transmit Host Interrupt indication)''] else []) @
     (if isr_value AND DR_HI \<noteq> 0 then [INFORMATION ''DR_HI (DMA Receive Host Interrupt indication)''] else [])"

section \<open>What is reported\<close>

text \<open>The interrupts in the order of their lines: the bit, whether it is a warning, the line.\<close>

definition interrupt_lines :: "(nat \<times> bool \<times> string) list" where
  "interrupt_lines =
    [(2, False, ''RFE (Receive Frame End Interrupt)''), (1, False, ''RFT (Receive FIFO Trigger Interrupt)''),
     (0, False, ''RFS (Receive Frame Start Interrupt)''), (3, True, ''RFO (Receive Frame Overflow Interrupt)''),
     (4, True, ''RDO (Receive Data Overflow Interrupt)''), (5, True, ''RFL (Receive Frame Lost Interrupt)''),
     (8, False, ''TIN (Timer Expiration Interrupt)''), (16, False, ''TFT (Transmit FIFO Trigger Interrupt)''),
     (18, True, ''TDU (Transmit Data Underrun Interrupt)''), (17, False, ''ALLS (All Sent Interrupt)''),
     (24, False, ''CTSS (CTS State Change Interrupt)''), (25, False, ''DSRC (DSR Change Interrupt)''),
     (26, False, ''CDC (CD Change Interrupt)''), (15, False, ''DT_STOP (DMA Transmitter Full Stop indication)''),
     (14, False, ''DR_STOP (DMA Receiver Full Stop indication)''), (13, False, ''DT_FE (DMA Transmit Frame End indication)''),
     (12, False, ''DR_FE (DMA Receive Frame End indication)''), (11, False, ''DT_HI (DMA Transmit Host Interrupt indication)''),
     (10, False, ''DR_HI (DMA Receive Host Interrupt indication)'')]"

definition interrupt_message :: "nat \<times> bool \<times> string \<Rightarrow> trace_message" where
  "interrupt_message = (\<lambda>(n, warn, text). if warn then WARNING text else INFORMATION text)"

text \<open>One test of an interrupt bit is a test of its place.\<close>

lemma interrupt_bits:
  "((v :: u32) AND 0x1 \<noteq> 0) = bit v 0" "(v AND 0x2 \<noteq> 0) = bit v 1" "(v AND 0x4 \<noteq> 0) = bit v 2"
  "(v AND 0x8 \<noteq> 0) = bit v 3" "(v AND 0x10 \<noteq> 0) = bit v 4" "(v AND 0x20 \<noteq> 0) = bit v 5"
  "(v AND 0x100 \<noteq> 0) = bit v 8" "(v AND 0x400 \<noteq> 0) = bit v 10" "(v AND 0x800 \<noteq> 0) = bit v 11"
  "(v AND 0x1000 \<noteq> 0) = bit v 12" "(v AND 0x2000 \<noteq> 0) = bit v 13" "(v AND 0x4000 \<noteq> 0) = bit v 14"
  "(v AND 0x8000 \<noteq> 0) = bit v 15" "(v AND 0x10000 \<noteq> 0) = bit v 16" "(v AND 0x20000 \<noteq> 0) = bit v 17"
  "(v AND 0x40000 \<noteq> 0) = bit v 18" "(v AND 0x1000000 \<noteq> 0) = bit v 24" "(v AND 0x2000000 \<noteq> 0) = bit v 25"
  "(v AND 0x4000000 \<noteq> 0) = bit v 26"
proof -
  have one: "(v AND push_bit n 1 \<noteq> 0) = bit v n" for n
    by (rule bit_iff_and_push_bit_not_eq_0 [symmetric])
  show "(v AND 0x1 \<noteq> 0) = bit v 0" "(v AND 0x2 \<noteq> 0) = bit v 1" "(v AND 0x4 \<noteq> 0) = bit v 2"
    "(v AND 0x8 \<noteq> 0) = bit v 3" "(v AND 0x10 \<noteq> 0) = bit v 4" "(v AND 0x20 \<noteq> 0) = bit v 5"
    "(v AND 0x100 \<noteq> 0) = bit v 8" "(v AND 0x400 \<noteq> 0) = bit v 10" "(v AND 0x800 \<noteq> 0) = bit v 11"
    "(v AND 0x1000 \<noteq> 0) = bit v 12" "(v AND 0x2000 \<noteq> 0) = bit v 13" "(v AND 0x4000 \<noteq> 0) = bit v 14"
    "(v AND 0x8000 \<noteq> 0) = bit v 15" "(v AND 0x10000 \<noteq> 0) = bit v 16" "(v AND 0x20000 \<noteq> 0) = bit v 17"
    "(v AND 0x40000 \<noteq> 0) = bit v 18" "(v AND 0x1000000 \<noteq> 0) = bit v 24" "(v AND 0x2000000 \<noteq> 0) = bit v 25"
    "(v AND 0x4000000 \<noteq> 0) = bit v 26"
    using one [of 0] one [of 1] one [of 2] one [of 3] one [of 4] one [of 5] one [of 8] one [of 10] one [of 11]
      one [of 12] one [of 13] one [of 14] one [of 15] one [of 16] one [of 17] one [of 18] one [of 24] one [of 25]
      one [of 26] by (simp_all add: push_bit_eq_mult)
qed

lemma print_interrupts_lines:
  "print_interrupts v = trace_device TRACE_LEVEL_INFORMATION (''Interrupt: 0x%08x'' @ [CHR 0x0A]) [v] #
     map interrupt_message (filter (\<lambda>(n, warn, text). bit v n) interrupt_lines)"
proof -
  have conc: "concat (map (\<lambda>x. if P x then [f x] else []) xs) = map f (filter P xs)"
    for P and f :: "nat \<times> bool \<times> string \<Rightarrow> trace_message" and xs
    by (induction xs) simp_all
  show ?thesis
    unfolding print_interrupts_def interrupt_bits conc [symmetric] interrupt_lines_def interrupt_message_def
    by (simp only: list.map concat.simps split_conv if_True if_False append_Cons append_Nil append_Nil2)
qed

text \<open>A register write is reported, above the verbose level, exactly if it changed the copy the port
  keeps of the register, with the old and the new value; the data and command registers never are.\<close>

definition verbose_only :: "u32 \<Rightarrow> bool" where
  "verbose_only off \<longleftrightarrow> off \<in> {FIFO_OFFSET, BC_FIFO_L_OFFSET, FIFO_BC_OFFSET, FIFO_FC_OFFSET, CMDR_OFFSET}"

abbreviation reported :: "trace_message list \<Rightarrow> trace_message list" where
  "reported ms \<equiv> filter (\<lambda>m. TraceEventsLevel m < TRACE_LEVEL_VERBOSE) ms"

lemma display_level:
  "TraceEventsLevel (display_register b off old new) < TRACE_LEVEL_VERBOSE \<longleftrightarrow> \<not> verbose_only off \<and> old \<noteq> new"
  by (simp add: display_register_def verbose_only_def trace_device_def Let_def)

lemma display_change:
  "\<not> verbose_only off \<Longrightarrow> old \<noteq> new \<Longrightarrow> display_register b off old new =
     trace_device TRACE_LEVEL_INFORMATION ''Register (%i:0x%02x) 0x%08x => 0x%08x'' [b, off, old, new]"
  by (simp add: display_register_def verbose_only_def Let_def)

lemma ucast_back: "ucast (ucast v :: i64) = (v :: u32)"
  by (rule bit_word_eqI) (auto simp: bit_unsigned_iff dest: bit_imp_le_length)

lemma register_changes_reported:
  assumes "fscc_port_set_register E 0 off v s = (st, s')" "unat off div 4 < length (register_storage s)"
  shows "reported (traced_set_register E 0 off v s) =
    (let i = unat off div 4; old = ucast (register_storage s ! i); new = ucast (register_storage s' ! i)
     in if verbose_only off \<or> old = new then []
        else [trace_device TRACE_LEVEL_INFORMATION ''Register (%i:0x%02x) 0x%08x => 0x%08x'' [0, off, old, new]])"
proof (cases "off = CMDR_OFFSET")
  case True
  then show ?thesis by (simp add: traced_set_register_def set_register_trace_def display_level verbose_only_def)
next
  case False
  then have "st = STATUS_SUCCESS" "register_storage s' = (register_storage s)[unat off div 4 := ucast v]"
    using assms(1) by (auto simp: set_register_plain store_register_def)
  then show ?thesis
    using assms by (auto simp: traced_set_register_def set_register_trace_def display_level display_change ucast_back Let_def)
qed

text \<open>\<open>FCR\<close> has the offset of the data register in its own BAR, so no change of it is reported.\<close>

lemma fcr_changes_hidden: "reported (traced_set_register E 2 FCR_OFFSET v s) = []"
  by (simp add: traced_set_register_def set_register_trace_def display_level verbose_only_def)

text \<open>On the debugger of a checked build, where only warnings and worse are printed, exactly the
  pending losses of data appear (overflow, lost frame, underrun), whatever else is pending.\<close>

lemma losses_printed:
  assumes "\<And>text args. NT_SUCCESS (fst (printf text args))"
  shows "concat (map (TraceEvents printf) (print_interrupts v)) =
      map (\<lambda>(n, warn, text). KdPrint (snd (printf text []))) (filter (\<lambda>(n, warn, text). warn \<and> bit v n) interrupt_lines)"
proof -
  have one: "TraceEvents printf m =
      (if TraceEventsLevel m < TRACE_LEVEL_INFORMATION then [KdPrint (snd (printf (DebugMessage m) (message_arguments m)))]
       else [])" for m
    using assms [of "DebugMessage m" "message_arguments m"]
    by (cases "printf (DebugMessage m) (message_arguments m)") (simp add: TraceEvents_def)
  have "concat (map (TraceEvents printf) (map interrupt_message (filter (\<lambda>(n, warn, text). bit v n) ls))) =
      map (\<lambda>(n, warn, text). KdPrint (snd (printf text []))) (filter (\<lambda>(n, warn, text). warn \<and> bit v n) ls)" for ls
    by (induction ls) (auto simp: one interrupt_message_def trace_device_def split: if_splits)
  then show ?thesis
    by (simp add: print_interrupts_lines one trace_device_def)
qed

text \<open>\<open>port.h\<close> defines the interrupt \<open>CTSA\<close> (bit 27), which no line names.\<close>

lemma ctsa_not_named:
  "print_interrupts 0x08000000 = [trace_device TRACE_LEVEL_INFORMATION (''Interrupt: 0x%08x'' @ [CHR 0x0A]) [0x08000000]]"
  by (simp add: print_interrupts_def)

end
