(* ===== verification/Fscc_Ics702.thy ===== *)
theory Fscc_Ics702
  imports Fscc_Prelude
begin

text \<open>
  The user-space search for the dividers of the ICS307-02 clock generator
  (\<open>GetICS30702Data\<close> in \<open>lib/raw/calculate-clock-bits.c\<close>). All of it is arithmetic on
  \<open>unsigned long\<close>, which has 32 bits on Windows, so every sum and product wraps. The
  loops are functions of their own, with the measures that make them end, and the state
  they share is a record. The search is then shown to be exhaustive: what it returns is the
  best of all the dividers it allows.
\<close>

section \<open>Model\<close>

abbreviation inFreq :: u32 where "inFreq \<equiv> 18432000"

record clock_data_335 =
  frequency_335 :: u32
  clock_bits_335 :: u32

record search_702 =
  low :: u32
  hi :: u32
  lVDW :: u32
  lRDW :: u32
  lOD :: u32
  hVDW :: u32
  hRDW :: u32
  hOD :: u32

definition start_702 :: "u32 \<Rightarrow> search_702" where
  "start_702 rate = \<lparr>low = rate - rate div 10, hi = rate + rate div 10,
     lVDW = 1, lRDW = 1, lOD = 1, hVDW = 1, hRDW = 1, hOD = 1\<rparr>"

text \<open>The highest rate an output divider allows; \<open>None\<close> is the invalid divider.\<close>

definition od_skip :: "u32 \<Rightarrow> u32 \<Rightarrow> bool option" where
  "od_skip rate od =
     (if od = 2 then Some (rate > 180000000)
      else if od = 3 then Some (rate > 120000000)
      else if od = 4 then Some (rate > 90000000)
      else if od = 5 then Some (rate > 72000000)
      else if od = 6 then Some (rate > 60000000)
      else if od = 7 then Some (rate > 50000000)
      else if od = 8 then Some (rate > 45000000)
      else if od = 9 then Some True
      else if od = 10 then Some (rate > 36000000)
      else None)"

definition check_702 :: "u32 \<Rightarrow> u32 \<Rightarrow> u32 \<Rightarrow> u32" where
  "check_702 od rdw vdw = ((inFreq * 2) div ((rdw + 2) * od)) * (vdw + 8)"

definition operating_range :: "u32 \<Rightarrow> u32 \<Rightarrow> bool" where
  "operating_range rdw vdw \<longleftrightarrow>
     (let range1 = (inFreq * 2 * (vdw + 8)) div (rdw + 2); range2 = inFreq div (rdw + 2)
      in range1 > 60000000 \<and> range1 < 360000000 \<and> range2 > 200000)"

definition set_low :: "u32 \<Rightarrow> u32 \<Rightarrow> u32 \<Rightarrow> u32 \<Rightarrow> search_702 \<Rightarrow> search_702" where
  "set_low check od rdw vdw st = st\<lparr>lVDW := vdw, lRDW := rdw, lOD := od, low := check\<rparr>"

definition set_hi :: "u32 \<Rightarrow> u32 \<Rightarrow> u32 \<Rightarrow> u32 \<Rightarrow> search_702 \<Rightarrow> search_702" where
  "set_hi check od rdw vdw st = st\<lparr>hVDW := vdw, hRDW := rdw, hOD := od, hi := check\<rparr>"

definition try_702 :: "u32 \<Rightarrow> u32 \<Rightarrow> u32 \<Rightarrow> u32 \<Rightarrow> search_702 \<Rightarrow> search_702" where
  "try_702 rate od rdw vdw st =
     (let check = check_702 od rdw vdw in
      if operating_range rdw vdw then
        (let st1 =
           (if check = low st then
              (if lRDW st > rdw then set_low check od rdw vdw st
               else if lRDW st = rdw \<and> lVDW st < vdw then set_low check od rdw vdw st
               else st)
            else if check = hi st then
              (if hRDW st > rdw then set_hi check od rdw vdw st
               else if hRDW st = rdw \<and> hVDW st < vdw then set_hi check od rdw vdw st
               else st)
            else st)
         in if check > low st1 \<and> check < hi st1
            then (if check > rate then set_hi check od rdw vdw st1 else set_low check od rdw vdw st1)
            else st1)
      else st)"

lemma unat_inc: "v \<le> (511 :: u32) \<Longrightarrow> unat (v + 1) = unat v + 1"
  by (simp add: word_le_nat_alt unat_word_ariths)

lemma unat_le_511: "v \<le> n \<Longrightarrow> n \<le> (511 :: u32) \<Longrightarrow> unat (v + 1) = unat v + 1"
  by (rule unat_inc) (rule order_trans)

function vdw_loop :: "u32 \<Rightarrow> u32 \<Rightarrow> u32 \<Rightarrow> u32 \<Rightarrow> search_702 \<Rightarrow> search_702" where
  "vdw_loop rate od rdw vdw st =
     (if vdw \<le> 511 then vdw_loop rate od rdw (vdw + 1) (try_702 rate od rdw vdw st) else st)"
  by pat_completeness auto
termination
proof (relation "measure (\<lambda>(rate, od, rdw, vdw, st). 512 - unat vdw)", goal_cases)
  case (2 rate od rdw vdw st)
  then show ?case using unat_inc [OF 2] by (simp add: word_le_nat_alt)
qed simp

declare vdw_loop.simps [simp del]

function rdw_loop :: "u32 \<Rightarrow> u32 \<Rightarrow> u32 \<Rightarrow> search_702 \<Rightarrow> search_702" where
  "rdw_loop rate od rdw st =
     (if rdw \<le> 127 then rdw_loop rate od (rdw + 1) (vdw_loop rate od rdw 4 st) else st)"
  by pat_completeness auto
termination
proof (relation "measure (\<lambda>(rate, od, rdw, st). 128 - unat rdw)", goal_cases)
  case (2 rate od rdw st)
  then show ?case using unat_le_511 [OF 2] by (simp add: word_le_nat_alt)
qed simp

declare rdw_loop.simps [simp del]

text \<open>\<open>None\<close> is the early \<open>return 1\<close> of the invalid divider.\<close>

function od_loop :: "u32 \<Rightarrow> u32 \<Rightarrow> search_702 \<Rightarrow> search_702 option" where
  "od_loop rate od st =
     (if od \<le> 10 then
        (case od_skip rate od of None \<Rightarrow> None
         | Some odskip \<Rightarrow>
             od_loop rate (if od + 1 = 9 then od + 1 + 1 else od + 1)
               (if odskip then st else rdw_loop rate od 1 st))
      else Some st)"
  by pat_completeness auto
termination
proof (relation "measure (\<lambda>(rate, od, st). 11 - unat od)", goal_cases)
  case (2 rate od st skip)
  have od: "unat od \<le> 10" using 2(1) by (simp add: word_le_nat_alt)
  have up: "unat (od + 1) = unat od + 1" using unat_le_511 [OF 2(1)] by simp
  have "unat (if od + 1 = 9 then od + 1 + 1 else od + 1) > unat od"
  proof (cases "od + 1 = 9")
    case True
    then show ?thesis using up by (simp add: True)
  next
    case False
    then show ?thesis using up by simp
  qed
  then show ?case using od by simp
qed simp

declare od_loop.simps [simp del]

definition od_code :: "u32 \<Rightarrow> u32 option" where
  "od_code od =
     (if od = 2 then Some 0x11 else if od = 3 then Some 0x16 else if od = 4 then Some 0x13
      else if od = 5 then Some 0x14 else if od = 6 then Some 0x17 else if od = 7 then Some 0x15
      else if od = 8 then Some 0x12 else if od = 10 then Some 0x10 else None)"

definition GetICS30702Data :: "clock_data_335 \<Rightarrow> u32 \<times> clock_data_335" where
  "GetICS30702Data clock_data =
     (let rate = frequency_335 clock_data;
          clock_data = clock_data\<lparr>frequency_335 := 0\<rparr>
      in case od_loop rate 2 (start_702 rate) of
           None \<Rightarrow> (1, clock_data)
         | Some st \<Rightarrow>
             (let (bestVDW, bestRDW, bestOD) =
                (if hi st - rate < rate - low st then (hVDW st, hRDW st, hOD st)
                 else (lVDW st, lRDW st, lOD st))
              in case od_code bestOD of
                   None \<Rightarrow> (1, clock_data)
                 | Some result \<Rightarrow>
                     (0, clock_data\<lparr>frequency_335 := check_702 bestOD bestRDW bestVDW,
                        clock_bits_335 := push_bit 7 (push_bit 9 result OR bestVDW) OR bestRDW\<rparr>)))"

definition calculate_clock_bits_335 :: "clock_data_335 \<Rightarrow> u32 \<times> clock_data_335" where
  "calculate_clock_bits_335 clock_data = GetICS30702Data clock_data"

section \<open>The search is exhaustive\<close>

text \<open>The dividers the search looks at, and those among them that pass its range test.\<close>

definition searched_702 :: "u32 \<Rightarrow> u32 \<Rightarrow> u32 \<Rightarrow> u32 \<Rightarrow> bool" where
  "searched_702 rate od rdw vdw \<longleftrightarrow>
     od_skip rate od = Some False \<and> 1 \<le> rdw \<and> rdw \<le> 127 \<and> 4 \<le> vdw \<and> vdw \<le> 511"

definition allowed_702 :: "u32 \<Rightarrow> u32 \<Rightarrow> u32 \<Rightarrow> u32 \<Rightarrow> bool" where
  "allowed_702 rate od rdw vdw \<longleftrightarrow> searched_702 rate od rdw vdw \<and> operating_range rdw vdw"

definition between_702 :: "search_702 \<Rightarrow> u32 \<times> u32 \<times> u32 \<Rightarrow> bool" where
  "between_702 st = (\<lambda>(od, rdw, vdw). operating_range rdw vdw \<and>
     low st < check_702 od rdw vdw \<and> check_702 od rdw vdw < hi st)"

text \<open>What the search maintains: the bounds enclose the rate and stay within a tenth of it,
  each is either untouched or the clock of allowed dividers, and none of the dividers looked
  at gives a clock between the bounds.\<close>

definition found_702 :: "u32 \<Rightarrow> u32 \<Rightarrow> u32 \<Rightarrow> u32 \<Rightarrow> u32 \<Rightarrow> u32 \<Rightarrow> bool" where
  "found_702 rate start value od rdw vdw \<longleftrightarrow>
     od = 1 \<and> value = start \<or> allowed_702 rate od rdw vdw \<and> value = check_702 od rdw vdw"

definition good_702 :: "u32 \<Rightarrow> (u32 \<times> u32 \<times> u32) set \<Rightarrow> search_702 \<Rightarrow> bool" where
  "good_702 rate V st \<longleftrightarrow>
     rate - rate div 10 \<le> low st \<and> low st \<le> rate \<and> rate \<le> hi st \<and> hi st \<le> rate + rate div 10 \<and>
     found_702 rate (rate - rate div 10) (low st) (lOD st) (lRDW st) (lVDW st) \<and>
     found_702 rate (rate + rate div 10) (hi st) (hOD st) (hRDW st) (hVDW st) \<and>
     (\<forall>p\<in>V. \<not> between_702 st p)"

lemma good_702_mono: "good_702 rate V st \<Longrightarrow> W \<subseteq> V \<Longrightarrow> good_702 rate W st"
  by (auto simp: good_702_def)

lemma set_low_sel [simp]:
  "low (set_low c od rdw vdw st) = c" "hi (set_low c od rdw vdw st) = hi st"
  "lOD (set_low c od rdw vdw st) = od" "lRDW (set_low c od rdw vdw st) = rdw"
  "lVDW (set_low c od rdw vdw st) = vdw" "hOD (set_low c od rdw vdw st) = hOD st"
  "hRDW (set_low c od rdw vdw st) = hRDW st" "hVDW (set_low c od rdw vdw st) = hVDW st"
  "low (set_hi c od rdw vdw st) = low st" "hi (set_hi c od rdw vdw st) = c"
  "hOD (set_hi c od rdw vdw st) = od" "hRDW (set_hi c od rdw vdw st) = rdw"
  "hVDW (set_hi c od rdw vdw st) = vdw" "lOD (set_hi c od rdw vdw st) = lOD st"
  "lRDW (set_hi c od rdw vdw st) = lRDW st" "lVDW (set_hi c od rdw vdw st) = lVDW st"
  by (simp_all add: set_low_def set_hi_def)

lemma good_702_set_low:
  assumes "good_702 rate V st" "allowed_702 rate od rdw vdw"
    and "low st \<le> check_702 od rdw vdw" "check_702 od rdw vdw \<le> rate"
  shows "good_702 rate V (set_low (check_702 od rdw vdw) od rdw vdw st)"
proof -
  let ?st = "set_low (check_702 od rdw vdw) od rdw vdw st"
  have "between_702 st p" if "between_702 ?st p" for p
    using that assms(3) by (cases p) (auto simp: between_702_def)
  then show ?thesis using assms by (auto simp: good_702_def found_702_def)
qed

lemma good_702_set_hi:
  assumes "good_702 rate V st" "allowed_702 rate od rdw vdw"
    and "rate \<le> check_702 od rdw vdw" "check_702 od rdw vdw \<le> hi st"
  shows "good_702 rate V (set_hi (check_702 od rdw vdw) od rdw vdw st)"
proof -
  let ?st = "set_hi (check_702 od rdw vdw) od rdw vdw st"
  have "between_702 st p" if "between_702 ?st p" for p
    using that assms(4) by (cases p) (auto simp: between_702_def)
  then show ?thesis using assms by (auto simp: good_702_def found_702_def)
qed

lemma good_702_insert:
  "good_702 rate V st \<Longrightarrow> \<not> between_702 st p \<Longrightarrow> good_702 rate (insert p V) st"
  by (simp add: good_702_def)

lemma good_702_bounds:
  "good_702 rate V st \<Longrightarrow> low st \<le> rate \<and> rate \<le> hi st"
  by (simp add: good_702_def)

lemma try_702_good:
  assumes good: "good_702 rate V st" and searched: "searched_702 rate od rdw vdw"
  shows "good_702 rate (insert (od, rdw, vdw) V) (try_702 rate od rdw vdw st)"
proof (cases "operating_range rdw vdw")
  case False
  then show ?thesis using good by (simp add: try_702_def good_702_insert between_702_def)
next
  case True
  define check where "check = check_702 od rdw vdw"
  have allowed: "allowed_702 rate od rdw vdw" using True searched by (simp add: allowed_702_def)
  define st1 where "st1 =
    (if check = low st then
       (if lRDW st > rdw then set_low check od rdw vdw st
        else if lRDW st = rdw \<and> lVDW st < vdw then set_low check od rdw vdw st else st)
     else if check = hi st then
       (if hRDW st > rdw then set_hi check od rdw vdw st
        else if hRDW st = rdw \<and> hVDW st < vdw then set_hi check od rdw vdw st else st)
     else st)"
  have "st1 = st \<or> check = low st \<and> st1 = set_low check od rdw vdw st
      \<or> check = hi st \<and> st1 = set_hi check od rdw vdw st"
    unfolding st1_def by presburger
  then have "good_702 rate V st1"
    using good good_702_set_low [OF good allowed, folded check_def]
      good_702_set_hi [OF good allowed, folded check_def] good_702_bounds [OF good]
    by (elim disjE conjE) simp_all
  note good1 = this good_702_set_low [OF this allowed, folded check_def]
    good_702_set_hi [OF this allowed, folded check_def]
  have run: "try_702 rate od rdw vdw st =
    (if check > low st1 \<and> check < hi st1
     then (if check > rate then set_hi check od rdw vdw st1 else set_low check od rdw vdw st1) else st1)"
    by (simp only: True if_True try_702_def Let_def st1_def check_def)
  have "good_702 rate V (try_702 rate od rdw vdw st)"
  proof (cases "check > low st1 \<and> check < hi st1")
    case True
    then have le: "low st1 \<le> check" "check \<le> hi st1" using less_imp_le by blast+
    show ?thesis
    proof (cases "check > rate")
      case hi: True
      then show ?thesis using good1(3) [OF _ le(2)] True by (simp add: run)
    next
      case low: False
      then show ?thesis using good1(2) [OF le(1)] True by (simp add: run)
    qed
  qed (use good1(1) in \<open>simp only: run if_False\<close>)
  moreover have "\<not> between_702 (try_702 rate od rdw vdw st) (od, rdw, vdw)"
    by (simp add: run between_702_def check_def [symmetric])
  ultimately show ?thesis by (rule good_702_insert)
qed

lemma vdw_loop_good:
  assumes "good_702 rate V st" "od_skip rate od = Some False" "1 \<le> rdw" "rdw \<le> 127" "4 \<le> vdw"
  shows "good_702 rate (V \<union> {(od, rdw, v) | v. vdw \<le> v \<and> v \<le> 511}) (vdw_loop rate od rdw vdw st)"
  using assms
proof (induction rate od rdw vdw st arbitrary: V rule: vdw_loop.induct)
  case (1 rate od rdw vdw st)
  show ?case
  proof (cases "vdw \<le> 511")
    case False
    then show ?thesis using 1(2) by (subst vdw_loop.simps) (auto elim!: good_702_mono)
  next
    case True
    have up: "unat (vdw + 1) = unat vdw + 1" by (rule unat_inc [OF True])
    then have next_vdw: "4 \<le> vdw + 1" and le: "vdw + 1 \<le> v \<longleftrightarrow> vdw < v" for v
      using "1.prems"(5) by (simp_all add: word_le_nat_alt word_less_nat_alt Suc_le_eq)
    have searched: "searched_702 rate od rdw vdw" using "1.prems" True by (simp add: searched_702_def)
    from "1.IH" [OF True try_702_good [OF "1.prems"(1) searched] "1.prems"(2-4) next_vdw]
    have "good_702 rate (insert (od, rdw, vdw) V \<union> {(od, rdw, v) |v. vdw + 1 \<le> v \<and> v \<le> 511})
      (vdw_loop rate od rdw vdw st)" using True by (simp add: vdw_loop.simps [of rate od rdw vdw])
    moreover have "V \<union> {(od, rdw, v) |v. vdw \<le> v \<and> v \<le> 511} \<subseteq>
        insert (od, rdw, vdw) V \<union> {(od, rdw, v) |v. vdw + 1 \<le> v \<and> v \<le> 511}"
      unfolding le using order_le_imp_less_or_eq by blast
    ultimately show ?thesis by (rule good_702_mono)
  qed
qed


lemma rdw_loop_good:
  assumes "good_702 rate V st" "od_skip rate od = Some False" "1 \<le> rdw"
  shows "good_702 rate (V \<union> {(od, r, v) | r v. rdw \<le> r \<and> r \<le> 127 \<and> 4 \<le> v \<and> v \<le> 511})
    (rdw_loop rate od rdw st)"
  using assms
proof (induction rate od rdw st arbitrary: V rule: rdw_loop.induct)
  case (1 rate od rdw st)
  show ?case
  proof (cases "rdw \<le> 127")
    case False
    then show ?thesis using 1(2) by (subst rdw_loop.simps) (auto elim!: good_702_mono)
  next
    case True
    have up: "unat (rdw + 1) = unat rdw + 1" by (rule unat_le_511 [OF True]) simp
    then have next_rdw: "1 \<le> rdw + 1" and le: "rdw + 1 \<le> r \<longleftrightarrow> rdw < r" for r
      by (simp_all add: word_le_nat_alt word_less_nat_alt Suc_le_eq)
    let ?V = "V \<union> {(od, rdw, v) |v. 4 \<le> v \<and> v \<le> 511}"
    from "1.IH" [OF True vdw_loop_good [OF "1.prems"(1,2,3) True order_refl] "1.prems"(2) next_rdw]
    have "good_702 rate (?V \<union> {(od, r, v) | r v. rdw + 1 \<le> r \<and> r \<le> 127 \<and> 4 \<le> v \<and> v \<le> 511})
      (rdw_loop rate od rdw st)" using True by (simp add: rdw_loop.simps [of rate od rdw])
    moreover have "V \<union> {(od, r, v) | r v. rdw \<le> r \<and> r \<le> 127 \<and> 4 \<le> v \<and> v \<le> 511} \<subseteq>
        ?V \<union> {(od, r, v) | r v. rdw + 1 \<le> r \<and> r \<le> 127 \<and> 4 \<le> v \<and> v \<le> 511}"
      unfolding le using order_le_imp_less_or_eq by blast
    ultimately show ?thesis by (rule good_702_mono)
  qed
qed

lemma od_range:
  assumes "2 \<le> od" "od \<le> (10 :: u32)"
  shows "od \<in> {2, 3, 4, 5, 6, 7, 8, 9, 10}"
proof -
  have "2 \<le> unat od" "unat od \<le> 10" using assms by (simp_all add: word_le_nat_alt)
  then have "unat od \<in> {2, 3, 4, 5, 6, 7, 8, 9, 10}" by (simp, presburger)
  moreover have "od = of_nat (unat od)" by simp
  ultimately show ?thesis by (smt (verit, best) insert_iff of_nat_numeral singletonD)
qed

lemma od_loop_good:
  assumes "good_702 rate V st" "2 \<le> od"
  shows "\<exists>st'. od_loop rate od st = Some st' \<and>
    good_702 rate (V \<union> {(o', r, v) | o' r v. od \<le> o' \<and> o' \<le> 10 \<and> searched_702 rate o' r v}) st'"
  using assms
proof (induction rate od st arbitrary: V rule: od_loop.induct)
  case (1 rate od st)
  let ?S = "\<lambda>od. {(o', r, v) | o' r v. od \<le> o' \<and> o' \<le> 10 \<and> searched_702 rate o' r v}"
  show ?case
  proof (cases "od \<le> 10")
    case False
    have "?S od = {}" using False order_trans by blast
    then show ?thesis using 1(2) False by (subst od_loop.simps) (simp only: if_False Un_empty_right, blast)
  next
    case True
    have ods: "od \<in> {2, 3, 4, 5, 6, 7, 8, 9, 10}" by (rule od_range [OF "1.prems"(2) True])
    then obtain skip where skip: "od_skip rate od = Some skip" by (auto simp: od_skip_def)
    define od' where "od' = (if od + 1 = 9 then od + 1 + 1 else od + 1)"
    define st' where "st' = (if skip then st else rdw_loop rate od 1 st)"
    have od': "2 \<le> od'" "od \<le> o' \<longleftrightarrow> o' = od \<or> (od = 8 \<and> o' = 9) \<or> od' \<le> o'" for o'
    proof -
      have up: "unat (od + 1) = unat od + 1" by (rule unat_le_511 [OF True]) simp
      have nine: "od + 1 = 9 \<longleftrightarrow> od = 8" by (auto simp: word_unat_eq_iff up)
      show "2 \<le> od'" using "1.prems"(2) by (simp add: od'_def nine word_le_nat_alt up)
      show "od \<le> o' \<longleftrightarrow> o' = od \<or> (od = 8 \<and> o' = 9) \<or> od' \<le> o'"
      proof (cases "od = 8")
        case True
        have "8 \<le> unat o' \<longleftrightarrow> unat o' = 8 \<or> unat o' = 9 \<or> 10 \<le> unat o'" by linarith
        then show ?thesis by (simp add: od'_def True word_le_nat_alt word_unat_eq_iff)
      next
        case False
        then show ?thesis by (simp add: od'_def nine word_le_nat_alt word_unat_eq_iff up, linarith)
      qed
    qed
    let ?V = "V \<union> (if skip then {} else {(od, r, v) | r v. 1 \<le> r \<and> r \<le> 127 \<and> 4 \<le> v \<and> v \<le> 511})"
    have "good_702 rate ?V st'"
      using "1.prems"(1) rdw_loop_good [OF "1.prems"(1), of od 1] skip by (simp add: st'_def)
    note step = "1.IH" [OF True skip this [unfolded st'_def] od'(1) [unfolded od'_def],
        folded od'_def st'_def]
    have "od_loop rate od st = od_loop rate od' st'"
      using True skip by (simp add: od_loop.simps [of rate od] od'_def st'_def)
    with step obtain t where t: "od_loop rate od st = Some t" "good_702 rate (?V \<union> ?S od') t" by auto
    have "V \<union> ?S od \<subseteq> ?V \<union> ?S od'"
    proof (rule subsetI)
      fix p assume p: "p \<in> V \<union> ?S od"
      have nine: "\<not> searched_702 rate 9 r v" for r v by (simp add: searched_702_def od_skip_def)
      show "p \<in> ?V \<union> ?S od'"
      proof (cases "p \<in> V")
        case False
        then obtain o' r v where o': "p = (o', r, v)" "od \<le> o'" "o' \<le> 10" "searched_702 rate o' r v"
          using p by blast
        then consider "o' = od" | "od' \<le> o'" using nine od'(2) [of o'] by auto
        then show ?thesis
        proof cases
          case 1
          then show ?thesis using o'(1,4) skip by (simp add: searched_702_def)
        qed (use o' in blast)
      qed blast
    qed
    from good_702_mono [OF t(2) this] t(1) show ?thesis by blast
  qed
qed

text \<open>The distance of two clocks, and what a found one is worth.\<close>

definition distance :: "u32 \<Rightarrow> u32 \<Rightarrow> nat" where
  "distance a b = (if a \<le> b then unat b - unat a else unat a - unat b)"

lemma distance_low: "a \<le> b \<Longrightarrow> distance a b = unat (b - a)" "b \<le> a \<Longrightarrow> distance a b = unat (a - b)"
  by (auto simp: distance_def unat_sub_if' word_le_nat_alt)

lemma allowed_702_od: "allowed_702 rate od rdw vdw \<Longrightarrow> od_code od \<noteq> None"
  by (auto simp: allowed_702_def searched_702_def od_skip_def od_code_def split: if_splits)

lemma found_702_code:
  assumes "found_702 rate start value od rdw vdw" "od_code od = Some code"
  shows "allowed_702 rate od rdw vdw \<and> value = check_702 od rdw vdw"
  using assms by (auto simp: found_702_def od_code_def)

lemma found_702_start:
  assumes "found_702 rate start value od rdw vdw" "od_code od = None"
  shows "value = start"
  using assms allowed_702_od [of rate od rdw vdw] by (auto simp: found_702_def)

lemma good_702_far:
  assumes "good_702 rate V st" "(od, rdw, vdw) \<in> V" "operating_range rdw vdw"
  shows "min (unat (rate - low st)) (unat (hi st - rate)) \<le> distance (check_702 od rdw vdw) rate"
proof -
  let ?c = "check_702 od rdw vdw"
  have in_order: "low st \<le> rate" "rate \<le> hi st" using assms(1) by (simp_all add: good_702_def)
  from assms have "\<not> between_702 st (od, rdw, vdw)" by (auto simp: good_702_def)
  with assms(3) consider "?c \<le> low st" | "hi st \<le> ?c" by (auto simp: between_702_def)
  then show ?thesis
  proof cases
    case 1
    then have "?c \<le> rate" "unat ?c \<le> unat (low st)" using in_order by (simp_all add: word_le_nat_alt)
    then show ?thesis using in_order by (simp add: distance_def unat_sub word_le_nat_alt, linarith?)
  next
    case 2
    then have "rate \<le> ?c" "unat (hi st) \<le> unat ?c" using in_order by (simp_all add: word_le_nat_alt)
    then show ?thesis using in_order by (simp add: distance_def unat_sub word_le_nat_alt, linarith?)
  qed
qed

lemma start_702_good:
  assumes "unat rate + unat rate div 10 < 2 ^ 32"
  shows "good_702 rate {} (start_702 rate)"
    "unat (rate - (rate - rate div 10)) = unat rate div 10"
    "unat (rate + rate div 10 - rate) = unat rate div 10"
proof -
  have d: "unat (rate div 10) = unat rate div 10" by (simp add: unat_div_distrib)
  then have "unat (rate - rate div 10) = unat rate - unat rate div 10"
    "unat (rate + rate div 10) = unat rate + unat rate div 10"
    using assms by (simp_all add: unat_sub word_le_nat_alt unat_word_ariths)
  then show "good_702 rate {} (start_702 rate)"
    "unat (rate - (rate - rate div 10)) = unat rate div 10"
    "unat (rate + rate div 10 - rate) = unat rate div 10"
    using assms by (simp_all add: good_702_def start_702_def found_702_def word_le_nat_alt unat_sub d)
qed

text \<open>The fields of the control word: output divider, VCO divider and reference divider.\<close>

definition control_702 :: "u32 \<Rightarrow> u32 \<times> u32 \<times> u32" where
  "control_702 w = (drop_bit 16 w, take_bit 9 (drop_bit 7 w), take_bit 7 w)"

lemma control_702_fields:
  assumes "od_code od = Some code" "vdw \<le> 511" "rdw \<le> 127"
  shows "control_702 (push_bit 7 (push_bit 9 code OR vdw) OR rdw) = (code, vdw, rdw)"
proof -
  have "take_bit 5 code = code" using assms(1) by (auto simp: od_code_def split: if_splits)
  moreover have "take_bit 9 vdw = vdw" "take_bit 7 rdw = rdw"
    using assms(2,3) by (simp_all add: word_le_nat_alt unat_less_exp [of _ 512] unat_less_exp [of _ 128])
  ultimately have small: "bit code n \<Longrightarrow> n < 5" "bit vdw n \<Longrightarrow> n < 9" "bit rdw n \<Longrightarrow> n < 7" for n
    by (metis bit_take_bit_iff)+
  define w where "w = push_bit 7 (push_bit 9 code OR vdw) OR rdw"
  have w: "bit w n \<longleftrightarrow> n < 32 \<and> (16 \<le> n \<and> bit code (n - 16) \<or> 7 \<le> n \<and> bit vdw (n - 7) \<or> bit rdw n)" for n
    using small(3) [of n] by (auto simp: w_def bit_or_iff bit_push_bit_iff)
  have "bit (drop_bit 16 w) n = bit code n" "bit (take_bit 9 (drop_bit 7 w)) n = bit vdw n"
    "bit (take_bit 7 w) n = bit rdw n" for n
    using small [of n] small(2) [of "n + 9"] small(3) [of "n + 16"] small(3) [of "n + 7"]
    by (auto simp: bit_drop_bit_eq bit_take_bit_iff w ac_simps)
  then show ?thesis unfolding control_702_def w_def [symmetric] by (metis bit_eqI)
qed

lemma search_702_end:
  assumes "unat rate + unat rate div 10 < 2 ^ 32"
  shows "\<exists>st V. od_loop rate 2 (start_702 rate) = Some st \<and> good_702 rate V st \<and>
    (\<forall>od rdw vdw. allowed_702 rate od rdw vdw \<longrightarrow> (od, rdw, vdw) \<in> V)"
proof -
  from od_loop_good [OF start_702_good(1) [OF assms], of 2] obtain st where
    st: "od_loop rate 2 (start_702 rate) = Some st"
    and good: "good_702 rate {(o', r, v) | o' r v. 2 \<le> o' \<and> o' \<le> 10 \<and> searched_702 rate o' r v} st"
    (is "good_702 rate ?V st") by auto
  have "(od, rdw, vdw) \<in> ?V" if "allowed_702 rate od rdw vdw" for od rdw vdw
    using that by (auto simp: allowed_702_def searched_702_def od_skip_def split: if_splits)
  with st good show ?thesis by blast
qed

text \<open>The better one of the two bounds, as a found clock.\<close>

lemma best_702:
  assumes "unat rate + unat rate div 10 < 2 ^ 32" "good_702 rate V st"
  defines "better \<equiv> hi st - rate < rate - low st"
  shows "min (unat (rate - low st)) (unat (hi st - rate)) =
      distance (if better then hi st else low st) rate"
    and "distance (if better then hi st else low st) rate \<le> unat rate div 10"
    and "better \<longrightarrow> hi st \<noteq> rate + rate div 10"
proof -
  have le: "low st \<le> rate" "rate \<le> hi st" "rate - rate div 10 \<le> low st" "hi st \<le> rate + rate div 10"
    using assms(2) by (simp_all add: good_702_def)
  note start = start_702_good(2,3) [OF assms(1)]
  have sum: "unat (rate + rate div 10) = unat rate + unat rate div 10"
    using assms(1) by (simp add: unat_word_ariths unat_div_distrib)
  have "unat (rate - low st) \<le> unat rate div 10" "unat (hi st - rate) \<le> unat rate div 10"
    using le start good_702_bounds [OF start_702_good(1) [OF assms(1)]]
    by (simp_all add: start_702_def unat_sub word_le_nat_alt sum)
  moreover have "better = (unat (hi st - rate) < unat (rate - low st))"
    by (simp add: better_def word_less_nat_alt)
  moreover have "distance (low st) rate = unat (rate - low st)" "distance (hi st) rate = unat (hi st - rate)"
    using le by (simp_all add: distance_low)
  ultimately show "min (unat (rate - low st)) (unat (hi st - rate)) =
      distance (if better then hi st else low st) rate"
    "distance (if better then hi st else low st) rate \<le> unat rate div 10"
    "better \<longrightarrow> hi st \<noteq> rate + rate div 10" using start by auto
qed

text \<open>The same in natural numbers. An output divider has a highest rate. The VCO of the chip runs at
  \<open>vco_702\<close>, and has to stay between 60 and 360 MHz; the code tests this with a product of 32
  bits (\<open>vco_tested\<close>), which wraps for VCO dividers above 108.\<close>

definition max_rates :: "(nat \<times> nat) list" where
  "max_rates = [(2, 180000000), (3, 120000000), (4, 90000000), (5, 72000000), (6, 60000000), (7, 50000000),
     (8, 45000000), (10, 36000000)]"

definition vco_702 :: "nat \<Rightarrow> nat \<Rightarrow> nat" where
  "vco_702 rdw vdw = 36864000 * (vdw + 8) div (rdw + 2)"

definition vco_tested :: "nat \<Rightarrow> nat \<Rightarrow> nat" where
  "vco_tested rdw vdw = 36864000 * (vdw + 8) mod 2 ^ 32 div (rdw + 2)"

definition in_range_702 :: "nat \<Rightarrow> nat \<Rightarrow> bool" where
  "in_range_702 vco rdw \<longleftrightarrow> 60000000 < vco \<and> vco < 360000000 \<and> 200000 < 18432000 div (rdw + 2)"

definition passes_702 :: "u32 \<Rightarrow> u32 \<Rightarrow> u32 \<Rightarrow> u32 \<Rightarrow> bool" where
  "passes_702 rate od rdw vdw \<longleftrightarrow>
     list_ex (\<lambda>(n, m). unat od = n \<and> unat rate \<le> m) max_rates \<and>
     unat rdw \<in> {1..127} \<and> unat vdw \<in> {4..511} \<and> in_range_702 (vco_tested (unat rdw) (unat vdw)) (unat rdw)"

lemma vco_tested_exact: "vdw \<le> 108 \<Longrightarrow> vco_tested rdw vdw = vco_702 rdw vdw"
  by (simp add: vco_tested_def vco_702_def)

lemma operating_range_tested:
  assumes "unat rdw \<le> 127" "unat vdw \<le> 511"
  shows "operating_range rdw vdw = in_range_702 (vco_tested (unat rdw) (unat vdw)) (unat rdw)"
proof -
  have add: "unat (rdw + 2) = unat rdw + 2" "unat (vdw + 8) = unat vdw + 8"
    using assms by (simp_all add: unat_word_ariths)
  have "unat (inFreq * 2 * (vdw + 8)) = 36864000 * (unat vdw + 8) mod 2 ^ 32"
  proof -
    have "unat (inFreq * 2 * (vdw + 8)) = unat (36864000 :: u32) * unat (vdw + 8) mod 2 ^ 32"
      unfolding unat_word_ariths(2) by simp
    then show ?thesis unfolding add(2) by simp
  qed
  then show ?thesis
    by (simp add: operating_range_def in_range_702_def vco_tested_def Let_def word_less_nat_alt unat_div_distrib add(1))
qed

lemma allowed_702_passes: "allowed_702 rate od rdw vdw = passes_702 rate od rdw vdw"
proof -
  have od: "(od_skip rate od = Some False) = list_ex (\<lambda>(n, m). unat od = n \<and> unat rate \<le> m) max_rates"
    by (simp add: od_skip_def max_rates_def word_less_nat_alt word_unat_eq_iff not_less)
  show ?thesis
    using operating_range_tested [of rdw vdw]
    by (auto simp: allowed_702_def searched_702_def passes_702_def od word_le_nat_alt)
qed

text \<open>Property C17. The search for the dividers of the ICS307-02 is exhaustive over the dividers that
  pass the tests of the code: the output dividers for that rate, a reference divider of 1 to
  127, a VCO divider of 4 to 511, and the range test with its product of 32 bits. When it
  succeeds, the control word holds such dividers, the frequency returned is theirs, within a
  tenth of the one asked for, and no others that pass give a closer one; when it fails, none
  that pass give a frequency within less than a tenth, and the control word is left
  alone. The range test is that of the chip (the VCO between 60 and 360 MHz) for VCO dividers up to
  108: for these the chip can run with what was found, and nothing it can run with gives a closer
  frequency. Above 108 the product wraps, the test says nothing of the chip, and the search accepts
  and refuses wrongly (lemma \<open>operating_range_wraps\<close>). A tenth above the rate asked for fits into 32
  bits.\<close>

theorem ics702_finds_best:
  assumes "unat (frequency_335 c) + unat (frequency_335 c) div 10 < 2 ^ 32"
  shows "case calculate_clock_bits_335 c of (t, c') \<Rightarrow>
    let rate = frequency_335 c in
    (if t = 0 then
      \<exists>od code rdw vdw. passes_702 rate od rdw vdw \<and> od_code od = Some code \<and>
        (unat vdw \<le> 108 \<longrightarrow> in_range_702 (vco_702 (unat rdw) (unat vdw)) (unat rdw)) \<and>
        control_702 (clock_bits_335 c') = (code, vdw, rdw) \<and>
        frequency_335 c' = check_702 od rdw vdw \<and>
        distance (frequency_335 c') rate \<le> unat rate div 10 \<and>
        (\<forall>o' r v. passes_702 rate o' r v \<longrightarrow>
           distance (frequency_335 c') rate \<le> distance (check_702 o' r v) rate)
    else t = 1 \<and> c' = c\<lparr>frequency_335 := 0\<rparr> \<and>
      (\<forall>od rdw vdw. passes_702 rate od rdw vdw \<longrightarrow>
         unat rate div 10 \<le> distance (check_702 od rdw vdw) rate)) \<and>
    (\<forall>od rdw vdw. list_ex (\<lambda>(n, m). unat od = n \<and> unat rate \<le> m) max_rates \<longrightarrow>
       unat rdw \<in> {1..127} \<longrightarrow> unat vdw \<in> {4..108} \<longrightarrow> in_range_702 (vco_702 (unat rdw) (unat vdw)) (unat rdw) \<longrightarrow>
       passes_702 rate od rdw vdw)"
proof -
  have exact: "passes_702 rate od rdw vdw \<Longrightarrow> unat vdw \<le> 108 \<Longrightarrow> in_range_702 (vco_702 (unat rdw) (unat vdw)) (unat rdw)"
    for rate od rdw vdw by (simp add: passes_702_def vco_tested_exact)
  have all_exact: "\<forall>od rdw vdw. list_ex (\<lambda>(n, m). unat od = n \<and> unat rate \<le> m) max_rates \<longrightarrow>
       unat rdw \<in> {1..127} \<longrightarrow> unat vdw \<in> {4..108} \<longrightarrow> in_range_702 (vco_702 (unat rdw) (unat vdw)) (unat rdw) \<longrightarrow>
       passes_702 rate od rdw vdw" for rate by (simp add: passes_702_def vco_tested_exact)
  let ?rate = "frequency_335 c"
  from search_702_end [OF assms] obtain st V where st: "od_loop ?rate 2 (start_702 ?rate) = Some st"
    "good_702 ?rate V st" and all: "allowed_702 ?rate od rdw vdw \<Longrightarrow> (od, rdw, vdw) \<in> V" for od rdw vdw
    by blast
  define better where "better = (hi st - ?rate < ?rate - low st)"
  define od rdw vdw where best: "od = (if better then hOD st else lOD st)"
    "rdw = (if better then hRDW st else lRDW st)" "vdw = (if better then hVDW st else lVDW st)"
  define clk where "clk = (if better then hi st else low st)"
  note near = best_702 [OF assms st(2), folded better_def, folded clk_def]
  have far: "distance clk ?rate \<le> distance (check_702 o' r v) ?rate" if "allowed_702 ?rate o' r v" for o' r v
    using good_702_far [OF st(2) all [OF that]] that near(1) by (simp add: allowed_702_def)
  have found: "found_702 ?rate (if better then ?rate + ?rate div 10 else ?rate - ?rate div 10) clk od rdw vdw"
    using st(2) by (simp add: good_702_def best clk_def)
  have run: "GetICS30702Data c = (case od_code od of None \<Rightarrow> (1, c\<lparr>frequency_335 := 0\<rparr>)
    | Some code \<Rightarrow> (0, c\<lparr>frequency_335 := check_702 od rdw vdw,
        clock_bits_335 := push_bit 7 (push_bit 9 code OR vdw) OR rdw\<rparr>))"
    by (cases better) (simp_all add: GetICS30702Data_def Let_def st(1) best better_def [symmetric] split: option.split)
  show ?thesis
  proof (cases "od_code od")
    case None
    have start: "clk = (if better then ?rate + ?rate div 10 else ?rate - ?rate div 10)"
      by (rule found_702_start [OF found None])
    then have "\<not> better" using near(3) by (auto simp: clk_def)
    then have "distance clk ?rate = unat ?rate div 10"
      using start start_702_good(2) [OF assms] good_702_bounds [OF start_702_good(1) [OF assms]]
      by (simp add: start_702_def distance_low)
    with far None all_exact [of ?rate] show ?thesis
      by (simp add: calculate_clock_bits_335_def run allowed_702_passes)
  next
    case (Some code)
    from found_702_code [OF found Some] have ok: "allowed_702 ?rate od rdw vdw" "clk = check_702 od rdw vdw"
      by simp_all
    then have "control_702 (push_bit 7 (push_bit 9 code OR vdw) OR rdw) = (code, vdw, rdw)"
      by (intro control_702_fields [OF Some]) (simp_all add: allowed_702_def searched_702_def)
    with ok far near(2) Some exact [of ?rate od rdw vdw] all_exact [of ?rate] show ?thesis
      unfolding allowed_702_passes by (simp add: calculate_clock_bits_335_def run) blast
  qed
qed

lemma ics702_finds_best_witness:
  "case calculate_clock_bits_335 \<lparr>frequency_335 = 1000000, clock_bits_335 = 0\<rparr> of (t, c') \<Rightarrow>
    let rate = frequency_335 \<lparr>frequency_335 = 1000000, clock_bits_335 = 0\<rparr> in
    (if t = 0 then
      \<exists>od code rdw vdw. passes_702 rate od rdw vdw \<and> od_code od = Some code \<and>
        (unat vdw \<le> 108 \<longrightarrow> in_range_702 (vco_702 (unat rdw) (unat vdw)) (unat rdw)) \<and>
        control_702 (clock_bits_335 c') = (code, vdw, rdw) \<and>
        frequency_335 c' = check_702 od rdw vdw \<and>
        distance (frequency_335 c') rate \<le> unat rate div 10 \<and>
        (\<forall>o' r v. passes_702 rate o' r v \<longrightarrow>
           distance (frequency_335 c') rate \<le> distance (check_702 o' r v) rate)
    else t = 1 \<and> c' = \<lparr>frequency_335 = 1000000, clock_bits_335 = 0\<rparr>\<lparr>frequency_335 := 0\<rparr> \<and>
      (\<forall>od rdw vdw. passes_702 rate od rdw vdw \<longrightarrow>
         unat rate div 10 \<le> distance (check_702 od rdw vdw) rate)) \<and>
    (\<forall>od rdw vdw. list_ex (\<lambda>(n, m). unat od = n \<and> unat rate \<le> m) max_rates \<longrightarrow>
       unat rdw \<in> {1..127} \<longrightarrow> unat vdw \<in> {4..108} \<longrightarrow> in_range_702 (vco_702 (unat rdw) (unat vdw)) (unat rdw) \<longrightarrow>
       passes_702 rate od rdw vdw)"
  by (rule ics702_finds_best) simp

text \<open>What passes is what the code computes: the product behind \<open>range1\<close> needs more than
  32 bits for most VCO dividers, so it wraps. These dividers run the chip at 110.6 MHz, inside
  its range of 60 to 360 MHz, and the search rejects them; the next ones run it at 1.52 GHz,
  and the search takes them for allowed.\<close>

lemma operating_range_wraps:
  "\<not> operating_range 48 142 \<and> (18432000 * 2 * (142 + 8)) div (48 + 2) = (110592000 :: nat)"
  "operating_range 1 116 \<and> (18432000 * 2 * (116 + 8)) div (1 + 2) = (1523712000 :: nat)"
  by (simp_all add: operating_range_def)

end
