(* ===== verification/Spec2Isabelle.thy ===== *)
theory Spec2Isabelle
  imports Fscc_Programs Fscc_Looptest Fscc_Lifecycle Fscc_Dma Fscc_Trace Fscc_Ics702
begin

text \<open>
  A model of the Windows driver of the Fastcom FSCC cards (\<open>src/src\<close>) and of the clock
  calculator of its user-space library (\<open>src/lib/raw\<close>), with the programs that use both
  (\<open>src/examples\<close>, \<open>src/tools\<close>).

  \<^bold>\<open>The program.\<close> A card has two ports. A port moves data between two rings of
  \<^emph>\<open>frames\<close> in memory, one for reception and one for transmission, and the card. A frame is
  a buffer with a \<^emph>\<open>descriptor\<close> (control word, data address and count, next descriptor) in
  the layout that the DMA engine of the card reads. Without DMA the driver itself copies the
  data between the frames and the FIFOs of the card, with the same descriptor bits, so that the
  user's side of the rings is the same in both modes (the property at the end of
  \<open>Fscc_Dma\<close>). A write request is copied into
  transmit frames (\<open>fscc_user_write_frame\<close>), the deferred routine \<open>oframe\<close> moves
  them into the FIFO and issues the transmit command (\<open>fscc_io_transmit_frame\<close>); the deferred
  routine \<open>iframe\<close> moves received data into the receive frames (\<open>fscc_fifo_read_data\<close>), and
  \<open>process_read\<close> gives them to waiting read requests (\<open>fscc_user_read_frame\<close>,
  \<open>fscc_user_read_stream\<close>). The interrupt routine schedules these routines, and a timer
  runs them as well. Control requests read and write registers, settings and the clock.

  \<^bold>\<open>Theories.\<close>

    \<^item> \<open>Fscc_Prelude\<close>: generic lemmas on words, lists, bytes and option computations and the
      collections of lemmas the proofs use.
    \<^item> \<open>Fscc_Defs\<close>: \<open>defines.h\<close>, \<open>port.h\<close>, \<open>fscc.h\<close>, \<open>io.h\<close>, \<open>card.h\<close>. The record \<open>driver\<close> holds the
      fields of \<open>struct fscc_port\<close> and of its card that the code uses; \<open>frame\<close> is \<open>struct dma_frame\<close>
      with its descriptor. The record \<open>env\<close> holds what is not under \<open>src/\<close>: what a port read
      returns, what the request queues and the buffers of requests answer, the clock. Every
      answer may depend on the history of events, newest first, that the driver keeps in
      \<open>events\<close>; the history also is what the properties speak about.
    \<^item> \<open>Fscc_Card\<close>: \<open>card.c\<close> and \<open>utils.c\<close>, register access through a BAR.
    \<^item> \<open>Fscc_Registers\<close>: the register access of \<open>port.c\<close>, the clock check with its twenty reads of
      STAR (\<open>fscc_port_timed_out\<close>), reading and writing the register structure.
    \<^item> \<open>Fscc_Clock\<close>: \<open>fscc_port_set_clock_bits\<close>, which shifts the clock bits out over FCR.
    \<^item> \<open>Fscc_Frames\<close>: the DMA commands, the counters, creation, destruction and reset of the
      frames and rings in \<open>io.c\<close>. \<open>Fscc_Rings\<close>: well-formed rings and the invariants
      \<open>rx_ring_ok\<close> and \<open>tx_ring_ok\<close>. Both have a form that also puts the cursor of the FIFO side in
      step with the queue (\<open>True\<close>), and one that does not (\<open>False\<close>), since with DMA the engine
      takes the place of the FIFO side and leaves that cursor behind.
    \<^item> \<open>Fscc_Tx\<close>: the transmit path of \<open>io.c\<close>, \<open>Fscc_Transmit\<close>: its invariants and refinement.
      \<open>Fscc_Rx\<close>: the receive path, \<open>Fscc_Receive\<close>: its invariants and refinement, for a read of one
      frame, of several (\<open>rx_multiple\<close>) and of the stream; \<open>readable\<close> says which queues the read
      routine can be run on. \<open>Fscc_Example\<close>: a
      concrete port for the witnesses.
    \<^item> \<open>Fscc_Memory\<close>: what creating and destroying a ring allocates and frees, and what
      creation and purging leave; \<open>rings_kept\<close> and \<open>handled\<close>, what every handler owes the rings
      and its request. \<open>Fscc_Reads\<close>: reading and stamping in any state of the receive ring, and
      a frame that reading leaves behind.
    \<^item> \<open>Fscc_Engine\<close>: the steps of the DMA engine on the rings, and what both sides rely on.
      \<open>Fscc_Dma\<close>: what a write hands to the engine, found by following the links as it does, and
      the two modes compared from the user's side.
    \<^item> \<open>Fscc_Settings\<close>: the flags of a port in \<open>port.c\<close>.
    \<^item> \<open>Fscc_Isr\<close>: \<open>isr.c\<close>, the interrupt routine, the deferred routines and the timer.
    \<^item> \<open>Fscc_Ioctl\<close>: \<open>FsccEvtIoDeviceControl\<close> with its codes, \<open>FsccDeviceFileCreate\<close>,
      \<open>FsccFileClose\<close>.
    \<^item> \<open>Fscc_Requests\<close>: the ledger of a history, the requests that wait, were completed or were
      cancelled, and what each handler adds to it. \<open>Fscc_Driver\<close>: a port in operation, the
      handlers registered in \<open>fscc_port_new\<close> as steps of a run, and the properties that hold
      after any run. \<open>Fscc_Lifecycle\<close>: preparing, any run and releasing together, and that
      nothing stays allocated.
    \<^item> \<open>Fscc_Platform\<close>: the registry and the names of a port in \<open>driver.c\<close> and \<open>port.c\<close>, with the
      defaults of \<open>config.h\<close>. \<open>Fscc_Device\<close>: \<open>fscc_port_new\<close>, \<open>fscc_card_init\<close>,
      \<open>FsccEvtDevicePrepareHardware\<close>, \<open>FsccEvtDeviceReleaseHardware\<close>; a prepared port
      satisfies the ring invariants. The framework and the registry are the record \<open>platform\<close>.
    \<^item> \<open>Fscc_Ics702\<close>: \<open>GetICS30702Data\<close> of \<open>calculate-clock-bits.c\<close>. \<open>Fscc_Ics703\<close>: the search of
      \<open>GetICS30703Data\<close>; \<open>Fscc_Progdata\<close>: the bytes it programs; \<open>Fscc_Clockgen\<close>: both
      together and the entry points.
    \<^item> \<open>Fscc_Trace\<close>: the trace messages of \<open>debug.c\<close> on registers and interrupts.
    \<^item> \<open>Fscc_Client\<close>: \<open>lib/raw/fscc.h\<close>, the programs' view of the register structure and of
      the control codes, and the example programs and tools as sequences of calls.
      \<open>Fscc_Looptest\<close>: the tool \<open>loop_test.c\<close>, whose calls depend on the answers, with the port as a
      parameter. \<open>Fscc_Programs\<close>: what the programs achieve, every program (the loop test too)
      answered, and a frequency on its way from the program to the pins of the clock generator.

  \<^bold>\<open>Correspondence.\<close> Definitions have the names of the C functions and follow their statements
  in order, early returns and error codes included. A C function that reads or writes the port
  takes the \<open>driver\<close> and returns it. \<open>None\<close> stands for behaviour C does not define (a
  null descriptor, a copy past the end of a buffer), so a theorem that a result is \<open>Some\<close> also
  says that nothing of the kind happens. 32-bit values are \<open>32 word\<close>, signed comparisons read them
  with \<open>sint\<close>, \<open>size_t\<close> values are natural numbers. A loop of C is a recursive function: the ring
  loops are bounded by the number of frames of the ring, and the bound is the code's own
  (\<open>for (i = 0; i < num; i++)\<close>); loops over request queues and the search over tolerances may
  not end and are partial functions (\<open>isr_alert_loop\<close>, \<open>alls_loop\<close>, \<open>ppm_loop\<close>), so
  their properties prove that they return.

  \<^bold>\<open>Abstract specifications.\<close> A transmit ring stands for the list of frames waiting in it
  (pending frames from the reading to the writing descriptor), a receive ring for the list
  of frames that can be delivered or, when streaming, for the bytes in its descriptors. The
  refinement lemmas say what each operation does to these lists:
  enqueueing appends a frame, the FIFO routine removes a prefix and writes it to the card,
  reading a stream takes a prefix of the bytes. The end-to-end properties compose them. For
  the requests the abstract view is the ledger: a handler adds the request it is passed, and
  nothing is ever taken out.

  \<^bold>\<open>Interfaces.\<close> Locales state what one component relies on from another, and each is
  interpreted on the definitions of the model in the theory that provides it.

  \<^bold>\<open>Hypotheses on the environment.\<close> \<open>queue_works\<close>: the request queues answer as WDF documents
  (first request, request after a given one, not found). \<open>inputs_as_asked\<close>, \<open>buffers_as_asked\<close>:
  a buffer has the length asked for. \<open>works\<close> is both for every queue. \<open>serves\<close>: Windows hands the
  buffers of a call to the driver, and refuses one that is too small. Hypotheses on the hardware are
  stated on the reads of the register they concern. For the clock calculator the
  arithmetic on \<open>double\<close> is a parameter (\<open>doubles\<close>): the C standard does not fix it, and the
  properties hold for every instance; \<open>exact\<close> is the instance with the reals.

  \<^bold>\<open>The DMA engine\<close> is hardware. What it receives and when it is done with a descriptor are
  input of a run (\<open>Engine_receives\<close>, \<open>Engine_sends\<close>), under the rules the driver relies on
  (\<open>may_receive\<close>, \<open>may_send\<close>), one descriptor at a time and between two routines.

  \<^bold>\<open>Not modelled.\<close> One routine is one step: spin locks and preemption within a routine are left
  out. A request leaves a queue because the driver takes it or purges the queue; that the
  framework cancels single requests of a closed file is left out. The trace lines other than
  those on registers and interrupts are left out, and with them the register reads that a build
  without event tracing makes for their arguments (two more reads of VSTR when a port is prepared,
  for the line with the card's name, are the only ones). So are the branches for big-endian machines and
  \<open>DISABLE_XTAL\<close>, which the build never compiles, and what programs print.
  Configuration structures of the framework leave no trace in the driver and are left out.
\<close>

end
